(* ===== verification/Cpp_Prelude.thy ===== *)
theory Cpp_Prelude
  imports Main "HOL-Library.Word" "HOL-Library.Char_ord" "HOL-Library.List_Lexorder"
begin

text \<open>
  What every component of the development shares: the machine integer types, the
  exceptions of \<^verbatim>\<open>Lab3/src/errors.hpp\<close> as values of a sum type, the parts of the C++
  standard library the sources call (number parsing, \<^verbatim>\<open>std::to_string\<close>, \<^verbatim>\<open>std::getline\<close>,
  the ordered containers \<^verbatim>\<open>std::map\<close> and \<^verbatim>\<open>std::set\<close>), and the generic lemmas about
  them. The ordered containers are presented to their clients through the locale
  \<open>std_map\<close>, which is interpreted on the list implementation at the end.
\<close>

section \<open>Machine integers and exceptions\<close>

type_synonym u8 = "8 word"
type_synonym u16 = "16 word"
type_synonym u32 = "32 word"
type_synonym u64 = "64 word"
type_synonym bytes = "u8 list"

lemma word_less_Suc: "i \<noteq> - 1 \<Longrightarrow> i < i + (1 :: 'a::len word)"
proof -
  assume "i \<noteq> - 1"
  then have "1 + i \<noteq> 0" using max_word_wrap [of i] by (auto simp: add.commute)
  then show ?thesis by (simp add: word_less_nat_alt unatSuc add.commute [of i])
qed

text \<open>
  The five exception classes declared in \<^verbatim>\<open>errors.hpp\<close> carry a message. \<open>Std_Exception\<close>
  is an exception thrown by the standard library (\<^verbatim>\<open>std::invalid_argument\<close>,
  \<^verbatim>\<open>std::out_of_range\<close>), and \<open>Undefined\<close> marks the executions the C++ standard gives
  no meaning (a read past the end, a null dereference, locking a mutex twice) or that an
  \<^verbatim>\<open>assert\<close> stops. No \<^verbatim>\<open>catch\<close> clause handles \<open>Undefined\<close>.
\<close>

datatype exn =
    Config_Error string
  | Parse_Incomplete_Error string
  | Parse_Syntax_Error string
  | Server_Error string
  | Log_Error string
  | Std_Exception string
  | Undefined string

type_synonym 'a result = "exn + 'a"

fun is_undefined :: "exn \<Rightarrow> bool" where
  "is_undefined (Undefined _) = True"
| "is_undefined _ = False"

fun is_incomplete_error :: "exn \<Rightarrow> bool" where
  "is_incomplete_error (Parse_Incomplete_Error _) = True"
| "is_incomplete_error _ = False"

text \<open>\<open>try_catch m h\<close>: a block under \<^verbatim>\<open>catch (std::exception &)\<close>.\<close>

definition try_catch :: "'a result \<Rightarrow> (exn \<Rightarrow> 'a result) \<Rightarrow> 'a result" where
  "try_catch m h =
     (case m of Inr x \<Rightarrow> Inr x
      | Inl e \<Rightarrow> if is_undefined e then Inl e else h e)"

definition res_bind :: "'a result \<Rightarrow> ('a \<Rightarrow> 'b result) \<Rightarrow> 'b result" where
  "res_bind m f = (case m of Inl e \<Rightarrow> Inl e | Inr x \<Rightarrow> f x)"

lemma res_bind_simps [simp]:
  "res_bind (Inr x) f = f x"
  "res_bind (Inl e) f = Inl e"
  by (simp_all add: res_bind_def)

lemma res_bind_eq_Inr [simp]:
  "res_bind m f = Inr y \<longleftrightarrow> (\<exists>x. m = Inr x \<and> f x = Inr y)"
  by (auto simp: res_bind_def split: sum.splits)

lemma try_catch_simps [simp]:
  "try_catch (Inr x) h = Inr x"
  "\<not> is_undefined e \<Longrightarrow> try_catch (Inl e) h = h e"
  "is_undefined e \<Longrightarrow> try_catch (Inl e) h = Inl e"
  by (simp_all add: try_catch_def)

section \<open>Number parsing and printing\<close>

definition is_digit :: "char \<Rightarrow> bool" where
  "is_digit c \<longleftrightarrow> CHR ''0'' \<le> c \<and> c \<le> CHR ''9''"

definition digit_val :: "char \<Rightarrow> nat" where
  "digit_val c = of_char c - 48"

definition digit_char :: "nat \<Rightarrow> char" where
  "digit_char n = char_of (48 + n)"

text \<open>White space in the C locale: blank, tab, new line, vertical tab, form feed, return.\<close>

definition is_space :: "char \<Rightarrow> bool" where
  "is_space c \<longleftrightarrow> (of_char c :: nat) \<in> {9, 10, 11, 12, 13, 32}"

definition digits_value :: "string \<Rightarrow> nat" where
  "digits_value s = foldl (\<lambda>a c. 10 * a + digit_val c) 0 s"

text \<open>
  \<^verbatim>\<open>strtol\<close> with base 10: skip white space, take an optional sign, then the longest run of
  digits. \<open>None\<close> when there is no digit. Anything behind the digits is ignored.
\<close>

definition strtol :: "string \<Rightarrow> int option" where
  "strtol s =
     (let s1 = dropWhile is_space s;
          neg = (s1 \<noteq> [] \<and> hd s1 = CHR ''-'');
          s2 = (if s1 \<noteq> [] \<and> (hd s1 = CHR ''-'' \<or> hd s1 = CHR ''+'') then tl s1 else s1);
          ds = takeWhile is_digit s2
      in if ds = [] then None
         else Some (if neg then - int (digits_value ds) else int (digits_value ds)))"

definition in_range :: "int \<Rightarrow> int \<Rightarrow> string \<Rightarrow> int result" where
  "in_range lo hi s =
     (case strtol s of
        None \<Rightarrow> Inl (Std_Exception ''invalid_argument'')
      | Some v \<Rightarrow> if lo \<le> v \<and> v \<le> hi then Inr v else Inl (Std_Exception ''out_of_range''))"

text \<open>\<^verbatim>\<open>std::stoi\<close>, \<^verbatim>\<open>std::stol\<close>, \<^verbatim>\<open>std::stoul\<close>, \<^verbatim>\<open>std::stoll\<close> on an LP64 platform; \<^verbatim>\<open>stoul\<close>
  accepts a minus sign and negates in the unsigned type.\<close>

definition stoi :: "string \<Rightarrow> int result" where
  "stoi = in_range (- (2 ^ 31)) (2 ^ 31 - 1)"

definition stol :: "string \<Rightarrow> int result" where
  "stol = in_range (- (2 ^ 63)) (2 ^ 63 - 1)"

definition stoul :: "string \<Rightarrow> u64 result" where
  "stoul s = res_bind (in_range (- (2 ^ 64 - 1)) (2 ^ 64 - 1) s) (\<lambda>v. Inr (word_of_int v))"

fun to_string :: "nat \<Rightarrow> string" where
  "to_string n =
     (if n < 10 then [digit_char n] else to_string (n div 10) @ [digit_char (n mod 10)])"

declare to_string.simps [simp del]

lemma of_char_digit_char: "n < 10 \<Longrightarrow> (of_char (digit_char n) :: nat) = 48 + n"
  by (simp add: digit_char_def of_char_of)

lemma is_digit_iff: "is_digit c \<longleftrightarrow> 48 \<le> (of_char c :: nat) \<and> (of_char c :: nat) \<le> 57"
  by (simp add: is_digit_def less_eq_char_def)

lemma is_digit_digit_char [simp]: "n < 10 \<Longrightarrow> is_digit (digit_char n)"
  by (simp add: is_digit_iff of_char_digit_char)

lemma digit_val_digit_char [simp]: "n < 10 \<Longrightarrow> digit_val (digit_char n) = n"
  by (simp add: digit_val_def of_char_digit_char)

lemma digits_value_snoc: "digits_value (s @ [c]) = 10 * digits_value s + digit_val c"
  by (simp add: digits_value_def)

lemma to_string_nonempty [simp]: "to_string n \<noteq> []"
  by (subst to_string.simps) simp

lemma to_string_digits: "\<forall>c \<in> set (to_string n). is_digit c"
proof (induction n rule: to_string.induct)
  case (1 n)
  then show ?case by (subst to_string.simps) simp
qed

lemma digits_value_to_string [simp]: "digits_value (to_string n) = n"
proof (induction n rule: to_string.induct)
  case (1 n)
  show ?case
  proof (cases "n < 10")
    case True
    then show ?thesis by (subst to_string.simps) (simp add: digits_value_def)
  next
    case False
    with "1.IH" show ?thesis
      by (subst to_string.simps) (simp add: digits_value_snoc)
  qed
qed

lemma digit_not_space: "is_digit c \<Longrightarrow> \<not> is_space c"
  by (auto simp: is_digit_iff is_space_def)

lemma digit_not_sign: "is_digit c \<Longrightarrow> c \<noteq> CHR ''-'' \<and> c \<noteq> CHR ''+''"
  by (auto simp: is_digit_iff)

lemma strtol_digits:
  assumes "\<forall>c \<in> set s. is_digit c" "s \<noteq> []"
  shows "strtol s = Some (int (digits_value s))"
proof -
  obtain c cs where s: "s = c # cs" using assms(2) by (cases s) auto
  with assms(1) have "is_digit c" by simp
  moreover have "takeWhile is_digit cs = cs"
    using assms(1) s by (simp add: takeWhile_eq_all_conv)
  ultimately show ?thesis
    using s digit_not_space [of c] digit_not_sign [of c]
    by (simp add: strtol_def del: takeWhile_eq_all_conv)
qed

lemma strtol_to_string [simp]: "strtol (to_string n) = Some (int n)"
  by (simp add: strtol_digits to_string_digits)

lemma in_range_to_string:
  "lo \<le> int n \<Longrightarrow> int n \<le> hi \<Longrightarrow> in_range lo hi (to_string n) = Inr (int n)"
  by (simp add: in_range_def)

lemma stol_digits:
  assumes "\<forall>c \<in> set s. is_digit c" "s \<noteq> []"
  shows "stol s = (if digits_value s < 2 ^ 63 then Inr (int (digits_value s))
                   else Inl (Std_Exception ''out_of_range''))"
proof -
  have "int (digits_value s) \<le> 2 ^ 63 - 1 \<longleftrightarrow> digits_value s < 2 ^ 63"
    by (simp add: le_diff_eq zle_iff_zadd) presburger
  then show ?thesis
    by (simp add: stol_def in_range_def strtol_digits [OF assms])
qed

section \<open>Lines and separators\<close>

text \<open>
  \<^verbatim>\<open>std::getline(stream, str, delim)\<close> on a string stream: it fails at the end of the
  stream, otherwise it extracts the characters up to the delimiter and discards the
  delimiter. \<open>getlines\<close> is the loop \<^verbatim>\<open>while (std::getline(ss, token, delim))\<close>.
\<close>

definition getline :: "char \<Rightarrow> string \<Rightarrow> (string \<times> string) option" where
  "getline d s =
     (if s = [] then None
      else Some (takeWhile (\<lambda>c. c \<noteq> d) s, drop 1 (dropWhile (\<lambda>c. c \<noteq> d) s)))"

lemma getline_shrinks: "getline d s = Some (t, r) \<Longrightarrow> length r < length s"
proof -
  assume "getline d s = Some (t, r)"
  then have "s \<noteq> []" "r = drop 1 (dropWhile (\<lambda>c. c \<noteq> d) s)"
    by (auto simp: getline_def split: if_splits)
  moreover have "length (dropWhile (\<lambda>c. c \<noteq> d) s) \<le> length s"
    by (rule length_dropWhile_le)
  ultimately show ?thesis by (cases s) auto
qed

function getlines :: "char \<Rightarrow> string \<Rightarrow> string list" where
  "getlines d s = (case getline d s of None \<Rightarrow> [] | Some (t, r) \<Rightarrow> t # getlines d r)"
  by pat_completeness auto
termination
  by (relation "measure (\<lambda>(d, s). length s)") (auto dest: getline_shrinks)

declare getlines.simps [simp del]

text \<open>The inverse direction: strings with a separator between neighbours.\<close>

fun join :: "string \<Rightarrow> string list \<Rightarrow> string" where
  "join sep [] = []"
| "join sep [x] = x"
| "join sep (x # y # ys) = x @ sep @ join sep (y # ys)"

lemma getlines_Nil [simp]: "getlines d [] = []"
  by (simp add: getlines.simps getline_def)

lemma getlines_no_delim: "d \<notin> set s \<Longrightarrow> s \<noteq> [] \<Longrightarrow> getlines d s = [s]"
proof -
  assume "d \<notin> set s" "s \<noteq> []"
  then have "takeWhile (\<lambda>c. c \<noteq> d) s = s" "dropWhile (\<lambda>c. c \<noteq> d) s = []"
    by (auto simp: takeWhile_eq_all_conv dropWhile_eq_Nil_conv)
  then have "getline d s = Some (s, [])"
    using \<open>s \<noteq> []\<close> by (simp add: getline_def del: takeWhile_eq_all_conv dropWhile_eq_Nil_conv)
  then show ?thesis by (subst getlines.simps) simp
qed

lemma takeWhile_append_stop: "d \<notin> set w \<Longrightarrow> takeWhile (\<lambda>c. c \<noteq> d) (w @ d # s) = w"
  by (induction w) auto

lemma dropWhile_append_stop: "d \<notin> set w \<Longrightarrow> dropWhile (\<lambda>c. c \<noteq> d) (w @ d # s) = d # s"
  by (induction w) auto

lemma getline_delim: "d \<notin> set w \<Longrightarrow> getline d (w @ d # s) = Some (w, s)"
  by (simp add: getline_def takeWhile_append_stop dropWhile_append_stop)

lemma getlines_delim: "d \<notin> set w \<Longrightarrow> getlines d (w @ d # s) = w # getlines d s"
  by (subst getlines.simps) (simp add: getline_delim)

lemma getlines_join:
  assumes "ws \<noteq> []" "last ws \<noteq> []" "\<forall>w \<in> set ws. d \<notin> set w"
  shows "getlines d (join [d] ws) = ws"
  using assms
proof (induction "[d]" ws rule: join.induct)
  case (3 x y ys)
  then show ?case by (simp add: getlines_delim)
qed (auto simp: getlines_no_delim)

lemma join_Cons: "ws \<noteq> [] \<Longrightarrow> join sep (w # ws) = w @ sep @ join sep ws"
  by (cases ws) auto

lemma getlines_eq_Nil [simp]: "getlines d s = [] \<longleftrightarrow> s = []"
  by (subst getlines.simps) (auto simp: getline_def split: option.splits)

lemma join_getlines:
  assumes "s \<noteq> [] \<Longrightarrow> last s \<noteq> d"
  shows "join [d] (getlines d s) = s"
  using assms
proof (induction d s rule: getlines.induct)
  case (1 d s)
  show ?case
  proof (cases "d \<in> set s")
    case False
    then show ?thesis by (cases "s = []") (auto simp: getlines_no_delim)
  next
    case True
    then obtain w r where s: "s = w @ d # r" "d \<notin> set w" by (meson split_list_first)
    with "1.prems" have "r \<noteq> []" "last r \<noteq> d" by (auto split: if_splits)
    with "1.IH" [OF getline_delim [OF s(2), of r, folded s(1)] refl]
    show ?thesis by (simp add: s getlines_delim join_Cons)
  qed
qed

section \<open>Ordered containers\<close>

text \<open>
  \<^verbatim>\<open>std::map\<close> as the list of its key/value pairs in the iteration order (ascending keys),
  \<^verbatim>\<open>std::set\<close> as the ascending list of its elements. \<open>om_put\<close> is \<^verbatim>\<open>m[k] = v\<close>,
  \<open>om_erase\<close> is \<^verbatim>\<open>m.erase(k)\<close>, \<open>os_put\<close> and \<open>os_erase\<close> are \<^verbatim>\<open>s.insert(x)\<close> and
  \<^verbatim>\<open>s.erase(x)\<close>.
\<close>

type_synonym ('k, 'v) omap = "('k \<times> 'v) list"

definition om_put :: "'k::linorder \<Rightarrow> 'v \<Rightarrow> ('k, 'v) omap \<Rightarrow> ('k, 'v) omap" where
  "om_put k v m = filter (\<lambda>p. fst p < k) m @ (k, v) # filter (\<lambda>p. k < fst p) m"

definition om_erase :: "'k::linorder \<Rightarrow> ('k, 'v) omap \<Rightarrow> ('k, 'v) omap" where
  "om_erase k m = filter (\<lambda>p. fst p \<noteq> k) m"

definition om_wf :: "('k::linorder, 'v) omap \<Rightarrow> bool" where
  "om_wf m \<longleftrightarrow> sorted_wrt (<) (map fst m)"

definition os_put :: "'a::linorder \<Rightarrow> 'a list \<Rightarrow> 'a list" where
  "os_put x s = filter (\<lambda>y. y < x) s @ x # filter (\<lambda>y. x < y) s"

definition os_erase :: "'a \<Rightarrow> 'a list \<Rightarrow> 'a list" where
  "os_erase x s = filter (\<lambda>y. y \<noteq> x) s"

lemma set_os_put [simp]: "set (os_put x s) = insert x (set s)"
  by (auto simp: os_put_def)

lemma set_os_erase [simp]: "set (os_erase x s) = set s - {x}"
  by (auto simp: os_erase_def)

lemma sorted_os_put: "sorted_wrt (<) s \<Longrightarrow> sorted_wrt (<) (os_put x s)"
  by (auto simp: os_put_def sorted_wrt_append intro: sorted_wrt_filter)

lemma sorted_os_erase: "sorted_wrt (<) s \<Longrightarrow> sorted_wrt (<) (os_erase x s)"
  by (simp add: os_erase_def sorted_wrt_filter)

lemma map_fst_filter_fst: "map fst (filter (\<lambda>p. P (fst p)) m) = filter P (map fst m)"
  by (induction m) auto

lemmas map_fst_filters =
  map_fst_filter_fst [where P = "\<lambda>j. j < k" for k]
  map_fst_filter_fst [where P = "\<lambda>j. k < j" for k]
  map_fst_filter_fst [where P = "\<lambda>j. j \<noteq> k" for k]

lemma om_wf_put: "om_wf m \<Longrightarrow> om_wf (om_put k v m)"
  by (auto simp: om_wf_def om_put_def sorted_wrt_append map_fst_filters intro: sorted_wrt_filter)

lemma om_wf_erase: "om_wf m \<Longrightarrow> om_wf (om_erase k m)"
  by (simp add: om_wf_def om_erase_def map_fst_filters sorted_wrt_filter)

lemma map_of_filter_fst:
  "map_of (filter (\<lambda>p. P (fst p)) m) k = (if P k then map_of m k else None)"
  by (induction m) auto

lemmas map_of_filters =
  map_of_filter_fst [where P = "\<lambda>j. j < k" for k]
  map_of_filter_fst [where P = "\<lambda>j. k < j" for k]
  map_of_filter_fst [where P = "\<lambda>j. j \<noteq> k" for k]

lemma map_of_om_put: "map_of (om_put k v m) = (map_of m)(k \<mapsto> v)"
proof
  fix j
  show "map_of (om_put k v m) j = ((map_of m)(k \<mapsto> v)) j"
    by (cases j k rule: linorder_cases)
      (auto simp: om_put_def map_of_filters map_add_def split: option.splits)
qed

lemma map_of_om_erase: "map_of (om_erase k m) = (map_of m)(k := None)"
  by (rule ext) (simp add: om_erase_def map_of_filters)

lemma entries_of_keys:
  "distinct (map fst xs) \<Longrightarrow> xs = map (\<lambda>k. (k, the (map_of xs k))) (map fst xs)"
  by (rule sym, unfold map_map, rule map_idI) auto

text \<open>
  What a client relies on when it keeps a table in a \<^verbatim>\<open>std::map\<close>: lookups after an
  update, and that every update keeps the container's own invariant.
\<close>

locale std_map =
  fixes lookup :: "'m \<Rightarrow> 'k::linorder \<Rightarrow> 'v option"
    and put :: "'k \<Rightarrow> 'v \<Rightarrow> 'm \<Rightarrow> 'm"
    and erase :: "'k \<Rightarrow> 'm \<Rightarrow> 'm"
    and entries :: "'m \<Rightarrow> ('k \<times> 'v) list"
    and invar :: "'m \<Rightarrow> bool"
  assumes lookup_put: "invar m \<Longrightarrow> lookup (put k v m) = (lookup m)(k \<mapsto> v)"
    and lookup_erase: "invar m \<Longrightarrow> lookup (erase k m) = (lookup m)(k := None)"
    and invar_put: "invar m \<Longrightarrow> invar (put k v m)"
    and invar_erase: "invar m \<Longrightarrow> invar (erase k m)"
    and lookup_entries: "invar m \<Longrightarrow> lookup m = map_of (entries m)"
    and entries_ascending: "invar m \<Longrightarrow> sorted_wrt (<) (map fst (entries m))"
begin

lemma extensional:
  assumes "invar m" "invar m'" "lookup m = lookup m'"
  shows "entries m = entries m'"
proof -
  have asc: "sorted_wrt (<) (map fst (entries m))" "sorted_wrt (<) (map fst (entries m'))"
    using assms entries_ascending by auto
  then have d: "distinct (map fst (entries m))" "distinct (map fst (entries m'))"
    by (auto simp: strict_sorted_iff)
  have eq: "map_of (entries m) = map_of (entries m')"
    using assms lookup_entries by metis
  then have keys: "set (map fst (entries m)) = set (map fst (entries m'))"
    by (metis dom_map_of_conv_image_fst set_map)
  with asc have "map fst (entries m) = map fst (entries m')"
    by (simp add: strict_sorted_equal)
  then show ?thesis
    using entries_of_keys [OF d(1)] entries_of_keys [OF d(2)] eq by metis
qed

lemma put_then_erase:
  "invar m \<Longrightarrow> lookup m k = None \<Longrightarrow> lookup (erase k (put k v m)) = lookup m"
  by (auto simp: lookup_put lookup_erase invar_put)

lemma erase_entries_Nil:
  "invar m \<Longrightarrow> entries (erase k m) = [] \<longleftrightarrow> dom (lookup m) \<subseteq> {k}"
  by (metis (no_types, lifting) dom_fun_upd dom_eq_empty_conv invar_erase lookup_entries
      lookup_erase map_of_eq_empty_iff Diff_eq_empty_iff)

end

interpretation om: std_map map_of om_put om_erase id om_wf
  by unfold_locales
    (auto simp: map_of_om_put map_of_om_erase om_wf_put om_wf_erase, simp add: om_wf_def)

end
