(* ===== verification/Commands.thy ===== *)
theory Commands
  imports Cpp_Prelude
begin

text \<open>
  The command objects of \<^verbatim>\<open>Lab3/src/command.hpp\<close> and \<^verbatim>\<open>command.cpp\<close>. The class
  hierarchy under \<^verbatim>\<open>command\<close> is a datatype; the constructor stands for the dynamic
  class, from which \<open>cmd_type\<close> gives the tag the base class stores. GET has no id (the
  base class answers 0 and ignores \<^verbatim>\<open>set_id\<close>); SET and DEL carry the id the coordinator
  assigns.
\<close>

type_synonym command_type = u8

definition CMD_GET :: command_type where "CMD_GET = 0"
definition CMD_SET :: command_type where "CMD_SET = 1"
definition CMD_DEL :: command_type where "CMD_DEL = 2"
definition CMD_UNKNOWN :: command_type where "CMD_UNKNOWN = 3"

lemmas cmd_tags = CMD_GET_def CMD_SET_def CMD_DEL_def CMD_UNKNOWN_def

datatype command =
    Get_Command string
  | Set_Command u32 string string
  | Del_Command u32 "string list"

fun cmd_type :: "command \<Rightarrow> command_type" where
  "cmd_type (Get_Command _) = CMD_GET"
| "cmd_type (Set_Command _ _ _) = CMD_SET"
| "cmd_type (Del_Command _ _) = CMD_DEL"

fun cmd_id :: "command \<Rightarrow> u32" where
  "cmd_id (Get_Command _) = 0"
| "cmd_id (Set_Command i _ _) = i"
| "cmd_id (Del_Command i _) = i"

fun set_id :: "u32 \<Rightarrow> command \<Rightarrow> command" where
  "set_id _ (Get_Command k) = Get_Command k"
| "set_id i (Set_Command _ k v) = Set_Command i k v"
| "set_id i (Del_Command _ ks) = Del_Command i ks"

fun args :: "command \<Rightarrow> string list" where
  "args (Get_Command k) = [k]"
| "args (Set_Command _ k v) = [k, v]"
| "args (Del_Command _ ks) = ks"

text \<open>
  The constructors the parser and the RPC layer use, and what a default-constructed object of
  the class of a command looks like.
\<close>

definition new_get_command :: "string \<Rightarrow> command" where
  "new_get_command key = Get_Command key"

definition new_set_command :: "string \<Rightarrow> string \<Rightarrow> command" where
  "new_set_command key value = Set_Command 0 key value"

definition new_del_command :: "string list \<Rightarrow> command" where
  "new_del_command keys = Del_Command 0 keys"

fun default_of :: "command \<Rightarrow> command" where
  "default_of (Get_Command _) = Get_Command []"
| "default_of (Set_Command _ _ _) = Set_Command 0 [] []"
| "default_of (Del_Command _ _) = Del_Command 0 []"

text \<open>
  Each class has a friend \<^verbatim>\<open>swap\<close>, which exchanges the fields but not the tag, and builds its
  move constructor and its assignments on it. The result of a swap are the two objects; that of
  a move the new object and what is left of the old one. Objects of two classes are never
  swapped.
\<close>

fun swap_get :: "command \<Rightarrow> command \<Rightarrow> command \<times> command" where
  "swap_get (Get_Command k) (Get_Command k') = (Get_Command k', Get_Command k)"
| "swap_get a b = (a, b)"

fun swap_set :: "command \<Rightarrow> command \<Rightarrow> command \<times> command" where
  "swap_set (Set_Command i k v) (Set_Command i' k' v') = (Set_Command i' k' v', Set_Command i k v)"
| "swap_set a b = (a, b)"

fun swap_del :: "command \<Rightarrow> command \<Rightarrow> command \<times> command" where
  "swap_del (Del_Command i ks) (Del_Command i' ks') = (Del_Command i' ks', Del_Command i ks)"
| "swap_del a b = (a, b)"

definition move_get :: "command \<Rightarrow> command \<times> command" where
  "move_get c = swap_get (default_of c) c"

definition move_set :: "command \<Rightarrow> command \<times> command" where
  "move_set c = swap_set (default_of c) c"

definition move_del :: "command \<Rightarrow> command \<times> command" where
  "move_del c = swap_del (default_of c) c"

definition move_command :: "command \<Rightarrow> command \<times> command" where
  "move_command c =
     (case c of Get_Command _ \<Rightarrow> move_get c | Set_Command _ _ _ \<Rightarrow> move_set c | Del_Command _ _ \<Rightarrow> move_del c)"

text \<open>Both assignments of a class swap; the argument of the first one is a copy.\<close>

definition assign_get :: "command \<Rightarrow> command \<Rightarrow> command \<times> command" where
  "assign_get target c = swap_get target c"

definition assign_set :: "command \<Rightarrow> command \<Rightarrow> command \<times> command" where
  "assign_set target c = swap_set target c"

definition assign_del :: "command \<Rightarrow> command \<Rightarrow> command \<times> command" where
  "assign_del target c = swap_del target c"

text \<open>Nothing is lost in a move, and an object is left that answers to the same tag, without an id.\<close>

lemma move_command_eq [simp]: "move_command c = (c, default_of c)"
  by (cases c) (simp_all add: move_command_def move_get_def move_set_def move_del_def)

lemma assign_command:
  "cmd_type a = CMD_GET \<Longrightarrow> cmd_type b = CMD_GET \<Longrightarrow> assign_get a b = (b, a)"
  "cmd_type a = CMD_SET \<Longrightarrow> cmd_type b = CMD_SET \<Longrightarrow> assign_set a b = (b, a)"
  "cmd_type a = CMD_DEL \<Longrightarrow> cmd_type b = CMD_DEL \<Longrightarrow> assign_del a b = (b, a)"
  by (cases a; cases b; simp add: assign_get_def assign_set_def assign_del_def cmd_tags)+

definition is_update :: "command \<Rightarrow> bool" where
  "is_update c \<longleftrightarrow> cmd_type c \<noteq> CMD_GET"

lemma is_update_simps [simp]:
  "\<not> is_update (Get_Command k)"
  "is_update (Set_Command i k v)"
  "is_update (Del_Command i ks)"
  by (simp_all add: is_update_def cmd_tags)

lemma cmd_id_set_id [simp]: "is_update c \<Longrightarrow> cmd_id (set_id i c) = i"
  by (cases c) auto

lemma is_update_set_id [simp]: "is_update (set_id i c) = is_update c"
  by (cases c) auto

lemma args_set_id [simp]: "args (set_id i c) = args c"
  by (cases c) auto

text \<open>
  The data store as its clients see it: a map from keys to values. \<open>apply_command\<close> is the
  abstract meaning of a command on it, and the text the client is answered with: SET
  stores, DEL removes the named keys and reports how many of them were there, or an error
  when none was.
\<close>

type_synonym store = "string \<Rightarrow> string option"

definition error_string :: string where
  "error_string = ''-ERROR'' @ [CHR 13, CHR 10]"

definition update_ok_string :: string where
  "update_ok_string = ''+OK'' @ [CHR 13, CHR 10]"

definition deleted_string :: "nat \<Rightarrow> string" where
  "deleted_string n =
     (if n = 0 then error_string else '':'' @ to_string n @ [CHR 13, CHR 10])"

fun apply_command :: "command \<Rightarrow> store \<Rightarrow> store \<times> string" where
  "apply_command (Get_Command _) m = (m, [])"
| "apply_command (Set_Command _ k v) m = (m(k \<mapsto> v), update_ok_string)"
| "apply_command (Del_Command _ ks) m =
     (m |` (- set ks), deleted_string (card (set ks \<inter> dom m)))"

lemma apply_command_set_id [simp]: "apply_command (set_id i c) = apply_command c"
  by (cases c) auto

end
