(* ===== verification/Command_Parser.thy ===== *)
theory Command_Parser
  imports Commands
begin

text \<open>
  The RESP command parser of \<^verbatim>\<open>Lab3/src/command_parser.hpp\<close> and \<^verbatim>\<open>command_parser.cpp\<close>:
  a reader over a byte buffer that throws a syntax error, or an incomplete error when the
  buffer ends too early. A member function of the class that reads is a function from the
  parser to its result and the advanced parser. The locale \<open>stream_reader\<close> is what the
  coordinator needs of such a function to feed it a TCP stream piece by piece; it is
  interpreted on \<open>read_command\<close>.
\<close>

section \<open>The parser\<close>

record parser =
  p_data :: string
  p_idx :: nat
  p_start_idx :: nat

type_synonym 'a reader = "parser \<Rightarrow> ('a \<times> parser) result"

definition preturn :: "'a \<Rightarrow> 'a reader" where
  "preturn x = (\<lambda>p. Inr (x, p))"

definition pfail :: "exn \<Rightarrow> 'a reader" where
  "pfail e = (\<lambda>p. Inl e)"

definition pbind :: "'a reader \<Rightarrow> ('a \<Rightarrow> 'b reader) \<Rightarrow> 'b reader" where
  "pbind r f = (\<lambda>p. case r p of Inl e \<Rightarrow> Inl e | Inr (x, q) \<Rightarrow> f x q)"

definition new_parser :: "string \<Rightarrow> parser" where
  "new_parser d = \<lparr>p_data = d, p_idx = 0, p_start_idx = 0\<rparr>"

definition is_done :: "parser \<Rightarrow> bool" where
  "is_done p \<longleftrightarrow> p_idx p = length (p_data p)"

definition bytes_parsed :: "parser \<Rightarrow> nat" where
  "bytes_parsed p = p_idx p"

definition separator :: string where
  "separator = [CHR 13, CHR 10]"

definition peek_char :: "parser \<Rightarrow> char result" where
  "peek_char p =
     (if p_data p = [] then Inl (Parse_Incomplete_Error ''fail reading from client'')
      else if p_idx p = length (p_data p) then Inl (Parse_Incomplete_Error ''incomplete command'')
      else if p_idx p < length (p_data p) then Inr (p_data p ! p_idx p)
      else Inl (Undefined ''read past the end of the buffer''))"

definition read_char :: "char reader" where
  "read_char p =
     (case peek_char p of Inl e \<Rightarrow> Inl e | Inr ch \<Rightarrow> Inr (ch, p\<lparr>p_idx := p_idx p + 1\<rparr>))"

definition expect_char :: "char \<Rightarrow> string \<Rightarrow> unit reader" where
  "expect_char ch msg =
     pbind read_char (\<lambda>c. if c \<noteq> ch then pfail (Parse_Syntax_Error msg) else preturn ())"

definition expect_separator :: "unit reader" where
  "expect_separator =
     pbind read_char (\<lambda>c.
       if c \<noteq> CHR 13 then pfail (Parse_Syntax_Error ''expect separator'')
       else pbind read_char (\<lambda>d.
         if d \<noteq> CHR 10 then pfail (Parse_Syntax_Error ''expect separator'') else preturn ()))"

text \<open>The loop of \<^verbatim>\<open>read_num_elem\<close>: consume while the character ahead is a digit.\<close>

function read_digits :: "string reader" where
  "read_digits p =
     (case peek_char p of
        Inl e \<Rightarrow> Inl e
      | Inr ch \<Rightarrow>
          if is_digit ch
          then (case read_digits (p\<lparr>p_idx := p_idx p + 1\<rparr>) of
                  Inl e \<Rightarrow> Inl e
                | Inr (s, q) \<Rightarrow> Inr (ch # s, q))
          else Inr ([], p))"
  by pat_completeness auto
termination
  by (relation "measure (\<lambda>p. length (p_data p) - p_idx p)")
    (auto simp: peek_char_def split: if_splits)

declare read_digits.simps [simp del]

definition read_num_elem :: "nat reader" where
  "read_num_elem =
     pbind read_digits (\<lambda>num_str.
       case stol num_str of
         Inr num \<Rightarrow> preturn (nat (num mod 2 ^ 64))
       | Inl _ \<Rightarrow> pfail (Parse_Syntax_Error ''error read_num_elem''))"

fun read_chars :: "nat \<Rightarrow> string reader" where
  "read_chars 0 = preturn []"
| "read_chars (Suc n) =
     pbind read_char (\<lambda>c. pbind (read_chars n) (\<lambda>s. preturn (c # s)))"

definition read_bulk_string :: "string reader" where
  "read_bulk_string =
     pbind (expect_char (CHR ''$'') (''expecting '$'' @ [CHR 0x27])) (\<lambda>_.
     pbind read_num_elem (\<lambda>num_elem.
     pbind expect_separator (\<lambda>_.
     read_chars num_elem)))"

definition read_command_type :: "command_type reader" where
  "read_command_type =
     pbind read_bulk_string (\<lambda>type_str.
       if type_str = ''GET'' then preturn CMD_GET
       else if type_str = ''SET'' then preturn CMD_SET
       else if type_str = ''DEL'' then preturn CMD_DEL
       else pfail (Parse_Syntax_Error ''unknown command type''))"

text \<open>
  The loops over the remaining bulk strings: GET and SET append each to a string stream
  behind a blank, DEL pushes each onto a vector.
\<close>

fun read_joined :: "nat \<Rightarrow> string reader" where
  "read_joined 0 = preturn []"
| "read_joined (Suc n) =
     pbind read_bulk_string (\<lambda>s.
     pbind expect_separator (\<lambda>_.
     pbind (read_joined n) (\<lambda>r. preturn ('' '' @ s @ r))))"

fun read_keys :: "nat \<Rightarrow> string list reader" where
  "read_keys 0 = preturn []"
| "read_keys (Suc n) =
     pbind read_bulk_string (\<lambda>s.
     pbind expect_separator (\<lambda>_.
     pbind (read_keys n) (\<lambda>r. preturn (s # r))))"

definition read_get_command :: "nat \<Rightarrow> command reader" where
  "read_get_command num_elem =
     (if num_elem = 0 then pfail (Parse_Syntax_Error ''mismatching args'')
      else pbind read_bulk_string (\<lambda>key.
           pbind expect_separator (\<lambda>_.
           pbind (read_joined (num_elem - 2)) (\<lambda>rest.
           preturn (new_get_command (key @ rest))))))"

definition read_set_command :: "nat \<Rightarrow> command reader" where
  "read_set_command num_elem =
     (if num_elem < 2 then pfail (Parse_Syntax_Error ''missing args'')
      else pbind read_bulk_string (\<lambda>key.
           pbind expect_separator (\<lambda>_.
           pbind read_bulk_string (\<lambda>value.
           pbind expect_separator (\<lambda>_.
           pbind (read_joined (num_elem - 3)) (\<lambda>rest.
           preturn (new_set_command key (value @ rest))))))))"

definition read_del_command :: "nat \<Rightarrow> command reader" where
  "read_del_command num_elem =
     (if num_elem = 0 then pfail (Parse_Syntax_Error ''mising args'')
      else pbind read_bulk_string (\<lambda>key.
           pbind expect_separator (\<lambda>_.
           pbind (read_keys (num_elem - 2)) (\<lambda>keys.
           preturn (new_del_command (key # keys))))))"

definition read_by_type :: "command_type \<Rightarrow> nat \<Rightarrow> command reader" where
  "read_by_type type num_elem =
     (if type = CMD_GET then read_get_command num_elem
      else if type = CMD_SET then read_set_command num_elem
      else if type = CMD_DEL then read_del_command num_elem
      else pfail (Parse_Syntax_Error ''unregconized command''))"

definition read_array_body :: "command reader" where
  "read_array_body =
     pbind read_num_elem (\<lambda>num_elem.
     pbind expect_separator (\<lambda>_.
     pbind read_command_type (\<lambda>type.
     pbind expect_separator (\<lambda>_.
     read_by_type type num_elem))))"

definition read_command :: "command reader" where
  "read_command = (\<lambda>p.
     pbind (expect_char (CHR ''*'') ''mismatching char'') (\<lambda>_. read_array_body)
       (p\<lparr>p_start_idx := p_idx p\<rparr>))"

section \<open>Reading from a stream that arrives in pieces\<close>

definition p_wf :: "parser \<Rightarrow> bool" where
  "p_wf p \<longleftrightarrow> p_idx p \<le> length (p_data p)"

text \<open>More bytes behind the buffer, fewer bytes in it, and the first \<open>n\<close> bytes discarded.\<close>

definition p_extend :: "string \<Rightarrow> parser \<Rightarrow> parser" where
  "p_extend e p = p\<lparr>p_data := p_data p @ e\<rparr>"

definition p_truncate :: "nat \<Rightarrow> parser \<Rightarrow> parser" where
  "p_truncate k p = p\<lparr>p_data := take k (p_data p)\<rparr>"

definition p_shift :: "nat \<Rightarrow> parser \<Rightarrow> parser" where
  "p_shift n p =
     p\<lparr>p_data := drop n (p_data p), p_idx := p_idx p - n, p_start_idx := p_start_idx p - n\<rparr>"

definition same_class :: "exn \<Rightarrow> exn \<Rightarrow> bool" where
  "same_class e e' \<longleftrightarrow> e = e' \<or> (is_incomplete_error e \<and> is_incomplete_error e')"

text \<open>
  The contract of a reader: it stays within the buffer and does not change it, what it
  returns does not depend on the bytes it has not reached, an error that is not an
  incomplete one is final, it depends on the bytes before the cursor in nothing but the
  wording of the incomplete error, and it never runs past the buffer.
\<close>

locale stream_reader =
  fixes read :: "'a reader"
  assumes read_bounds:
      "p_wf p \<Longrightarrow> read p = Inr (x, q) \<Longrightarrow>
       p_wf q \<and> p_data q = p_data p \<and> p_idx p \<le> p_idx q"
    and read_extend:
      "p_wf p \<Longrightarrow> read p = Inr (x, q) \<Longrightarrow> read (p_extend e p) = Inr (x, p_extend e q)"
    and error_extend:
      "p_wf p \<Longrightarrow> read p = Inl err \<Longrightarrow> \<not> is_incomplete_error err \<Longrightarrow>
       read (p_extend e p) = Inl err"
    and read_shift:
      "p_wf p \<Longrightarrow> n \<le> p_idx p \<Longrightarrow> read p = Inr (x, q) \<Longrightarrow>
       read (p_shift n p) = Inr (x, p_shift n q)"
    and error_shift:
      "p_wf p \<Longrightarrow> n \<le> p_idx p \<Longrightarrow> read p = Inl err \<Longrightarrow>
       \<exists>err'. read (p_shift n p) = Inl err' \<and> same_class err err'"
    and never_undefined:
      "p_wf p \<Longrightarrow> read p = Inl err \<Longrightarrow> \<not> is_undefined err"
begin

lemma truncated_incomplete:
  assumes wf: "p_wf p" and r: "read p = Inr (x, q)" and k: "p_idx p \<le> k" "k < p_idx q"
  shows "\<exists>err. read (p_truncate k p) = Inl err \<and> is_incomplete_error err"
proof -
  from read_bounds [OF wf r] have q: "p_wf q" "p_data q = p_data p" by auto
  with k have len: "k \<le> length (p_data p)" by (simp add: p_wf_def)
  let ?t = "p_truncate k p"
  have t: "p_wf ?t" using k len by (simp add: p_wf_def p_truncate_def)
  have p: "p_extend (drop k (p_data p)) ?t = p" by (simp add: p_extend_def p_truncate_def)
  show ?thesis
  proof (cases "read ?t")
    case (Inl err)
    then show ?thesis using error_extend [OF t Inl, of "drop k (p_data p)"] p r by auto
  next
    case (Inr yq)
    obtain y q' where yq: "yq = (y, q')" by fastforce
    have b: "p_idx q' \<le> k"
      using read_bounds [OF t Inr [unfolded yq]] len by (auto simp: p_wf_def p_truncate_def)
    have "read p = Inr (y, p_extend (drop k (p_data p)) q')"
      using read_extend [OF t Inr [unfolded yq], of "drop k (p_data p)"] p by simp
    with r have "p_idx q = p_idx q'" by (auto simp: p_extend_def)
    with b k show ?thesis by simp
  qed
qed

end

lemma stream_reader_return [simp, intro]: "stream_reader (preturn x)"
  by unfold_locales (auto simp: preturn_def)

lemma stream_reader_fail [simp, intro]:
  "\<not> is_undefined e \<Longrightarrow> stream_reader (pfail e)"
  by unfold_locales (auto simp: pfail_def same_class_def)

lemma p_idx_shift_le:
  "stream_reader r \<Longrightarrow> p_wf p \<Longrightarrow> n \<le> p_idx p \<Longrightarrow> r p = Inr (x, q) \<Longrightarrow> n \<le> p_idx q"
  using stream_reader.read_bounds [of r p x q] by simp

lemma pbind_Inr:
  "pbind r f p = Inr (y, q) \<longleftrightarrow> (\<exists>x p'. r p = Inr (x, p') \<and> f x p' = Inr (y, q))"
  by (auto simp: pbind_def split: sum.splits)

lemma pbind_Inl:
  "pbind r f p = Inl e \<longleftrightarrow> r p = Inl e \<or> (\<exists>x p'. r p = Inr (x, p') \<and> f x p' = Inl e)"
  by (auto simp: pbind_def split: sum.splits)

lemma stream_reader_bind [intro]:
  assumes r: "stream_reader r" and f: "\<And>x. stream_reader (f x)"
  shows "stream_reader (pbind r f)"
proof
  fix p q :: parser and y n e err
  assume wf: "p_wf p"
  show "p_wf q \<and> p_data q = p_data p \<and> p_idx p \<le> p_idx q" if "pbind r f p = Inr (y, q)"
  proof -
    from that obtain x p' where 1: "r p = Inr (x, p')" and 2: "f x p' = Inr (y, q)"
      by (auto simp: pbind_Inr)
    from stream_reader.read_bounds [OF r wf 1] stream_reader.read_bounds [OF f _ 2]
    show ?thesis by auto
  qed
  show "pbind r f (p_extend e p) = Inr (y, p_extend e q)" if "pbind r f p = Inr (y, q)"
  proof -
    from that obtain x p' where 1: "r p = Inr (x, p')" and 2: "f x p' = Inr (y, q)"
      by (auto simp: pbind_Inr)
    from stream_reader.read_bounds [OF r wf 1] have "p_wf p'" by simp
    from stream_reader.read_extend [OF r wf 1] stream_reader.read_extend [OF f this 2]
    show ?thesis by (auto simp: pbind_Inr)
  qed
  show "pbind r f (p_extend e p) = Inl err"
    if "pbind r f p = Inl err" "\<not> is_incomplete_error err"
  proof (cases "r p")
    case (Inl e')
    with that have "r p = Inl err" by (simp add: pbind_def)
    from stream_reader.error_extend [OF r wf this that(2)] show ?thesis by (simp add: pbind_def)
  next
    case (Inr xp)
    then obtain x p' where 1: "r p = Inr (x, p')" by (cases xp) auto
    with that have 2: "f x p' = Inl err" by (simp add: pbind_def)
    from stream_reader.read_bounds [OF r wf 1] have "p_wf p'" by simp
    from stream_reader.read_extend [OF r wf 1] stream_reader.error_extend [OF f this 2 that(2)]
    show ?thesis by (simp add: pbind_def)
  qed
  show "\<not> is_undefined err" if "pbind r f p = Inl err"
  proof (cases "r p")
    case (Inl e')
    with that have "r p = Inl err" by (simp add: pbind_def)
    from stream_reader.never_undefined [OF r wf this] show ?thesis .
  next
    case (Inr xp)
    then obtain x p' where 1: "r p = Inr (x, p')" by (cases xp) auto
    with that have 2: "f x p' = Inl err" by (simp add: pbind_def)
    from stream_reader.read_bounds [OF r wf 1] have "p_wf p'" by simp
    from stream_reader.never_undefined [OF f this 2] show ?thesis .
  qed
  assume n: "n \<le> p_idx p"
  show "pbind r f (p_shift n p) = Inr (y, p_shift n q)" if "pbind r f p = Inr (y, q)"
  proof -
    from that obtain x p' where 1: "r p = Inr (x, p')" and 2: "f x p' = Inr (y, q)"
      by (auto simp: pbind_Inr)
    from stream_reader.read_bounds [OF r wf 1] n have "p_wf p'" "n \<le> p_idx p'" by auto
    from stream_reader.read_shift [OF r wf n 1] stream_reader.read_shift [OF f this 2]
    show ?thesis by (auto simp: pbind_Inr)
  qed
  show "\<exists>err'. pbind r f (p_shift n p) = Inl err' \<and> same_class err err'"
    if "pbind r f p = Inl err"
  proof (cases "r p")
    case (Inl e')
    with that have "r p = Inl err" by (simp add: pbind_def)
    from stream_reader.error_shift [OF r wf n this] show ?thesis by (auto simp: pbind_def)
  next
    case (Inr xp)
    then obtain x p' where 1: "r p = Inr (x, p')" by (cases xp) auto
    with that have 2: "f x p' = Inl err" by (simp add: pbind_def)
    from stream_reader.read_bounds [OF r wf 1] n have "p_wf p'" "n \<le> p_idx p'" by auto
    from stream_reader.read_shift [OF r wf n 1] stream_reader.error_shift [OF f this 2]
    show ?thesis by (auto simp: pbind_def)
  qed
qed

lemma stream_reader_if [intro]:
  "stream_reader r \<Longrightarrow> stream_reader s \<Longrightarrow> stream_reader (if b then r else s)"
  by simp

lemma peek_char_ok:
  "p_wf p \<Longrightarrow> peek_char p = Inr c \<longleftrightarrow> p_idx p < length (p_data p) \<and> c = p_data p ! p_idx p"
  by (auto simp: peek_char_def p_wf_def)

lemma peek_char_err:
  "p_wf p \<Longrightarrow> peek_char p = Inl e \<Longrightarrow> is_incomplete_error e \<and> p_idx p = length (p_data p)"
  by (auto simp: peek_char_def p_wf_def split: if_splits)

lemma peek_char_end:
  "p_idx p = length (p_data p) \<Longrightarrow> \<exists>e. peek_char p = Inl e \<and> is_incomplete_error e"
  by (auto simp: peek_char_def)

lemma p_wf_extend [simp]: "p_wf p \<Longrightarrow> p_wf (p_extend e p)"
  by (simp add: p_wf_def p_extend_def)

lemma p_wf_shift [simp]: "p_wf p \<Longrightarrow> p_wf (p_shift n p)"
  by (simp add: p_wf_def p_shift_def)

lemma stream_reader_read_char [simp, intro]: "stream_reader read_char"
proof
  fix p q :: parser and x n e err
  assume wf: "p_wf p"
  show "p_wf q \<and> p_data q = p_data p \<and> p_idx p \<le> p_idx q" if "read_char p = Inr (x, q)"
    using that wf by (auto simp: read_char_def peek_char_ok p_wf_def split: sum.splits)
  show "read_char (p_extend e p) = Inr (x, p_extend e q)" if "read_char p = Inr (x, q)"
    using that wf
    by (auto simp: read_char_def peek_char_def p_extend_def p_wf_def nth_append
        split: sum.splits if_splits)
  show "read_char (p_extend e p) = Inl err"
    if "read_char p = Inl err" "\<not> is_incomplete_error err"
    using that peek_char_err [OF wf] by (auto simp: read_char_def split: sum.splits)
  show "\<not> is_undefined err" if "read_char p = Inl err"
    using that peek_char_err [OF wf] by (cases err) (auto simp: read_char_def split: sum.splits)
  assume n: "n \<le> p_idx p"
  show "read_char (p_shift n p) = Inr (x, p_shift n q)" if "read_char p = Inr (x, q)"
    using that wf n
    by (auto simp: read_char_def peek_char_def p_shift_def p_wf_def split: sum.splits if_splits)
  show "\<exists>err'. read_char (p_shift n p) = Inl err' \<and> same_class err err'"
    if "read_char p = Inl err"
  proof -
    from that have "peek_char p = Inl err" by (auto simp: read_char_def split: sum.splits)
    from peek_char_err [OF wf this] n have "is_incomplete_error err"
      "p_idx (p_shift n p) = length (p_data (p_shift n p))"
      by (auto simp: p_shift_def)
    with peek_char_end show ?thesis by (fastforce simp: read_char_def same_class_def)
  qed
qed

text \<open>
  \<open>read_digits\<close> in closed form: the longest run of digits ahead, provided some other
  character follows it.
\<close>

definition end_error :: "parser \<Rightarrow> exn" where
  "end_error p =
     (if p_data p = [] then Parse_Incomplete_Error ''fail reading from client''
      else Parse_Incomplete_Error ''incomplete command'')"

definition ahead :: "parser \<Rightarrow> string" where
  "ahead p = drop (p_idx p) (p_data p)"

lemma end_error_incomplete [simp]: "is_incomplete_error (end_error p)"
  by (simp add: end_error_def)

lemma peek_char_ahead:
  "p_wf p \<Longrightarrow> peek_char p = (case ahead p of [] \<Rightarrow> Inl (end_error p) | c # _ \<Rightarrow> Inr c)"
  by (auto simp: peek_char_def ahead_def p_wf_def end_error_def Cons_nth_drop_Suc [symmetric]
      split: list.splits)

lemma ahead_Cons_step:
  assumes "ahead p = c # cs"
  shows "ahead (p\<lparr>p_idx := p_idx p + 1\<rparr>) = cs" "p_wf (p\<lparr>p_idx := p_idx p + 1\<rparr>)"
proof -
  from assms have "p_idx p < length (p_data p)"
    by (metis ahead_def drop_all leI list.discI)
  then show "p_wf (p\<lparr>p_idx := p_idx p + 1\<rparr>)" by (simp add: p_wf_def)
  from assms show "ahead (p\<lparr>p_idx := p_idx p + 1\<rparr>) = cs"
    by (simp add: ahead_def) (metis drop_Suc list.sel(3) tl_drop)
qed

lemma read_digits_ahead:
  "p_wf p \<Longrightarrow> read_digits p =
     (if takeWhile is_digit (ahead p) = ahead p then Inl (end_error p)
      else Inr (takeWhile is_digit (ahead p),
                p\<lparr>p_idx := p_idx p + length (takeWhile is_digit (ahead p))\<rparr>))"
proof (induction p rule: read_digits.induct)
  case (1 p)
  show ?case
  proof (cases "ahead p")
    case Nil
    with 1 show ?thesis by (subst read_digits.simps) (simp add: peek_char_ahead)
  next
    case (Cons c cs)
    have pk: "peek_char p = Inr c" using Cons "1.prems" by (simp add: peek_char_ahead)
    show ?thesis
    proof (cases "is_digit c")
      case False
      with Cons pk show ?thesis by (subst read_digits.simps) simp
    next
      case True
      note step = ahead_Cons_step [OF Cons]
      from "1.IH" [OF pk True step(2)] step(1) True Cons pk show ?thesis
        by (subst read_digits.simps) (simp add: end_error_def)
    qed
  qed
qed

lemma ahead_extend [simp]: "p_wf p \<Longrightarrow> ahead (p_extend e p) = ahead p @ e"
  by (simp add: ahead_def p_extend_def p_wf_def)

lemma ahead_shift [simp]: "n \<le> p_idx p \<Longrightarrow> ahead (p_shift n p) = ahead p"
  by (simp add: ahead_def p_shift_def)

lemma takeWhile_append_neq:
  "takeWhile P xs \<noteq> xs \<Longrightarrow> takeWhile P (xs @ ys) = takeWhile P xs"
  by (metis takeWhile_append1 takeWhile_eq_all_conv)

lemma takeWhile_neq_append: "takeWhile P xs \<noteq> xs \<Longrightarrow> takeWhile P (xs @ ys) \<noteq> xs @ ys"
  by auto

lemma stream_reader_read_digits [simp, intro]: "stream_reader read_digits"
proof
  fix p q :: parser and x n e err
  assume wf: "p_wf p"
  let ?ds = "takeWhile is_digit (ahead p)"
  have len: "p_idx p + length ?ds \<le> length (p_data p)"
  proof -
    have "length ?ds \<le> length (ahead p)" by (rule length_takeWhile_le)
    with wf show ?thesis by (simp add: ahead_def p_wf_def)
  qed
  have inr: "?ds \<noteq> ahead p" "x = ?ds" "q = p\<lparr>p_idx := p_idx p + length ?ds\<rparr>"
    if "read_digits p = Inr (x, q)"
    using that read_digits_ahead [OF wf] by (auto split: if_splits)
  have inl: "is_incomplete_error err" "?ds = ahead p" if "read_digits p = Inl err"
    using that read_digits_ahead [OF wf] by (auto split: if_splits)
  show "p_wf q \<and> p_data q = p_data p \<and> p_idx p \<le> p_idx q" if "read_digits p = Inr (x, q)"
    using inr [OF that] len by (simp add: p_wf_def)
  show "read_digits (p_extend e p) = Inr (x, p_extend e q)" if "read_digits p = Inr (x, q)"
    using inr [OF that] wf takeWhile_neq_append [OF inr(1) [OF that], of e]
    by (simp add: read_digits_ahead takeWhile_append_neq del: takeWhile_eq_all_conv)
      (simp add: p_extend_def)
  show "read_digits (p_extend e p) = Inl err"
    if "read_digits p = Inl err" "\<not> is_incomplete_error err"
    using inl that by simp
  show "\<not> is_undefined err" if "read_digits p = Inl err"
    using inl [OF that] by (cases err) auto
  assume n: "n \<le> p_idx p"
  show "read_digits (p_shift n p) = Inr (x, p_shift n q)" if "read_digits p = Inr (x, q)"
    using inr [OF that] wf n
    by (simp add: read_digits_ahead del: takeWhile_eq_all_conv) (simp add: p_shift_def)
  show "\<exists>err'. read_digits (p_shift n p) = Inl err' \<and> same_class err err'"
    if "read_digits p = Inl err"
    using inl [OF that] wf n
    by (simp add: read_digits_ahead same_class_def del: takeWhile_eq_all_conv)
qed

lemma stream_reader_expect_char [simp, intro]: "stream_reader (expect_char ch msg)"
  unfolding expect_char_def by (intro stream_reader_bind) auto

lemma stream_reader_expect_separator [simp, intro]: "stream_reader expect_separator"
  unfolding expect_separator_def
  by (intro stream_reader_bind stream_reader_if stream_reader_return stream_reader_fail
      stream_reader_read_char) auto

lemma stream_reader_read_num_elem [simp, intro]: "stream_reader read_num_elem"
  unfolding read_num_elem_def
  by (intro stream_reader_bind stream_reader_read_digits) (auto split: sum.split)

lemma stream_reader_read_chars [simp, intro]: "stream_reader (read_chars n)"
  by (induction n) auto

lemma stream_reader_read_bulk_string [simp, intro]: "stream_reader read_bulk_string"
  unfolding read_bulk_string_def by (intro stream_reader_bind) auto

lemma stream_reader_read_command_type [simp, intro]: "stream_reader read_command_type"
  unfolding read_command_type_def by (intro stream_reader_bind) auto

lemma stream_reader_read_joined [simp, intro]: "stream_reader (read_joined n)"
  by (induction n) auto

lemma stream_reader_read_keys [simp, intro]: "stream_reader (read_keys n)"
  by (induction n) auto

lemma stream_reader_read_get [simp, intro]: "stream_reader (read_get_command n)"
  unfolding read_get_command_def by (intro stream_reader_if stream_reader_bind) auto

lemma stream_reader_read_set [simp, intro]: "stream_reader (read_set_command n)"
  unfolding read_set_command_def by (intro stream_reader_if stream_reader_bind) auto

lemma stream_reader_read_del [simp, intro]: "stream_reader (read_del_command n)"
  unfolding read_del_command_def by (intro stream_reader_if stream_reader_bind) auto

text \<open>Recording the start of the command does not change what the body reads.\<close>

lemma stream_reader_mark_start:
  assumes "stream_reader r"
  shows "stream_reader (\<lambda>p. r (p\<lparr>p_start_idx := p_idx p\<rparr>))"
proof
  fix p q :: parser and x n e err
  let ?m = "\<lambda>p. p\<lparr>p_start_idx := p_idx p\<rparr>"
  assume wf: "p_wf p"
  then have wfm: "p_wf (?m p)" by (simp add: p_wf_def)
  have ext: "?m (p_extend e p) = p_extend e (?m p)" by (simp add: p_extend_def)
  have shift: "?m (p_shift n p) = p_shift n (?m p)" by (simp add: p_shift_def)
  show "p_wf q \<and> p_data q = p_data p \<and> p_idx p \<le> p_idx q" if "r (?m p) = Inr (x, q)"
    using stream_reader.read_bounds [OF assms wfm that] by simp
  show "r (?m (p_extend e p)) = Inr (x, p_extend e q)" if "r (?m p) = Inr (x, q)"
    using stream_reader.read_extend [OF assms wfm that] ext by simp
  show "r (?m (p_extend e p)) = Inl err" if "r (?m p) = Inl err" "\<not> is_incomplete_error err"
    using stream_reader.error_extend [OF assms wfm that] ext by simp
  show "\<not> is_undefined err" if "r (?m p) = Inl err"
    using stream_reader.never_undefined [OF assms wfm that] .
  assume "n \<le> p_idx p"
  then have n: "n \<le> p_idx (?m p)" by simp
  show "r (?m (p_shift n p)) = Inr (x, p_shift n q)" if "r (?m p) = Inr (x, q)"
    using stream_reader.read_shift [OF assms wfm n that] shift by simp
  show "\<exists>err'. r (?m (p_shift n p)) = Inl err' \<and> same_class err err'" if "r (?m p) = Inl err"
    using stream_reader.error_shift [OF assms wfm n that] shift by simp
qed

lemma stream_reader_read_array_body [simp, intro]: "stream_reader read_array_body"
  unfolding read_array_body_def read_by_type_def
  by (intro stream_reader_bind stream_reader_if) auto

interpretation cmd: stream_reader read_command
  unfolding read_command_def by (intro stream_reader_mark_start stream_reader_bind) auto

section \<open>Reading back what a client writes\<close>

text \<open>
  The wire format: a RESP array of bulk strings. \<open>command_of_words\<close> is the command that the
  words of an array stand for; several words behind a GET, or behind the key of a SET, are
  one key or value with single blanks between the words.
\<close>

definition resp_bulk :: "string \<Rightarrow> string" where
  "resp_bulk s = ''$'' @ to_string (length s) @ separator @ s"

definition resp_items :: "string list \<Rightarrow> string" where
  "resp_items ws = concat (map (\<lambda>w. resp_bulk w @ separator) ws)"

definition resp_array :: "string list \<Rightarrow> string" where
  "resp_array ws = ''*'' @ to_string (length ws) @ separator @ resp_items ws"

definition resp_sized :: "string list \<Rightarrow> bool" where
  "resp_sized ws \<longleftrightarrow> length ws < 2 ^ 63 \<and> list_all (\<lambda>w. length w < 2 ^ 63) ws"

definition command_of_words :: "string list \<Rightarrow> command option" where
  "command_of_words ws =
     (case ws of
        name # k # rest \<Rightarrow>
          if name = ''GET'' then Some (new_get_command (join '' '' (k # rest)))
          else if name = ''SET'' \<and> rest \<noteq> [] then Some (new_set_command k (join '' '' rest))
          else if name = ''DEL'' then Some (new_del_command (k # rest))
          else None
      | _ \<Rightarrow> None)"

text \<open>\<open>reads r s x\<close>: wherever \<open>s\<close> lies ahead, \<open>r\<close> consumes exactly \<open>s\<close> and returns \<open>x\<close>.\<close>

definition reads :: "'a reader \<Rightarrow> string \<Rightarrow> 'a \<Rightarrow> bool" where
  "reads r s x \<longleftrightarrow>
     (\<forall>p rest. p_wf p \<longrightarrow> ahead p = s @ rest \<longrightarrow>
        r p = Inr (x, p\<lparr>p_idx := p_idx p + length s\<rparr>))"

named_theorems reads_intros

lemma readsI:
  "(\<And>p rest. p_wf p \<Longrightarrow> ahead p = s @ rest \<Longrightarrow> r p = Inr (x, p\<lparr>p_idx := p_idx p + length s\<rparr>))
   \<Longrightarrow> reads r s x"
  by (simp add: reads_def)

lemma ahead_advance:
  assumes "p_wf p" "ahead p = s @ rest"
  shows "ahead (p\<lparr>p_idx := p_idx p + length s\<rparr>) = rest" "p_wf (p\<lparr>p_idx := p_idx p + length s\<rparr>)"
proof -
  have "drop (length s) (drop (p_idx p) (p_data p)) = rest"
    using assms(2) by (simp add: ahead_def)
  then show "ahead (p\<lparr>p_idx := p_idx p + length s\<rparr>) = rest"
    by (simp add: ahead_def add.commute)
  have "length s \<le> length (ahead p)" using assms(2) by simp
  with assms(1) show "p_wf (p\<lparr>p_idx := p_idx p + length s\<rparr>)"
    by (simp add: ahead_def p_wf_def)
qed

lemma reads_return [reads_intros]: "reads (preturn x) [] x"
  by (rule readsI) (simp add: preturn_def)

lemma reads_bind [reads_intros]:
  assumes r: "reads r s x" and f: "reads (f x) t y"
  shows "reads (pbind r f) (s @ t) y"
proof (rule readsI)
  fix p rest assume wf: "p_wf p" and a: "ahead p = (s @ t) @ rest"
  then have a': "ahead p = s @ (t @ rest)" by simp
  let ?q = "p\<lparr>p_idx := p_idx p + length s\<rparr>"
  have "r p = Inr (x, ?q)" using r wf a' by (auto simp: reads_def)
  moreover have "f x ?q = Inr (y, ?q\<lparr>p_idx := p_idx ?q + length t\<rparr>)"
    using f ahead_advance [OF wf a'] by (auto simp: reads_def)
  ultimately show "pbind r f p = Inr (y, p\<lparr>p_idx := p_idx p + length (s @ t)\<rparr>)"
    by (simp add: pbind_def add.assoc)
qed

lemma reads_bind_return:
  assumes "reads r s x" "y = g x" shows "reads (pbind r (\<lambda>x. preturn (g x))) s y"
  using reads_bind [OF assms(1), of "\<lambda>x. preturn (g x)" "[]" y] assms(2)
  by (simp add: reads_return)

lemma reads_read_char [reads_intros]: "reads read_char [c] c"
  by (rule readsI) (simp add: read_char_def peek_char_ahead)

lemma reads_expect_char [reads_intros]: "reads (expect_char c msg) [c] ()"
  unfolding expect_char_def
  using reads_bind [OF reads_read_char, of "\<lambda>d. if d \<noteq> c then pfail _ else preturn ()" c "[]"]
  by (simp add: reads_return)

lemma reads_expect_separator [reads_intros]: "reads expect_separator separator ()"
proof -
  have "reads (pbind read_char (\<lambda>d. if d \<noteq> CHR 10 then pfail e else preturn ())) [CHR 10] ()" for e
    using reads_bind [OF reads_read_char, of _ "CHR 10" "[]" "()"] by (simp add: reads_return)
  then show ?thesis
    unfolding expect_separator_def separator_def
    using reads_bind [OF reads_read_char, of _ "CHR 13" "[CHR 10]" "()"] by simp
qed

lemma reads_read_chars [reads_intros]: "reads (read_chars (length s)) s s"
proof (induction s)
  case Nil
  then show ?case by (simp add: reads_return)
next
  case (Cons c s)
  have "reads (pbind read_char (\<lambda>c. pbind (read_chars (length s)) (\<lambda>s. preturn (c # s))))
          ([c] @ s) (c # s)"
    by (rule reads_bind, rule reads_read_char, rule reads_bind_return, rule Cons, rule refl)
  then show ?case by simp
qed

text \<open>A number is delimited by the separator behind it.\<close>

lemma reads_number:
  assumes n: "n < 2 ^ 63" and f: "reads (f n) t x"
  shows "reads (pbind read_num_elem (\<lambda>n. pbind expect_separator (\<lambda>_. f n)))
           (to_string n @ separator @ t) x"
proof (rule readsI)
  fix p rest assume wf: "p_wf p" and a: "ahead p = (to_string n @ separator @ t) @ rest"
  let ?s = "to_string n"
  let ?q = "p\<lparr>p_idx := p_idx p + length ?s\<rparr>"
  have a': "ahead p = ?s @ (separator @ t) @ rest" using a by simp
  have tw: "takeWhile is_digit (ahead p) = ?s"
    using to_string_digits [of n]
    by (simp add: a takeWhile_append2 separator_def is_digit_iff)
  have ne: "takeWhile is_digit (ahead p) \<noteq> ahead p"
    by (simp only: tw) (simp add: a separator_def)
  have "read_digits p = Inr (?s, ?q)"
    using read_digits_ahead [OF wf] ne tw by simp
  moreover have "stol ?s = Inr (int n)"
    using stol_digits [OF to_string_digits to_string_nonempty] n by simp
  moreover have "int n mod 2 ^ 64 = int n" using n by (simp add: zmod_int [symmetric])
  ultimately have "read_num_elem p = Inr (n, ?q)"
    by (simp add: read_num_elem_def pbind_def preturn_def)
  moreover have "pbind expect_separator (\<lambda>_. f n) ?q =
      Inr (x, ?q\<lparr>p_idx := p_idx ?q + length (separator @ t)\<rparr>)"
    using reads_bind [OF reads_expect_separator f] ahead_advance [OF wf a']
    by (auto simp: reads_def)
  ultimately show "pbind read_num_elem (\<lambda>n. pbind expect_separator (\<lambda>_. f n)) p =
      Inr (x, p\<lparr>p_idx := p_idx p + length (?s @ separator @ t)\<rparr>)"
    by (simp add: pbind_def add.assoc)
qed

lemma reads_bulk_string [reads_intros]:
  "length s < 2 ^ 63 \<Longrightarrow> reads read_bulk_string (resp_bulk s) s"
  unfolding read_bulk_string_def resp_bulk_def
  by (rule reads_bind, rule reads_expect_char, rule reads_number, assumption,
      rule reads_read_chars)

text \<open>A bulk string, its separator, and what follows.\<close>

lemma reads_item:
  assumes "length s < 2 ^ 63" "reads (f s) t x"
  shows "reads (pbind read_bulk_string (\<lambda>s. pbind expect_separator (\<lambda>_. f s)))
           (resp_bulk s @ separator @ t) x"
  by (rule reads_bind, rule reads_bulk_string, rule assms(1), rule reads_bind,
      rule reads_expect_separator, rule assms(2))

lemma resp_items_Cons: "resp_items (w # ws) = resp_bulk w @ separator @ resp_items ws"
  by (simp add: resp_items_def)

lemma resp_items_Nil [simp]: "resp_items [] = []"
  by (simp add: resp_items_def)

lemma reads_joined:
  "list_all (\<lambda>w. length w < 2 ^ 63) ws \<Longrightarrow>
   reads (read_joined (length ws)) (resp_items ws) (concat (map (\<lambda>w. '' '' @ w) ws))"
proof (induction ws)
  case Nil
  then show ?case by (simp add: reads_return)
next
  case (Cons w ws)
  then have IH: "reads (read_joined (length ws)) (resp_items ws) (concat (map (\<lambda>w. '' '' @ w) ws))"
    and w: "length w < 2 ^ 63" by auto
  show ?case
    unfolding list.size add_0_right add_Suc_right read_joined.simps resp_items_Cons
    by (rule reads_item, rule w, rule reads_bind_return, rule IH) simp
qed

lemma reads_keys:
  "list_all (\<lambda>w. length w < 2 ^ 63) ws \<Longrightarrow> reads (read_keys (length ws)) (resp_items ws) ws"
proof (induction ws)
  case Nil
  then show ?case by (simp add: reads_return)
next
  case (Cons w ws)
  then have IH: "reads (read_keys (length ws)) (resp_items ws) ws"
    and w: "length w < 2 ^ 63" by auto
  show ?case
    unfolding list.size add_0_right add_Suc_right read_keys.simps resp_items_Cons
    by (rule reads_item, rule w, rule reads_bind_return, rule IH) simp
qed

lemma join_blank: "join sep (w # ws) = w @ concat (map (\<lambda>w. sep @ w) ws)"
  by (induction ws arbitrary: w) auto

lemma reads_get_body:
  assumes "list_all (\<lambda>w. length w < 2 ^ 63) (k # ws)"
  shows "reads (read_get_command (length ws + 2)) (resp_items (k # ws))
           (new_get_command (join '' '' (k # ws)))"
proof -
  have "reads (pbind read_bulk_string (\<lambda>key. pbind expect_separator (\<lambda>_.
          pbind (read_joined (length ws)) (\<lambda>rest. preturn (new_get_command (key @ rest))))))
        (resp_items (k # ws)) (new_get_command (join '' '' (k # ws)))"
    unfolding resp_items_Cons
    by (rule reads_item, use assms in simp, rule reads_bind_return, rule reads_joined,
        use assms in simp, simp add: join_blank)
  then show ?thesis by (simp add: read_get_command_def)
qed

lemma reads_set_body:
  assumes "list_all (\<lambda>w. length w < 2 ^ 63) (k # v # ws)"
  shows "reads (read_set_command (length ws + 3)) (resp_items (k # v # ws))
           (new_set_command k (join '' '' (v # ws)))"
proof -
  have "reads (pbind read_bulk_string (\<lambda>key. pbind expect_separator (\<lambda>_.
          pbind read_bulk_string (\<lambda>value. pbind expect_separator (\<lambda>_.
          pbind (read_joined (length ws))
            (\<lambda>rest. preturn (new_set_command key (value @ rest))))))))
        (resp_items (k # v # ws)) (new_set_command k (join '' '' (v # ws)))"
    unfolding resp_items_Cons
    by (rule reads_item, use assms in simp, rule reads_item, use assms in simp,
        rule reads_bind_return, rule reads_joined, use assms in simp, simp add: join_blank)
  then show ?thesis by (simp add: read_set_command_def)
qed

lemma reads_del_body:
  assumes "list_all (\<lambda>w. length w < 2 ^ 63) (k # ws)"
  shows "reads (read_del_command (length ws + 2)) (resp_items (k # ws)) (new_del_command (k # ws))"
proof -
  have "reads (pbind read_bulk_string (\<lambda>key. pbind expect_separator (\<lambda>_.
          pbind (read_keys (length ws)) (\<lambda>keys. preturn (new_del_command (key # keys))))))
        (resp_items (k # ws)) (new_del_command (k # ws))"
    unfolding resp_items_Cons
    by (rule reads_item, use assms in simp, rule reads_bind_return, rule reads_keys,
        use assms in simp, simp)
  then show ?thesis by (simp add: read_del_command_def)
qed

lemma reads_command_type:
  assumes "name = ''GET'' \<and> t = CMD_GET \<or> name = ''SET'' \<and> t = CMD_SET \<or> name = ''DEL'' \<and> t = CMD_DEL"
  shows "reads read_command_type (resp_bulk name) t"
proof -
  have len: "length name < 2 ^ 63" using assms by auto
  have "reads read_command_type (resp_bulk name @ []) t"
    unfolding read_command_type_def
    by (rule reads_bind, rule reads_bulk_string, rule len) (use assms in \<open>auto intro: reads_return\<close>)
  then show ?thesis by simp
qed

lemma reads_by_type:
  assumes sized: "resp_sized ws" and c: "command_of_words ws = Some c"
  shows "\<exists>t. reads read_command_type (resp_bulk (hd ws)) t
           \<and> reads (read_by_type t (length ws)) (resp_items (tl ws)) c"
proof -
  obtain name k rest where ws: "ws = name # k # rest"
    using c by (auto simp: command_of_words_def split: list.splits)
  from sized have l: "list_all (\<lambda>w. length w < 2 ^ 63) (k # rest)"
    by (simp add: resp_sized_def ws)
  consider (get) "name = ''GET''" "c = new_get_command (join '' '' (k # rest))"
    | (set) v vs where "name = ''SET''" "rest = v # vs" "c = new_set_command k (join '' '' (v # vs))"
    | (del) "name = ''DEL''" "c = new_del_command (k # rest)"
    using c by (auto simp: command_of_words_def ws neq_Nil_conv split: if_splits)
  then show ?thesis
  proof cases
    case get
    then show ?thesis
      using reads_command_type [of name CMD_GET] reads_get_body [OF l]
      by (intro exI [of _ CMD_GET]) (simp add: ws read_by_type_def)
  next
    case set
    then show ?thesis
      using reads_command_type [of name CMD_SET] reads_set_body [of k v vs] l
      by (intro exI [of _ CMD_SET]) (simp add: ws cmd_tags numeral_3_eq_3 read_by_type_def)
  next
    case del
    then show ?thesis
      using reads_command_type [of name CMD_DEL] reads_del_body [OF l]
      by (intro exI [of _ CMD_DEL]) (simp add: ws cmd_tags read_by_type_def)
  qed
qed

lemma read_command_resp_array:
  assumes "resp_sized ws" "command_of_words ws = Some c" "p_wf p"
    and ahead: "ahead p = resp_array ws @ rest"
  shows "read_command p = Inr (c, p\<lparr>p_start_idx := p_idx p,
           p_idx := p_idx p + length (resp_array ws)\<rparr>)"
proof -
  obtain t where t: "reads read_command_type (resp_bulk (hd ws)) t"
    and c: "reads (read_by_type t (length ws)) (resp_items (tl ws)) c"
    using reads_by_type [OF assms(1,2)] by blast
  have ws: "ws \<noteq> []" using assms(2) by (auto simp: command_of_words_def)
  have n: "length ws < 2 ^ 63" using assms(1) by (simp add: resp_sized_def)
  have split: "resp_array ws = [CHR ''*''] @ to_string (length ws) @ separator @
      resp_bulk (hd ws) @ separator @ resp_items (tl ws)"
    using ws by (cases ws) (simp_all add: resp_array_def resp_items_Cons)
  have "reads (pbind (expect_char (CHR ''*'') ''mismatching char'') (\<lambda>_. read_array_body))
     (resp_array ws) c"
    unfolding split read_array_body_def
    by (rule reads_bind, rule reads_expect_char, rule reads_number, rule n, rule reads_bind,
        rule t, rule reads_bind, rule reads_expect_separator, rule c)
  moreover have "p_wf (p\<lparr>p_start_idx := p_idx p\<rparr>)" "ahead (p\<lparr>p_start_idx := p_idx p\<rparr>) =
      resp_array ws @ rest"
    using assms(3) ahead by (simp_all add: p_wf_def ahead_def)
  ultimately show ?thesis by (auto simp: reads_def read_command_def)
qed

text \<open>Every command takes at least the byte that opens it.\<close>

lemma expect_char_progress:
  assumes "expect_char ch msg p = Inr (x, q)"
  shows "p_idx q = p_idx p + 1"
  using assms
  by (auto simp: expect_char_def read_char_def pbind_def pfail_def preturn_def
      split: sum.splits if_splits)

lemma read_command_progress:
  assumes "p_wf p" "read_command p = Inr (c, q)"
  shows "p_idx p < p_idx q"
proof -
  let ?m = "p\<lparr>p_start_idx := p_idx p\<rparr>"
  from assms(2) obtain p' where 1: "expect_char (CHR ''*'') ''mismatching char'' ?m = Inr ((), p')"
    and 2: "read_array_body p' = Inr (c, q)"
    by (auto simp: read_command_def pbind_Inr)
  have "p_wf ?m" using assms(1) by (simp add: p_wf_def)
  then have "p_wf p'"
    using stream_reader.read_bounds [OF stream_reader_expect_char _ 1] by simp
  then show ?thesis
    using expect_char_progress [OF 1]
      stream_reader.read_bounds [OF stream_reader_read_array_body _ 2] by simp
qed

lemma new_parser_ahead: "p_wf (new_parser d)" "ahead (new_parser d) = d"
  by (simp_all add: new_parser_def p_wf_def ahead_def)

lemma read_command_new_parser:
  assumes "resp_sized ws" "command_of_words ws = Some c"
  shows "read_command (new_parser (resp_array ws @ rest)) =
           Inr (c, \<lparr>p_data = resp_array ws @ rest, p_idx = length (resp_array ws), p_start_idx = 0\<rparr>)"
  using read_command_resp_array [OF assms new_parser_ahead, of rest]
  by (simp add: new_parser_def)

text \<open>The SET reader accepts an array of two elements and goes on to read a value.\<close>

lemma reads_short_set:
  assumes "length k < 2 ^ 63" "length v < 2 ^ 63"
  shows "reads (read_set_command 2) (resp_bulk k @ separator @ resp_bulk v @ separator @ [])
           (new_set_command k v)"
  unfolding read_set_command_def
  by (simp only: if_False less_irrefl, rule reads_item, rule assms(1), rule reads_item,
      rule assms(2)) (simp add: pbind_def reads_def preturn_def)

section \<open>Properties\<close>

text \<open>C17: a request that a client writes as a RESP array of bulk strings is read as the
  command its words stand for, whatever follows it in the buffer, and the parser stops right
  behind it.\<close>

theorem request_roundtrip:
  assumes "resp_sized ws" "command_of_words ws = Some c"
  shows "read_command (new_parser (resp_array ws @ rest)) =
           Inr (c, \<lparr>p_data = resp_array ws @ rest, p_idx = length (resp_array ws), p_start_idx = 0\<rparr>)"
  by (rule read_command_new_parser [OF assms])

theorem request_roundtrip_witness:
  "read_command (new_parser (resp_array [''SET'', ''CS06142'', ''Cloud'', ''Computing''] @ ''*3'')) =
     Inr (Set_Command 0 ''CS06142'' ''Cloud Computing'',
       \<lparr>p_data = resp_array [''SET'', ''CS06142'', ''Cloud'', ''Computing''] @ ''*3'',
        p_idx = length (resp_array [''SET'', ''CS06142'', ''Cloud'', ''Computing'']), p_start_idx = 0\<rparr>)"
  by (rule request_roundtrip)
    (simp_all add: resp_sized_def command_of_words_def new_set_command_def)

text \<open>C18: any proper prefix of such a request is refused with the incomplete error, never with
  a syntax error: a request that arrives in pieces is not taken for a broken one.\<close>

theorem truncated_request_incomplete:
  assumes "resp_sized ws" "command_of_words ws = Some c" "k < length (resp_array ws)"
  shows "\<exists>e. read_command (new_parser (take k (resp_array ws))) = Inl e \<and> is_incomplete_error e"
proof -
  have "read_command (new_parser (resp_array ws)) =
      Inr (c, \<lparr>p_data = resp_array ws, p_idx = length (resp_array ws), p_start_idx = 0\<rparr>)"
    using read_command_new_parser [OF assms(1,2), of "[]"] by simp
  from cmd.truncated_incomplete [OF new_parser_ahead(1) this, of k] assms(3)
  show ?thesis by (simp add: new_parser_def p_truncate_def)
qed

theorem truncated_request_incomplete_witness:
  "\<exists>e. read_command (new_parser (take 1 (resp_array [''GET'', ''CS06142'']))) = Inl e
     \<and> is_incomplete_error e"
  by (rule truncated_request_incomplete [where c = "Get_Command ''CS06142''"])
    (simp_all add: resp_sized_def command_of_words_def new_get_command_def resp_array_def
      separator_def)

text \<open>C19: on every buffer the parser either returns a command, having consumed at least one
  byte and at most the buffer and left the buffer as it was, or throws; it never reads
  outside the buffer.\<close>

theorem read_command_in_bounds:
  "case read_command (new_parser d) of
     Inl e \<Rightarrow> \<not> is_undefined e
   | Inr (c, q) \<Rightarrow> 0 < bytes_parsed q \<and> bytes_parsed q \<le> length d \<and> p_data q = d"
proof (cases "read_command (new_parser d)")
  case (Inl e)
  with cmd.never_undefined [OF new_parser_ahead(1) Inl] show ?thesis by simp
next
  case (Inr cq)
  obtain c q where cq: "cq = (c, q)" by fastforce
  from cmd.read_bounds [OF new_parser_ahead(1) Inr [unfolded cq]]
    read_command_progress [OF new_parser_ahead(1) Inr [unfolded cq]] Inr
  show ?thesis by (auto simp: cq bytes_parsed_def new_parser_def p_wf_def)
qed

text \<open>A SET with a key and no value is not refused: the guard lets an array of two
  elements pass, and the bulk string that comes next in the stream, which belongs to
  whatever the client sends afterwards, is taken for the value.\<close>

theorem set_without_value_takes_next_string:
  assumes "length k < 2 ^ 63" "length v < 2 ^ 63"
  shows "\<exists>q. read_command (new_parser (resp_array [''SET'', k] @ resp_bulk v @ separator @ rest)) =
               Inr (Set_Command 0 k v, q)
           \<and> bytes_parsed q = length (resp_array [''SET'', k]) + length (resp_bulk v @ separator)"
proof -
  let ?s = "[CHR ''*''] @ to_string 2 @ separator @ resp_bulk ''SET'' @ separator @
    resp_bulk k @ separator @ resp_bulk v @ separator @ []"
  have t: "reads read_command_type (resp_bulk ''SET'') CMD_SET"
    by (rule reads_command_type) simp
  have b: "reads (read_by_type CMD_SET 2) (resp_bulk k @ separator @ resp_bulk v @ separator @ [])
      (new_set_command k v)"
    using reads_short_set [OF assms] by (simp add: read_by_type_def cmd_tags)
  have "reads (pbind (expect_char (CHR ''*'') ''mismatching char'') (\<lambda>_. read_array_body)) ?s
      (new_set_command k v)"
    unfolding read_array_body_def
    by (rule reads_bind, rule reads_expect_char, rule reads_number, simp, rule reads_bind,
        rule t, rule reads_bind, rule reads_expect_separator, rule b)
  moreover have s: "resp_array [''SET'', k] @ resp_bulk v @ separator @ rest = ?s @ rest"
    by (simp add: resp_array_def resp_items_Cons numeral_2_eq_2)
  ultimately have "read_command (new_parser (?s @ rest)) =
      Inr (new_set_command k v, (new_parser (?s @ rest))\<lparr>p_idx := length ?s\<rparr>)"
    using new_parser_ahead [of "?s @ rest"]
    by (simp add: reads_def read_command_def new_parser_def)
  then show ?thesis
    unfolding s
    by (simp add: new_set_command_def bytes_parsed_def new_parser_def resp_array_def
        resp_items_Cons numeral_2_eq_2)
qed

theorem set_without_value_takes_next_string_witness:
  "\<exists>q. read_command (new_parser (resp_array [''SET'', ''CS06142''] @ resp_bulk ''GET'' @ separator @ []))
       = Inr (Set_Command 0 ''CS06142'' ''GET'', q)
     \<and> bytes_parsed q = length (resp_array [''SET'', ''CS06142'']) + length (resp_bulk ''GET'' @ separator)"
  by (rule set_without_value_takes_next_string) simp_all

section \<open>Moving a parser\<close>

text \<open>
  A parser that is moved from keeps its indices. The move assignment swaps the two parsers with
  \<^verbatim>\<open>std::swap\<close>, which itself moves one into a temporary and assigns twice; \<open>same\<close>: both are one object.
  The result is the two objects afterwards, or \<open>None\<close> when the call does not return.
\<close>

definition move_parser :: "parser \<Rightarrow> parser \<times> parser" where
  "move_parser p = (p, p\<lparr>p_data := []\<rparr>)"

partial_function (option) assign_parser :: "bool \<Rightarrow> parser \<Rightarrow> parser \<Rightarrow> (parser \<times> parser) option" where
  "assign_parser same this other =
     (if same then Some (this, other)
      else let (tmp, this1) = move_parser this
           in Option.bind (assign_parser False this1 other) (\<lambda>(this2, other1).
                Option.bind (assign_parser False other1 tmp) (\<lambda>(other2, tmp1).
                  Some (this2, other2))))"

text \<open>Assigning to another parser never returns. The sources only construct parsers.\<close>

lemma assign_parser_never_returns: "assign_parser False p q = None"
proof -
  have never: "same" if "assign_parser same p q = Some x" for same x
  proof (rule assign_parser.raw_induct [where P = "\<lambda>same p q x. same", OF _ that])
    fix assign same p q x
    assume 1: "\<And>same p q x. assign same p q = Some x \<Longrightarrow> same"
      "(if same then Some (p, q)
        else let (tmp, this1) = move_parser p
             in Option.bind (assign False this1 q) (\<lambda>(this2, other1).
                  Option.bind (assign False other1 tmp) (\<lambda>(other2, tmp1). Some (this2, other2)))) = Some x"
    show "same"
    proof (rule ccontr)
      assume "\<not> same"
      then obtain y where "assign False (snd (move_parser p)) q = Some y"
        using 1(2) by (auto simp: move_parser_def bind_eq_Some_conv)
      from 1(1) [OF this] show False .
    qed
  qed
  show ?thesis using never [of False] by (cases "assign_parser False p q") blast+
qed

end
