(* ===== verification/Record_Log.thy ===== *)
theory Record_Log
  imports Commands
begin

text \<open>
  The write-ahead log of \<^verbatim>\<open>Lab3/src/record.hpp\<close> and \<^verbatim>\<open>record.cpp\<close>: the nine-byte
  record and its little-endian encoding, and the \<^verbatim>\<open>record_manager\<close> that appends to two
  files, keeps the unfinished records in memory and reads the log back when it is
  constructed. Streams are taken to succeed, as the code never looks at their state; the
  model keeps the contents of the two files.
\<close>

unbundle bit_operations_syntax

section \<open>Records and their binary format\<close>

definition RECORD_UNRESOLVED :: u8 where "RECORD_UNRESOLVED = 0"
definition RECORD_COMMIT :: u8 where "RECORD_COMMIT = 1"
definition RECORD_ABORT :: u8 where "RECORD_ABORT = 2"
definition RECORD_COMMIT_DONE :: u8 where "RECORD_COMMIT_DONE = 3"
definition RECORD_ABORT_DONE :: u8 where "RECORD_ABORT_DONE = 4"
definition RECORD_PREPARED :: u8 where "RECORD_PREPARED = 5"

lemmas record_statuses = RECORD_UNRESOLVED_def RECORD_COMMIT_def RECORD_ABORT_def
  RECORD_COMMIT_DONE_def RECORD_ABORT_DONE_def RECORD_PREPARED_def

record log_record =
  r_status :: u8
  r_id :: u32
  r_next_id :: u32

definition make_record :: "u8 \<Rightarrow> u32 \<Rightarrow> u32 \<Rightarrow> log_record" where
  "make_record s i n = \<lparr>r_status = s, r_id = i, r_next_id = n\<rparr>"

definition record_size :: nat where
  "record_size = 9"

definition encode_uint32_t :: "bytes \<Rightarrow> u32 \<Rightarrow> bytes" where
  "encode_uint32_t binary val =
     binary @ [ucast (val AND 0xFF), ucast (drop_bit 8 val AND 0xFF),
               ucast (drop_bit 16 val AND 0xFF), ucast (drop_bit 24 val AND 0xFF)]"

definition encode_uint8_t :: "bytes \<Rightarrow> u8 \<Rightarrow> bytes" where
  "encode_uint8_t binary val = binary @ [val AND 0xFF]"

text \<open>
  The decoders take the buffer and the index and return the value with the advanced
  index. \<^verbatim>\<open>decode_uint8_t\<close> checks \<^verbatim>\<open>idx > size\<close>, so at \<^verbatim>\<open>idx == size\<close> it reads one past
  the end.
\<close>

definition decode_uint8_t :: "bytes \<Rightarrow> nat \<Rightarrow> (u8 \<times> nat) result" where
  "decode_uint8_t binary idx =
     (if idx > length binary then Inl (Log_Error ''not enough bytes'')
      else if idx = length binary then Inl (Undefined ''binary[idx] out of range'')
      else Inr (0 OR binary ! idx, idx + 1))"

definition decode_uint32_t :: "bytes \<Rightarrow> nat \<Rightarrow> (u32 \<times> nat) result" where
  "decode_uint32_t binary idx =
     (if idx + 4 > length binary then Inl (Log_Error ''not enough bytes'')
      else Inr (0 OR ucast (binary ! idx) OR push_bit 8 (ucast (binary ! (idx + 1)))
                OR push_bit 16 (ucast (binary ! (idx + 2)))
                OR push_bit 24 (ucast (binary ! (idx + 3))), idx + 4))"

definition to_binary :: "log_record \<Rightarrow> bytes" where
  "to_binary r =
     encode_uint32_t (encode_uint32_t (encode_uint8_t [] (r_status r)) (r_id r)) (r_next_id r)"

definition parse_record :: "bytes \<Rightarrow> log_record result" where
  "parse_record binary =
     res_bind (decode_uint8_t binary 0) (\<lambda>(status, idx1).
     res_bind (decode_uint32_t binary idx1) (\<lambda>(i, idx2).
     res_bind (decode_uint32_t binary idx2) (\<lambda>(n, idx3).
     Inr (make_record status i n))))"

section \<open>The record manager\<close>

record record_manager =
  rm_file :: bytes
  rm_cmd_file :: bytes
  rm_next_id :: u32
  rm_records :: "(u32, log_record) omap"
  rm_cmds :: "(u32, command) omap"

definition is_done_status :: "u8 \<Rightarrow> bool" where
  "is_done_status s \<longleftrightarrow> s = RECORD_ABORT_DONE \<or> s = RECORD_COMMIT_DONE"

text \<open>
  \<^verbatim>\<open>log(const record &)\<close>: append and flush; a DONE record leaves the table, and when that
  empties it both files are truncated and the record is written again.
\<close>

definition rm_log :: "log_record \<Rightarrow> record_manager \<Rightarrow> record_manager" where
  "rm_log r m =
     (let binary = to_binary r;
          m1 = m\<lparr>rm_file := rm_file m @ binary\<rparr>
      in if is_done_status (r_status r)
         then let recs = om_erase (r_id r) (rm_records m1);
                  m2 = m1\<lparr>rm_records := recs\<rparr>
              in if recs = [] then m2\<lparr>rm_file := [] @ binary, rm_cmd_file := []\<rparr> else m2
         else m1\<lparr>rm_records := om_put (r_id r) r (rm_records m1)\<rparr>)"

definition string_bytes :: "string \<Rightarrow> bytes" where
  "string_bytes s = map of_char s"

definition bytes_string :: "bytes \<Rightarrow> string" where
  "bytes_string bs = map (\<lambda>b. char_of (unat b)) bs"

fun encode_args :: "bytes \<Rightarrow> string list \<Rightarrow> bytes" where
  "encode_args binary [] = binary"
| "encode_args binary (arg # rest) =
     encode_args (encode_uint32_t binary (word_of_nat (length arg)) @ string_bytes arg) rest"

text \<open>\<^verbatim>\<open>log(const command *)\<close>: a null pointer is \<open>None\<close>.\<close>

fun encode_command :: "command option \<Rightarrow> bytes result" where
  "encode_command None = Inl (Log_Error ''cmd is nullptr'')"
| "encode_command (Some (Set_Command i k v)) =
     Inr (encode_uint32_t (encode_uint32_t (encode_uint8_t [] CMD_SET) (word_of_nat (length k))
            @ string_bytes k) (word_of_nat (length v)) @ string_bytes v)"
| "encode_command (Some (Del_Command i ks)) = Inr (encode_args (encode_uint8_t [] CMD_DEL) ks)"
| "encode_command (Some (Get_Command k)) = Inl (Log_Error ''encoding non SET/DEL command'')"

definition rm_log_command :: "command option \<Rightarrow> record_manager \<Rightarrow> record_manager result" where
  "rm_log_command c m =
     res_bind (encode_command c) (\<lambda>binary. Inr (m\<lparr>rm_cmd_file := rm_cmd_file m @ binary\<rparr>))"

subsection \<open>Reading the log back\<close>

text \<open>Reading a stream from its position to the end leaves the position at the end.\<close>

definition read_stream :: "bytes \<Rightarrow> nat \<Rightarrow> bytes \<times> nat" where
  "read_stream file pos = (drop pos file, max pos (length file))"

definition absorb_record :: "log_record \<Rightarrow> record_manager \<Rightarrow> record_manager" where
  "absorb_record r m =
     m\<lparr>rm_next_id := r_next_id r,
       rm_records := (if is_done_status (r_status r) then om_erase (r_id r) (rm_records m)
                      else om_put (r_id r) r (rm_records m))\<rparr>"

function init_records_loop :: "bytes \<Rightarrow> nat \<Rightarrow> record_manager \<Rightarrow> record_manager result" where
  "init_records_loop dat start m =
     (if start < length dat
      then if start + record_size \<le> length dat
           then (case parse_record (take record_size (drop start dat)) of
                   Inl e \<Rightarrow> Inl e
                 | Inr r \<Rightarrow> init_records_loop dat (start + record_size) (absorb_record r m))
           else Inl (Undefined ''data.begin() + start + record_size past the end'')
      else Inr m)"
  by pat_completeness auto
termination
  by (relation "measure (\<lambda>(dat, start, m). length dat - start)") (auto simp: record_size_def)

declare init_records_loop.simps [simp del]

definition take_string :: "bytes \<Rightarrow> nat \<Rightarrow> (string \<times> nat) result" where
  "take_string dat start =
     res_bind (decode_uint32_t dat start) (\<lambda>(n, idx).
       if idx + unat n \<le> length dat
       then Inr (bytes_string (take (unat n) (drop idx dat)), idx + unat n)
       else Inl (Undefined ''string range past the end''))"

fun take_args :: "nat \<Rightarrow> bytes \<Rightarrow> nat \<Rightarrow> (string list \<times> nat) result" where
  "take_args 0 dat start = Inr ([], start)"
| "take_args (Suc n) dat start =
     res_bind (take_string dat start) (\<lambda>(arg, idx).
     res_bind (take_args n dat idx) (\<lambda>(rest, idx'). Inr (arg # rest, idx')))"

text \<open>
  The decoder of the command file. The vector of a DEL is created with \<^verbatim>\<open>num_args\<close> empty
  strings before the arguments are pushed behind them.
\<close>

definition decode_command :: "bytes \<Rightarrow> nat \<Rightarrow> (command \<times> nat) result" where
  "decode_command dat start =
     res_bind (decode_uint8_t dat start) (\<lambda>(type, idx1).
       if type = CMD_SET then
         res_bind (decode_uint32_t dat idx1) (\<lambda>(i, idx2).
         res_bind (take_string dat idx2) (\<lambda>(key, idx3).
         res_bind (take_string dat idx3) (\<lambda>(value, idx4).
         Inr (set_id i (new_set_command key value), idx4))))
       else if type = CMD_DEL then
         res_bind (decode_uint32_t dat idx1) (\<lambda>(i, idx2).
         res_bind (decode_uint32_t dat idx2) (\<lambda>(num_args, idx3).
         res_bind (take_args (unat num_args) dat idx3) (\<lambda>(pushed, idx4).
         Inr (set_id i (new_del_command (replicate (unat num_args) [] @ pushed)), idx4))))
       else Inl (Log_Error ''unexpected command type''))"

lemma decode_uint8_t_advances: "decode_uint8_t d i = Inr (x, j) \<Longrightarrow> i < j"
  by (auto simp: decode_uint8_t_def split: if_splits)

lemma decode_uint32_t_advances: "decode_uint32_t d i = Inr (x, j) \<Longrightarrow> i < j"
  by (auto simp: decode_uint32_t_def split: if_splits)

lemma take_string_advances: "take_string d i = Inr (x, j) \<Longrightarrow> i < j"
  by (auto simp: take_string_def split: if_splits dest!: decode_uint32_t_advances)

lemma take_args_advances: "take_args n d i = Inr (x, j) \<Longrightarrow> i \<le> j"
  by (induction n arbitrary: i x j) (fastforce dest!: take_string_advances)+

lemma decode_command_advances: "decode_command d i = Inr (c, j) \<Longrightarrow> i < j"
  unfolding decode_command_def
  by (auto split: if_splits dest!: decode_uint8_t_advances decode_uint32_t_advances
      take_string_advances take_args_advances)

function init_cmds_loop :: "bytes \<Rightarrow> nat \<Rightarrow> record_manager \<Rightarrow> record_manager result" where
  "init_cmds_loop dat start m =
     (if start < length dat
      then (case decode_command dat start of
              Inl e \<Rightarrow> Inl e
            | Inr (c, start') \<Rightarrow>
                init_cmds_loop dat start'
                  (if map_of (rm_records m) (cmd_id c) \<noteq> None
                   then m\<lparr>rm_cmds := om_put (cmd_id c) c (rm_cmds m)\<rparr> else m))
      else Inr m)"
  by pat_completeness auto
termination
  by (relation "measure (\<lambda>(dat, start, m). length dat - start)")
    (auto dest!: decode_command_advances)

declare init_cmds_loop.simps [simp del]

text \<open>
  \<^verbatim>\<open>init_records\<close>: both reads are from \<^verbatim>\<open>file_\<close>, the second one after the first has
  reached its end. \<open>open_log\<close> is the constructor on the two files found on disk.
\<close>

definition init_records :: "record_manager \<Rightarrow> record_manager result" where
  "init_records m =
     (let (dat, pos) = read_stream (rm_file m) 0 in
      res_bind (init_records_loop dat 0 m) (\<lambda>m1.
        (let (cmd_data, pos') = read_stream (rm_file m) pos in
         init_cmds_loop cmd_data 0 m1)))"

definition open_log :: "bytes \<Rightarrow> bytes \<Rightarrow> record_manager result" where
  "open_log file cmd_file =
     init_records \<lparr>rm_file = file, rm_cmd_file = cmd_file, rm_next_id = 0,
                   rm_records = [], rm_cmds = []\<rparr>"

section \<open>The binary format reads back\<close>

lemma low_byte_u32: "(ucast (ucast (x AND 0xFF :: u32) :: u8) :: u32) = take_bit 8 x"
proof -
  have m: "(0xFF :: u32) = mask 8" by (simp add: mask_eq_exp_minus_1)
  show ?thesis unfolding m by (rule bit_word_eqI) (auto simp: bit_simps)
qed

lemma four_bytes_u32:
  "take_bit 8 v OR push_bit 8 (take_bit 8 (drop_bit 8 v))
     OR push_bit 16 (take_bit 8 (drop_bit 16 v)) OR push_bit 24 (take_bit 8 (drop_bit 24 v))
   = (v :: u32)" (is "?bytes = v")
proof (rule bit_word_eqI)
  fix n assume n: "n < LENGTH(32)"
  then consider "n < 8" | "8 \<le> n" "n < 16" | "16 \<le> n" "n < 24" | "24 \<le> n" "n < 32"
    by force
  then show "bit ?bytes n = bit v n" using n by cases (auto simp: bit_simps)
qed

lemma decode_encode_u32:
  fixes val :: u32
  shows "0 OR ucast (ucast (val AND 0xFF) :: u8)
      OR push_bit 8 (ucast (ucast (drop_bit 8 val AND 0xFF) :: u8))
      OR push_bit 16 (ucast (ucast (drop_bit 16 val AND 0xFF) :: u8))
      OR push_bit 24 (ucast (ucast (drop_bit 24 val AND 0xFF) :: u8)) = val"
  unfolding low_byte_u32 by (simp add: four_bytes_u32 or.assoc)

lemma length_encode_uint32_t [simp]: "length (encode_uint32_t b v) = length b + 4"
  by (simp add: encode_uint32_t_def)

lemma length_encode_uint8_t [simp]: "length (encode_uint8_t b v) = length b + 1"
  by (simp add: encode_uint8_t_def)

lemma u8_and_FF [simp]: "(v :: u8) AND 0xFF = v"
proof -
  have "(0xFF :: u8) = -1" by simp
  then show ?thesis by (metis and.right_neutral)
qed

lemma decode_uint8_t_at [simp]:
  "i = length pre \<Longrightarrow> decode_uint8_t (pre @ v # rest) i = Inr (v, i + 1)"
  by (simp add: decode_uint8_t_def)

lemma decode_uint32_t_at:
  "i = length pre \<Longrightarrow> decode_uint32_t (encode_uint32_t pre v @ rest) i = Inr (v, i + 4)"
  using decode_encode_u32 [of v]
  by (simp add: decode_uint32_t_def encode_uint32_t_def nth_append)

lemma length_to_binary [simp]: "length (to_binary r) = record_size"
  by (simp add: to_binary_def record_size_def)

lemma parse_to_binary [simp]: "parse_record (to_binary r) = Inr r"
proof -
  let ?b1 = "encode_uint8_t [] (r_status r)"
  let ?b2 = "encode_uint32_t ?b1 (r_id r)"
  have e: "encode_uint32_t ?b2 n = ?b2 @ encode_uint32_t [] n" for n
    by (simp add: encode_uint32_t_def)
  have "decode_uint8_t (to_binary r) 0 = Inr (r_status r, 1)"
    by (simp add: to_binary_def encode_uint32_t_def encode_uint8_t_def decode_uint8_t_def)
  moreover have "decode_uint32_t (to_binary r) 1 = Inr (r_id r, 5)"
    unfolding to_binary_def e using decode_uint32_t_at [of 1 ?b1 "r_id r"] by simp
  moreover have "decode_uint32_t (to_binary r) 5 = Inr (r_next_id r, 9)"
    unfolding to_binary_def using decode_uint32_t_at [of 5 ?b2 "r_next_id r" "[]"] by simp
  ultimately show ?thesis by (simp add: parse_record_def make_record_def)
qed

section \<open>The log determines the table\<close>

definition log_bytes :: "log_record list \<Rightarrow> bytes" where
  "log_bytes rs = concat (map to_binary rs)"

lemma length_log_bytes: "length (log_bytes rs) = record_size * length rs"
  by (induction rs) (auto simp: log_bytes_def)

lemma init_records_loop_log_bytes:
  "start = length pre \<Longrightarrow>
   init_records_loop (pre @ log_bytes rs) start m = Inr (fold absorb_record rs m)"
proof (induction rs arbitrary: start pre m)
  case Nil
  then show ?case by (subst init_records_loop.simps) (simp add: log_bytes_def)
next
  case (Cons r rs)
  have eq: "pre @ log_bytes (r # rs) = (pre @ to_binary r) @ log_bytes rs"
    by (simp add: log_bytes_def)
  have "take record_size (drop start (pre @ log_bytes (r # rs))) = to_binary r"
    by (simp add: Cons.prems log_bytes_def)
  moreover have "start + record_size \<le> length (pre @ log_bytes (r # rs))" "0 < record_size"
    by (simp_all add: Cons.prems log_bytes_def record_size_def)
  ultimately show ?case
    using Cons.IH [of "start + record_size" "pre @ to_binary r" "absorb_record r m"] Cons.prems
    by (subst init_records_loop.simps) (simp add: eq del: append_assoc)
qed

lemma init_records_loop_cmds:
  "init_records_loop d s m = Inr m' \<Longrightarrow> rm_cmds m = [] \<Longrightarrow> rm_cmds m' = []"
  by (induction d s m rule: init_records_loop.induct)
    (subst (asm) init_records_loop.simps,
     auto simp: absorb_record_def split: if_splits sum.splits)

definition fresh_log :: record_manager where
  "fresh_log = \<lparr>rm_file = [], rm_cmd_file = [], rm_next_id = 0, rm_records = [], rm_cmds = []\<rparr>"

text \<open>The second read of \<open>init_records\<close> finds nothing, so no command is ever restored.\<close>

lemma init_records_eq:
  "init_records m = init_records_loop (rm_file m) 0 m"
  by (simp add: init_records_def read_stream_def init_cmds_loop.simps res_bind_def
      split: sum.splits)

lemma open_log_log_bytes:
  "open_log (log_bytes rs) cf =
     Inr (fold absorb_record rs
       (fresh_log\<lparr>rm_file := log_bytes rs, rm_cmd_file := cf\<rparr>))"
  using init_records_loop_log_bytes [of 0 "[]" rs]
  by (simp add: open_log_def init_records_eq fresh_log_def)

lemma rm_records_fold_absorb:
  "rm_records m = rm_records m' \<Longrightarrow>
   rm_records (fold absorb_record rs m) = rm_records (fold absorb_record rs m')"
  by (induction rs arbitrary: m m') (auto simp: absorb_record_def)

lemma rm_next_id_fold_absorb:
  "rm_next_id (fold absorb_record rs m) = (if rs = [] then rm_next_id m else r_next_id (last rs))"
  by (induction rs arbitrary: m) (auto simp: absorb_record_def)

definition replay :: "log_record list \<Rightarrow> (u32, log_record) omap" where
  "replay rs = rm_records (fold absorb_record rs fresh_log)"

lemma replay_snoc:
  "replay (rs @ [r]) =
     (if is_done_status (r_status r) then om_erase (r_id r) (replay rs)
      else om_put (r_id r) r (replay rs))"
  by (simp add: replay_def absorb_record_def)

text \<open>
  The invariant of the manager: the file holds whole records, and the table in memory is
  what replaying them gives.
\<close>

definition log_inv :: "record_manager \<Rightarrow> log_record list \<Rightarrow> bool" where
  "log_inv m rs \<longleftrightarrow> rm_file m = log_bytes rs \<and> rm_records m = replay rs"

lemma log_inv_fresh: "log_inv fresh_log []"
  by (simp add: log_inv_def fresh_log_def log_bytes_def replay_def)

text \<open>The records the file holds after one more is logged: just this one after a truncation.\<close>

definition log_after :: "log_record \<Rightarrow> log_record list \<Rightarrow> log_record list" where
  "log_after r rs =
     (if is_done_status (r_status r) \<and> replay (rs @ [r]) = [] then [r] else rs @ [r])"

lemma log_bytes_snoc: "log_bytes rs @ to_binary r = log_bytes (rs @ [r])"
  by (simp add: log_bytes_def)

lemma replay_single_done: "is_done_status (r_status r) \<Longrightarrow> replay [r] = []"
  by (simp add: replay_def absorb_record_def fresh_log_def om_erase_def)

lemma log_inv_rm_log: "log_inv m rs \<Longrightarrow> log_inv (rm_log r m) (log_after r rs)"
  using replay_snoc [of rs r] replay_single_done [of r] log_bytes_snoc [of rs r]
  by (auto simp: log_inv_def rm_log_def log_after_def Let_def log_bytes_def)

lemma last_log_after: "log_after r rs \<noteq> [] \<and> last (log_after r rs) = r"
  by (simp add: log_after_def)

lemma open_log_inv:
  assumes "log_inv m rs"
  shows "\<exists>m'. open_log (rm_file m) cf = Inr m' \<and> rm_file m' = rm_file m
            \<and> rm_records m' = rm_records m
            \<and> rm_next_id m' = (if rs = [] then 0 else r_next_id (last rs))"
proof -
  let ?m0 = "fresh_log\<lparr>rm_file := log_bytes rs, rm_cmd_file := cf\<rparr>"
  have "rm_file (fold absorb_record rs m) = rm_file m" for m
    by (induction rs arbitrary: m) (auto simp: absorb_record_def)
  moreover have "rm_records (fold absorb_record rs ?m0) = replay rs"
    unfolding replay_def by (rule rm_records_fold_absorb) simp
  ultimately show ?thesis
    using assms open_log_log_bytes [of rs cf] rm_next_id_fold_absorb [of rs ?m0]
    by (auto simp: log_inv_def fresh_log_def)
qed

text \<open>The table as a map: what logging a record does to it, from the container's laws.\<close>

definition table_wf :: "record_manager \<Rightarrow> bool" where
  "table_wf m \<longleftrightarrow> om_wf (rm_records m)"

lemma rm_records_rm_log:
  "rm_records (rm_log r m) =
     (if is_done_status (r_status r) then om_erase (r_id r) (rm_records m)
      else om_put (r_id r) r (rm_records m))"
  by (simp add: rm_log_def Let_def)

lemma table_wf_rm_log: "table_wf m \<Longrightarrow> table_wf (rm_log r m)"
  by (auto simp: table_wf_def rm_records_rm_log intro: om.invar_put om.invar_erase)

lemma lookup_rm_log:
  "table_wf m \<Longrightarrow> map_of (rm_records (rm_log r m)) =
     (if is_done_status (r_status r) then (map_of (rm_records m))(r_id r := None)
      else (map_of (rm_records m))(r_id r \<mapsto> r))"
  by (simp add: table_wf_def rm_records_rm_log om.lookup_put om.lookup_erase)

section \<open>Crashes while logging\<close>

text \<open>
  What \<^verbatim>\<open>log\<close> does to the two files on disk, operation by operation: it writes and flushes the
  record; when no unfinished record is left, opening the two streams for truncation empties one
  file after the other, and the record is written again. \<open>log_crash_recovers_old_or_new\<close> shows among
  other things that all of them together leave the files of \<open>rm_log\<close>.
\<close>

datatype file_op = Append bytes | Clear_Log | Clear_Cmds

definition log_ops :: "log_record \<Rightarrow> record_manager \<Rightarrow> file_op list" where
  "log_ops r m =
     (let binary = to_binary r
      in Append binary #
         (if is_done_status (r_status r) \<and> om_erase (r_id r) (rm_records m) = []
          then [Clear_Log, Clear_Cmds, Append binary] else []))"

fun run_op :: "file_op \<Rightarrow> bytes \<times> bytes \<Rightarrow> bytes \<times> bytes" where
  "run_op (Append b) (f, cf) = (f @ b, cf)"
| "run_op Clear_Log (f, cf) = ([], cf)"
| "run_op Clear_Cmds (f, cf) = (f, [])"

definition files_after :: "nat \<Rightarrow> log_record \<Rightarrow> record_manager \<Rightarrow> bytes \<times> bytes" where
  "files_after k r m = fold run_op (take k (log_ops r m)) (rm_file m, rm_cmd_file m)"

lemma files_after_all: "files_after (length (log_ops r m)) r m = (rm_file (rm_log r m), rm_cmd_file (rm_log r m))"
  by (simp add: files_after_def log_ops_def rm_log_def Let_def)

lemma upto_four: "k \<le> Suc (Suc (Suc (Suc 0))) \<Longrightarrow> k = 0 \<or> k = Suc 0 \<or> k = Suc (Suc 0) \<or> k = Suc (Suc (Suc 0)) \<or> k = Suc (Suc (Suc (Suc 0)))"
  by presburger

lemma files_after_cases:
  assumes "log_inv m rs" "k \<le> length (log_ops r m)" "files_after k r m = (f, cf)"
  shows "k = 0 \<and> f = log_bytes rs \<or> k = Suc 0 \<and> f = log_bytes (rs @ [r])
    \<or> is_done_status (r_status r) \<and> replay (rs @ [r]) = []
      \<and> (Suc 0 < k \<and> k < length (log_ops r m) \<and> f = [] \<or> k = length (log_ops r m) \<and> f = log_bytes [r])"
proof -
  have bytes: "rm_file m = log_bytes rs" "rm_file m @ to_binary r = log_bytes (rs @ [r])" "log_bytes [r] = to_binary r"
    using assms(1) log_bytes_snoc [of rs r] by (simp_all add: log_inv_def) (simp add: log_bytes_def)
  show ?thesis
  proof (cases "is_done_status (r_status r) \<and> om_erase (r_id r) (rm_records m) = []")
    case True
    then have ops: "log_ops r m = [Append (to_binary r), Clear_Log, Clear_Cmds, Append (to_binary r)]"
      by (simp add: log_ops_def Let_def)
    have "replay (rs @ [r]) = []" using True assms(1) replay_snoc [of rs r] by (simp add: log_inv_def)
    moreover have "k = 0 \<or> k = Suc 0 \<or> k = Suc (Suc 0) \<or> k = Suc (Suc (Suc 0)) \<or> k = Suc (Suc (Suc (Suc 0)))"
      using assms(2) ops upto_four [of k] by simp
    ultimately show ?thesis using assms(3) True bytes by (elim disjE; simp add: files_after_def ops)
  next
    case False
    then have ops: "log_ops r m = [Append (to_binary r)]" by (auto simp: log_ops_def Let_def)
    then have "k = 0 \<or> k = Suc 0" using assms(2) by auto
    with assms(3) bytes ops show ?thesis by (elim disjE; simp add: files_after_def)
  qed
qed

lemma open_log_bytes:
  "\<exists>m'. open_log (log_bytes rs) cf = Inr m' \<and> rm_records m' = replay rs
      \<and> rm_next_id m' = (if rs = [] then 0 else r_next_id (last rs))"
  using open_log_inv [of "fresh_log\<lparr>rm_file := log_bytes rs, rm_records := replay rs\<rparr>" rs cf]
  by (auto simp: log_inv_def)

lemma init_records_loop_torn:
  "start = length pre \<Longrightarrow> tail \<noteq> [] \<Longrightarrow> length tail < record_size \<Longrightarrow>
   \<exists>e. init_records_loop (pre @ log_bytes rs @ tail) start m = Inl e \<and> is_undefined e"
proof (induction rs arbitrary: start pre m)
  case Nil
  then show ?case by (subst init_records_loop.simps) (simp add: log_bytes_def)
next
  case (Cons r rs)
  have eq: "pre @ log_bytes (r # rs) @ tail = (pre @ to_binary r) @ log_bytes rs @ tail"
    by (simp add: log_bytes_def)
  have "take record_size (drop start (pre @ log_bytes (r # rs) @ tail)) = to_binary r"
    by (simp add: Cons.prems log_bytes_def)
  moreover have "start + record_size \<le> length (pre @ log_bytes (r # rs) @ tail)"
    "0 < record_size"
    by (simp_all add: Cons.prems log_bytes_def record_size_def)
  ultimately show ?case
    using Cons.IH [of "start + record_size" "pre @ to_binary r" "absorb_record r m"] Cons.prems
    by (subst init_records_loop.simps) (simp add: eq del: append_assoc)
qed

section \<open>Properties\<close>

text \<open>A record written with \<open>to_binary\<close> takes nine bytes, and \<open>parse\<close> of those bytes
  gives the record back, whatever its status, id and next id.\<close>

theorem record_roundtrip:
  "parse_record (to_binary r) = Inr r \<and> length (to_binary r) = record_size"
  by simp

text \<open>C15: after any sequence of records has been logged, starting from an empty log,
  constructing a record manager on the files succeeds and gives the same table of
  unfinished records, and the next id of the last record logged.\<close>

theorem log_replay_recovers_table:
  "\<exists>m'. open_log (rm_file (fold rm_log rs fresh_log)) cf = Inr m'
      \<and> rm_records m' = rm_records (fold rm_log rs fresh_log)
      \<and> rm_next_id m' = (if rs = [] then 0 else r_next_id (last rs))"
proof -
  have "\<exists>ls. log_inv (fold rm_log rs fresh_log) ls
          \<and> (ls = [] \<longleftrightarrow> rs = []) \<and> (rs \<noteq> [] \<longrightarrow> last ls = last rs)"
  proof (induction rs rule: rev_induct)
    case Nil
    then show ?case using log_inv_fresh by auto
  next
    case (snoc r rs)
    then obtain ls where "log_inv (fold rm_log rs fresh_log) ls" by blast
    from log_inv_rm_log [OF this, of r] last_log_after [of r ls] show ?case
      by (intro exI [of _ "log_after r ls"]) auto
  qed
  then obtain ls where "log_inv (fold rm_log rs fresh_log) ls" "ls = [] \<longleftrightarrow> rs = []"
    "rs \<noteq> [] \<longrightarrow> last ls = last rs" by blast
  with open_log_inv [of "fold rm_log rs fresh_log" ls cf] show ?thesis by auto
qed

lemma torn_log:
  assumes "0 < j" "j < record_size"
  shows "\<exists>e. open_log (log_bytes rs @ take j (to_binary r)) cf = Inl e \<and> is_undefined e"
proof -
  have "length (take j (to_binary r)) = j" using assms by simp
  then have "take j (to_binary r) \<noteq> []" "length (take j (to_binary r)) < record_size"
    using assms by (auto simp del: length_take take_eq_Nil)
  from init_records_loop_torn [of 0 "[]", OF _ this] show ?thesis
    by (simp add: open_log_def init_records_eq)
qed

lemma log_ops_append:
  assumes "k < length (log_ops r m)" "log_ops r m ! k = Append b"
  shows "b = to_binary r \<and> (k = 0 \<or> Suc 0 < k)"
  using assms by (auto simp: log_ops_def Let_def nth_Cons less_Suc_eq split: if_splits nat.splits)

text \<open>C16: the manager writes a record by a sequence of operations on its files, which together
  leave the files of \<open>rm_log\<close>. If the process stops between any two of them, the log found on disk
  is read back without error to the table of before or of after; the next id read back is the
  old one or that of the record, except in the window where the log has been truncated and is
  empty. If it stops in the middle of writing the record, so that only some of its nine bytes are on
  disk, reading the log back runs past the end of the buffer.\<close>

theorem log_crash_recovers_old_or_new:
  assumes "log_inv m rs" "k \<le> length (log_ops r m)" "files_after k r m = (f, cf)"
  shows "(k = length (log_ops r m) \<longrightarrow> f = rm_file (rm_log r m) \<and> cf = rm_cmd_file (rm_log r m))
    \<and> (\<exists>m'. open_log f cf = Inr m'
         \<and> (rm_records m' = rm_records m
              \<and> rm_next_id m' = (if rs = [] then 0 else r_next_id (last rs))
            \<or> rm_records m' = rm_records (rm_log r m)
              \<and> rm_next_id m' = (if f = [] then 0 else r_next_id r)))
    \<and> (\<forall>b j. k < length (log_ops r m) \<and> log_ops r m ! k = Append b \<and> 0 < j \<and> j < length b \<longrightarrow>
         (\<exists>e. open_log (f @ take j b) cf = Inl e \<and> is_undefined e))"
proof (intro conjI impI allI)
  show "f = rm_file (rm_log r m)" "cf = rm_cmd_file (rm_log r m)" if "k = length (log_ops r m)"
    using assms(3) files_after_all [of r m] that by simp_all
next
  have old: "rm_records m = replay rs" using assms(1) by (simp add: log_inv_def)
  have new: "rm_records (rm_log r m) = replay (rs @ [r])"
    by (simp add: rm_records_rm_log replay_snoc old)
  have ne: "log_bytes (ls @ [r]) \<noteq> []" for ls
    using length_log_bytes [of "ls @ [r]"] by (auto simp: record_size_def)
  from files_after_cases [OF assms] consider "f = log_bytes rs" | "f = log_bytes (rs @ [r])"
    | "f = []" "replay (rs @ [r]) = []" | "f = log_bytes [r]" "is_done_status (r_status r)" "replay (rs @ [r]) = []"
    by blast
  then show "\<exists>m'. open_log f cf = Inr m'
         \<and> (rm_records m' = rm_records m
              \<and> rm_next_id m' = (if rs = [] then 0 else r_next_id (last rs))
            \<or> rm_records m' = rm_records (rm_log r m)
              \<and> rm_next_id m' = (if f = [] then 0 else r_next_id r))"
  proof cases
    case 1
    then show ?thesis using open_log_bytes [of rs cf] old by auto
  next
    case 2
    then show ?thesis using open_log_bytes [of "rs @ [r]" cf] new ne [of rs] by auto
  next
    case 3
    then show ?thesis
      using open_log_bytes [of "[]" cf] new by (auto simp: log_bytes_def replay_def fresh_log_def)
  next
    case 4
    then show ?thesis
      using open_log_bytes [of "[r]" cf] new ne [of "[]"] replay_single_done [of r] by auto
  qed
next
  fix b j assume b: "k < length (log_ops r m) \<and> log_ops r m ! k = Append b \<and> 0 < j \<and> j < length b"
  then have bin: "b = to_binary r" "k = 0 \<or> Suc 0 < k" using log_ops_append by blast+
  have "f = log_bytes rs \<or> f = log_bytes []"
    using files_after_cases [OF assms] b bin(2) by (auto simp: log_bytes_def)
  moreover have "0 < j" "j < record_size" using b bin(1) by simp_all
  ultimately show "\<exists>e. open_log (f @ take j b) cf = Inl e \<and> is_undefined e"
    using torn_log bin(1) by blast
qed

theorem log_crash_recovers_old_or_new_witness:
  "(\<exists>m'. open_log [] [] = Inr m' \<and> rm_records m' = [] \<and> rm_next_id m' = 0)
   \<and> (\<exists>e. open_log (take 4 (to_binary (make_record RECORD_ABORT_DONE 4 5))) [] = Inl e \<and> is_undefined e)"
proof -
  let ?r = "make_record RECORD_ABORT_DONE 4 5"
  have ops: "log_ops ?r fresh_log = [Append (to_binary ?r), Clear_Log, Clear_Cmds, Append (to_binary ?r)]"
    by (simp add: log_ops_def fresh_log_def make_record_def is_done_status_def om_erase_def Let_def)
  have "files_after (Suc (Suc (Suc 0))) ?r fresh_log = ([], [])" by (simp add: files_after_def ops)
  note c = log_crash_recovers_old_or_new [OF log_inv_fresh _ this]
  have e: "rm_records (rm_log ?r fresh_log) = []"
    by (simp add: fresh_log_def rm_records_rm_log make_record_def is_done_status_def om_erase_def)
  have "\<exists>m'. open_log [] [] = Inr m' \<and> rm_records m' = [] \<and> rm_next_id m' = 0"
    using conjunct1 [OF conjunct2 [OF c]] e by (auto simp: ops) (auto simp: fresh_log_def)
  moreover have "\<exists>e. open_log (take 4 (to_binary ?r)) [] = Inl e \<and> is_undefined e"
    using conjunct2 [OF conjunct2 [OF c]] by (simp add: ops record_size_def)
  ultimately show ?thesis by blast
qed

text \<open>Logging a DONE record that empties the table passes through a state in which the
  log on disk is an empty file: a coordinator restarted there reads next id 0, whatever the
  record says, and takes itself for a new one.\<close>

theorem log_truncation_window_forgets_next_id:
  assumes "is_done_status (r_status r)" "rm_records (rm_log r m) = []"
  shows "\<exists>k < length (log_ops r m). \<exists>cf m'. files_after k r m = ([], cf)
    \<and> open_log [] cf = Inr m' \<and> rm_records m' = [] \<and> rm_next_id m' = 0"
proof -
  have "om_erase (r_id r) (rm_records m) = []"
    using assms by (simp add: rm_records_rm_log)
  then have "files_after (Suc (Suc 0)) r m = ([], rm_cmd_file m)" "Suc (Suc 0) < length (log_ops r m)"
    using assms(1) by (simp_all add: files_after_def log_ops_def Let_def)
  moreover have "\<exists>m'. open_log [] (rm_cmd_file m) = Inr m' \<and> rm_records m' = [] \<and> rm_next_id m' = 0"
    using open_log_bytes [of "[]" "rm_cmd_file m"] by (auto simp: log_bytes_def replay_def fresh_log_def)
  ultimately show ?thesis by blast
qed

theorem log_truncation_window_forgets_next_id_witness:
  "let r = make_record RECORD_COMMIT_DONE 7 8; m = rm_log (make_record RECORD_COMMIT 7 8) fresh_log
   in \<exists>k < length (log_ops r m). \<exists>cf m'. files_after k r m = ([], cf)
     \<and> open_log [] cf = Inr m' \<and> rm_records m' = [] \<and> rm_next_id m' = 0"
  unfolding Let_def
proof (rule log_truncation_window_forgets_next_id)
  show "is_done_status (r_status (make_record RECORD_COMMIT_DONE 7 8))"
    by (simp add: make_record_def is_done_status_def)
  show "rm_records (rm_log (make_record RECORD_COMMIT_DONE 7 8)
      (rm_log (make_record RECORD_COMMIT 7 8) fresh_log)) = []"
    by (simp add: rm_records_rm_log make_record_def is_done_status_def record_statuses
        fresh_log_def om_erase_def om_put_def)
qed

text \<open>A log whose last record was only partly written is not detected: reading it back
  runs past the end of the buffer.\<close>

theorem torn_record_undefined:
  assumes "0 < k" "k < record_size"
  shows "\<exists>e. open_log (log_bytes rs @ take k (to_binary r)) cf = Inl e \<and> is_undefined e"
  by (rule torn_log [OF assms])

theorem torn_record_undefined_witness:
  "\<exists>e. open_log (log_bytes [make_record RECORD_COMMIT 1 2]
          @ take 3 (to_binary (make_record RECORD_COMMIT_DONE 1 2))) [] = Inl e \<and> is_undefined e"
  by (rule torn_record_undefined) (simp_all add: record_size_def)

text \<open>The manager never restores a command: the second loop of \<open>init_records\<close> reads the
  record file again, which is at its end, so the table of commands is empty after every
  successful start, whatever the command file holds.\<close>

theorem commands_never_restored:
  assumes "open_log f cf = Inr m"
  shows "rm_cmds m = []"
  using assms init_records_loop_cmds by (auto simp: open_log_def init_records_eq)

theorem commands_never_restored_witness:
  "rm_cmds (fold absorb_record [make_record RECORD_PREPARED 3 3]
     (fresh_log\<lparr>rm_file := log_bytes [make_record RECORD_PREPARED 3 3],
       rm_cmd_file := [1, 1, 0, 0, 0, 97, 1, 0, 0, 0, 98]\<rparr>)) = []"
  by (rule commands_never_restored [OF open_log_log_bytes])

text \<open>The command file is not read the way it is written: where the decoder gets through
  a SET that was logged, the id it attaches to it is the length of the key, not the id the
  command was logged with (the encoder writes no id).\<close>

theorem logged_set_decodes_with_wrong_id:
  assumes "encode_command (Some (Set_Command i k v)) = Inr b" "decode_command (b @ rest) 0 = Inr (c, j)"
  shows "cmd_id c = word_of_nat (length k)"
proof -
  let ?tail = "string_bytes k @ encode_uint32_t [] (word_of_nat (length v)) @ string_bytes v @ rest"
  have e: "encode_uint32_t xs n = xs @ encode_uint32_t [] n" for xs n
    by (simp add: encode_uint32_t_def)
  have b: "b @ rest = encode_uint32_t [CMD_SET] (word_of_nat (length k)) @ ?tail"
    using assms(1) e [of "encode_uint32_t [CMD_SET] (word_of_nat (length k)) @ string_bytes k"]
    by (simp add: encode_uint8_t_def)
  have "decode_uint8_t (b @ rest) 0 = Inr (CMD_SET, 1)"
    by (simp add: b encode_uint32_t_def decode_uint8_t_def)
  moreover have "decode_uint32_t (b @ rest) 1 = Inr (word_of_nat (length k), 5)"
    unfolding b using decode_uint32_t_at [of 1 "[CMD_SET]"] by simp
  ultimately show ?thesis
    using assms(2) by (auto simp: decode_command_def new_set_command_def)
qed

theorem logged_set_decodes_with_wrong_id_witness:
  "cmd_id (Set_Command 4 [] []) = word_of_nat (length [CHR 0x00, CHR 0x00, CHR 0x00, CHR 0x00])"
proof (rule logged_set_decodes_with_wrong_id)
  let ?k = "[CHR 0x00, CHR 0x00, CHR 0x00, CHR 0x00]"
  show "encode_command (Some (Set_Command 9 ?k [])) =
      Inr [1, 4, 0, 0, 0, 0, 0, 0, 0, 0, 0, 0, 0]"
    by (simp add: encode_uint8_t_def encode_uint32_t_def string_bytes_def CMD_SET_def)
  show "decode_command ([1, 4, 0, 0, 0, 0, 0, 0, 0, 0, 0, 0, 0] @ []) 0 =
      Inr (Set_Command 4 [] [], 13)"
    by (simp add: decode_command_def decode_uint8_t_def decode_uint32_t_def take_string_def
        bytes_string_def new_set_command_def CMD_SET_def)
qed

end
