(* ===== verification/Participant.thy ===== *)
theory Participant
  imports Command_Parser Record_Log
begin

text \<open>
  A storage node, \<^verbatim>\<open>Lab3/src/participant.hpp\<close> and \<^verbatim>\<open>participant.cpp\<close>: its state, one
  definition per RPC handler, the handlers' dispatch, and the recovery its constructor
  performs. LevelDB is a parameter: a record of the operations the code calls. What its
  documentation promises of those that answer OK is the locale \<open>leveldb_laws\<close>; \<open>leveldb_store\<close>
  adds the assumption that the disk works, that is, no operation is refused with an error. The
  handlers themselves have the branches for refused operations.
\<close>

section \<open>The storage engine\<close>

text \<open>
  \<^verbatim>\<open>Get\<close> answers the value when its status is OK; \<^verbatim>\<open>Put\<close> and \<^verbatim>\<open>Delete\<close> answer whether
  their status is OK; \<open>ldb_entries\<close> is what an iterator from \<^verbatim>\<open>SeekToFirst\<close> yields.
\<close>

record 'db leveldb =
  ldb_get :: "'db \<Rightarrow> string \<Rightarrow> string option"
  ldb_put :: "'db \<Rightarrow> string \<Rightarrow> string \<Rightarrow> bool \<times> 'db"
  ldb_delete :: "'db \<Rightarrow> string \<Rightarrow> bool \<times> 'db"
  ldb_entries :: "'db \<Rightarrow> (string \<times> string) list"

section \<open>State\<close>

text \<open>
  \<open>pt_requests\<close> is the ordered set of owned command pointers, ascending by id; \<open>None\<close> is a
  null pointer. A handler is one step. PREPARE, COMMIT and ABORT hold \<^verbatim>\<open>db_request_mutex_\<close> from
  their first to their last line; GET, SET_NEXT_ID, NEXT_ID, HEARTBEAT, GET_SNAPSHOT and RECOVER take no
  lock, and COMMIT has advanced \<^verbatim>\<open>next_id_\<close> before it applies the command. What makes them one step is
  the caller: the only client is the coordinator, which makes these calls one after the other under
  \<^verbatim>\<open>participants_mutex_\<close> and waits for each; HEARTBEAT, which it calls without the lock, touches
  nothing. A call that runs on after its timeout is outside of this, see the network of \<open>Cluster\<close>.
\<close>

record 'db participant =
  pt_db :: 'db
  pt_log :: record_manager
  pt_requests :: "command option list"
  pt_next_id :: u32
  pt_started :: bool

type_synonym ('db, 'a) handler = "'db participant \<Rightarrow> ('a \<times> 'db participant) result"

text \<open>
  \<^verbatim>\<open>db_requests_.insert\<close>: the comparator dereferences both pointers as soon as the set is
  not empty; an element with the same id keeps its place.
\<close>

definition insert_request :: "command option \<Rightarrow> command option list \<Rightarrow> command option list result" where
  "insert_request c rs =
     (if rs = [] then Inr [c]
      else if c = None \<or> None \<in> set rs then Inl (Undefined ''comparison with a null command'')
      else if cmd_id (the c) \<in> set (map (cmd_id \<circ> the) rs) then Inr rs
      else Inr (filter (\<lambda>r. cmd_id (the r) < cmd_id (the c)) rs @ c
                # filter (\<lambda>r. cmd_id (the c) < cmd_id (the r)) rs))"

section \<open>RPC handlers\<close>

definition encode_bulk_string :: "string \<Rightarrow> string" where
  "encode_bulk_string s = ''$'' @ to_string (length s) @ separator @ s @ separator"

definition encode_result :: "string \<Rightarrow> string" where
  "encode_result value =
     (let tokens = getlines (CHR '' '') value
      in ''*'' @ to_string (length tokens) @ separator @ concat (map encode_bulk_string tokens))"

definition get_handler :: "'db leveldb \<Rightarrow> string \<Rightarrow> ('db, string) handler" where
  "get_handler ldb key p =
     Inr (case ldb_get ldb (pt_db p) key of
            Some value \<Rightarrow> encode_result value
          | None \<Rightarrow> encode_result ''nil'', p)"

text \<open>The two PREPARE handlers differ in the type of their parameter.\<close>

definition log_and_queue :: "command \<Rightarrow> ('db, bool) handler" where
  "log_and_queue c p =
     res_bind (rm_log_command (Some c) (pt_log p)) (\<lambda>lg.
       (let (cmd, moved_from) = move_command c;
            lg' = rm_log (make_record RECORD_PREPARED (cmd_id cmd) (pt_next_id p)) lg
        in res_bind (insert_request (Some cmd) (pt_requests p)) (\<lambda>rs.
             Inr (True, p\<lparr>pt_log := lg', pt_requests := rs\<rparr>))))"

definition prepare_set :: "command \<Rightarrow> ('db, bool) handler" where
  "prepare_set set_cmd p = try_catch (log_and_queue set_cmd p) (\<lambda>_. Inr (False, p))"

definition prepare_del :: "command \<Rightarrow> ('db, bool) handler" where
  "prepare_del del_cmd p = try_catch (log_and_queue del_cmd p) (\<lambda>_. Inr (False, p))"

definition handle_set :: "'db leveldb \<Rightarrow> command \<Rightarrow> 'db \<Rightarrow> string \<times> 'db" where
  "handle_set ldb cmd db =
     (let key = args cmd ! 0; value = args cmd ! 1; (ok, db') = ldb_put ldb db key value
      in (if ok then update_ok_string else error_string, db'))"

fun delete_keys :: "'db leveldb \<Rightarrow> string list \<Rightarrow> nat \<Rightarrow> 'db \<Rightarrow> nat \<times> 'db" where
  "delete_keys ldb [] count db = (count, db)"
| "delete_keys ldb (key # keys) count db =
     (let exists = ldb_get ldb db key \<noteq> None;
          (ok, db') = ldb_delete ldb db key
      in delete_keys ldb keys (if ok \<and> exists then count + 1 else count) db')"

definition handle_del :: "'db leveldb \<Rightarrow> command \<Rightarrow> 'db \<Rightarrow> string \<times> 'db" where
  "handle_del ldb cmd db =
     (let (count, db') = delete_keys ldb (args cmd) 0 db
      in (if count = 0 then error_string
          else '':'' @ to_string count @ [CHR 13, CHR 10], db'))"

definition dispatchers :: "'db leveldb \<Rightarrow> command_type \<Rightarrow> (command \<Rightarrow> 'db \<Rightarrow> string \<times> 'db) option" where
  "dispatchers ldb t =
     (if t = CMD_SET then Some (handle_set ldb)
      else if t = CMD_DEL then Some (handle_del ldb) else None)"

definition commit_handler :: "'db leveldb \<Rightarrow> u32 \<Rightarrow> ('db, string) handler" where
  "commit_handler ldb i p =
     (if pt_next_id p > i then Inr ([], p)
      else if pt_next_id p < i
      then Inl (Server_Error ''the coordinator has not call RECOVER!'')
      else case pt_requests p of
             [] \<Rightarrow> Inl (Undefined ''begin() of an empty set dereferenced'')
           | None # _ \<Rightarrow> Inl (Undefined ''null command dereferenced'')
           | Some c # rest \<Rightarrow>
               if cmd_id c \<noteq> pt_next_id p
               then Inl (Server_Error ''the coordinator has sent multiple PREPARE!'')
               else case dispatchers ldb (cmd_type c) of
                      None \<Rightarrow> Inl (Server_Error ''unrecognizable command'')
                    | Some handler \<Rightarrow>
                        (let lg1 = rm_log (make_record RECORD_COMMIT i (pt_next_id p)) (pt_log p);
                             n = pt_next_id p + 1;
                             (ret, db') = handler c (pt_db p);
                             lg2 = rm_log (make_record RECORD_COMMIT_DONE i n) lg1
                         in Inr (ret, p\<lparr>pt_db := db', pt_log := lg2, pt_next_id := n,
                                        pt_requests := rest\<rparr>)))"

definition abort_handler :: "u32 \<Rightarrow> ('db, bool) handler" where
  "abort_handler i p =
     (let p1 = p\<lparr>pt_log := rm_log (make_record RECORD_ABORT_DONE i (pt_next_id p + 1)) (pt_log p)\<rparr>
      in if pt_next_id p1 \<noteq> i
         then Inr (True, if i > pt_next_id p1 then p1\<lparr>pt_next_id := i + 1\<rparr> else p1)
         else Inr (True, p1\<lparr>pt_requests := drop 1 (pt_requests p1), pt_next_id := pt_next_id p1 + 1\<rparr>))"

definition set_next_id_handler :: "u32 \<Rightarrow> ('db, unit) handler" where
  "set_next_id_handler val p = Inr ((), p\<lparr>pt_next_id := val\<rparr>)"

definition next_id_handler :: "('db, u32) handler" where
  "next_id_handler p = Inr (pt_next_id p, p)"

definition heartbeat :: "('db, unit) handler" where
  "heartbeat p = Inr ((), p)"

subsection \<open>Snapshots\<close>

text \<open>A size is stored as a signed 16-bit integer, low byte first.\<close>

definition short_bytes :: "u16 \<Rightarrow> string" where
  "short_bytes w = [char_of (unat w mod 256), char_of (unat w div 256)]"

definition encode_pair :: "string \<Rightarrow> string \<times> string \<Rightarrow> string" where
  "encode_pair dat kv =
     dat @ short_bytes (word_of_nat (length (fst kv))) @ fst kv
         @ short_bytes (word_of_nat (length (snd kv))) @ snd kv"

definition get_snapshot :: "'db leveldb \<Rightarrow> ('db, string) handler" where
  "get_snapshot ldb p = Inr (foldl encode_pair [] (ldb_entries ldb (pt_db p)), p)"

text \<open>
  Two bytes read as a \<^verbatim>\<open>short\<close> in the byte order of the machine (\<open>be\<close>: big endian), and
  the code's exchange of the two bytes on a big-endian machine.
\<close>

definition load_short :: "bool \<Rightarrow> char \<Rightarrow> char \<Rightarrow> u16" where
  "load_short be m0 m1 =
     (if be then word_of_nat (256 * of_char m0 + of_char m1)
      else word_of_nat (of_char m0 + 256 * of_char m1))"

text \<open>\<^verbatim>\<open>is_big_endian\<close> looks at the first byte in memory of the number 0x01020304.\<close>

definition memory_bytes :: "bool \<Rightarrow> u32 \<Rightarrow> nat list" where
  "memory_bytes be w =
     (let low_first = map (\<lambda>i. unat w div 256 ^ i mod 256) [0..<4]
      in if be then rev low_first else low_first)"

definition is_big_endian :: "bool \<Rightarrow> bool" where
  "is_big_endian be \<longleftrightarrow> memory_bytes be 0x01020304 ! 0 = 1"

lemma is_big_endian [simp]: "is_big_endian be = be"
  by (simp add: is_big_endian_def memory_bytes_def upt_rec Let_def)

definition take_item :: "bool \<Rightarrow> string \<Rightarrow> nat \<Rightarrow> (string \<times> nat) option result" where
  "take_item be dat i =
     (if i + 1 \<ge> length dat then Inr None
      else let size = sint (load_short be (if is_big_endian be then dat ! (i + 1) else dat ! i)
                                          (if is_big_endian be then dat ! i else dat ! (i + 1)));
               j = i + 2
           in if size < 0 \<or> j + nat size > length dat
              then Inl (Undefined ''item range outside the snapshot'')
              else Inr (Some (take (nat size) (drop j dat), j + nat size)))"

lemma take_item_advances: "take_item be dat i = Inr (Some (x, j)) \<Longrightarrow> i < j"
  by (auto simp: take_item_def Let_def split: if_splits)

function recover_pairs :: "'db leveldb \<Rightarrow> bool \<Rightarrow> string \<Rightarrow> nat \<Rightarrow> 'db \<Rightarrow> (bool \<times> 'db) result" where
  "recover_pairs ldb be dat i db =
     (if i < length dat
      then case take_item be dat i of
             Inl e \<Rightarrow> Inl e
           | Inr None \<Rightarrow> Inr (False, db)
           | Inr (Some (key, i1)) \<Rightarrow>
               (case take_item be dat i1 of
                  Inl e \<Rightarrow> Inl e
                | Inr None \<Rightarrow> Inr (False, db)
                | Inr (Some (value, i2)) \<Rightarrow>
                    (case ldb_put ldb db key value of
                       (ok, db') \<Rightarrow> if ok then recover_pairs ldb be dat i2 db'
                                    else Inr (False, db')))
      else Inr (True, db))"
  by pat_completeness auto
termination
  by (relation "measure (\<lambda>(ldb, be, dat, i, db). length dat - i)")
    (auto dest!: take_item_advances)

declare recover_pairs.simps [simp del]

fun recover_deletes :: "'db leveldb \<Rightarrow> string list \<Rightarrow> 'db \<Rightarrow> bool \<times> 'db" where
  "recover_deletes ldb [] db = (True, db)"
| "recover_deletes ldb (key # keys) db =
     (case ldb_delete ldb db key of
        (ok, db') \<Rightarrow> if ok then recover_deletes ldb keys db' else (False, db'))"

text \<open>RECOVER: the keys of \<open>del_keys\<close> come in ascending order, as a \<^verbatim>\<open>std::set\<close>.\<close>

definition recover_handler :: "'db leveldb \<Rightarrow> bool \<Rightarrow> string \<Rightarrow> string list \<Rightarrow> ('db, bool) handler" where
  "recover_handler ldb be dat del_keys p =
     (case recover_deletes ldb del_keys (pt_db p) of
        (ok, db1) \<Rightarrow>
          if \<not> ok then Inr (False, p\<lparr>pt_db := db1\<rparr>)
          else res_bind (recover_pairs ldb be dat 0 db1)
                 (\<lambda>(done, db2). Inr (done, p\<lparr>pt_db := db2\<rparr>)))"

section \<open>Dispatch\<close>

text \<open>The requests of the RPC interface with their parameters, and what a call returns.\<close>

datatype rpc_request =
    Rpc_GET command
  | Rpc_PREPARE_SET command
  | Rpc_PREPARE_DEL command
  | Rpc_COMMIT u32
  | Rpc_ABORT u32
  | Rpc_SET_NEXT_ID u32
  | Rpc_NEXT_ID
  | Rpc_HEARTBEAT
  | Rpc_GET_SNAPSHOT
  | Rpc_RECOVER string "string list"

datatype rpc_response =
    Res_String string
  | Res_Bool bool
  | Res_U32 u32
  | Res_Bytes string
  | Res_Unit

definition respond :: "('a \<Rightarrow> rpc_response) \<Rightarrow> ('a \<times> 'db participant) result
    \<Rightarrow> (rpc_response \<times> 'db participant) result" where
  "respond f m = res_bind m (\<lambda>(x, p). Inr (f x, p))"

fun serve :: "'db leveldb \<Rightarrow> bool \<Rightarrow> rpc_request \<Rightarrow> ('db, rpc_response) handler" where
  "serve ldb be (Rpc_GET c) p = respond Res_String (get_handler ldb (hd (args c)) p)"
| "serve ldb be (Rpc_PREPARE_SET c) p = respond Res_Bool (prepare_set c p)"
| "serve ldb be (Rpc_PREPARE_DEL c) p = respond Res_Bool (prepare_del c p)"
| "serve ldb be (Rpc_COMMIT i) p = respond Res_String (commit_handler ldb i p)"
| "serve ldb be (Rpc_ABORT i) p = respond Res_Bool (abort_handler i p)"
| "serve ldb be (Rpc_SET_NEXT_ID n) p = respond (\<lambda>_. Res_Unit) (set_next_id_handler n p)"
| "serve ldb be Rpc_NEXT_ID p = respond Res_U32 (next_id_handler p)"
| "serve ldb be Rpc_HEARTBEAT p = respond (\<lambda>_. Res_Unit) (heartbeat p)"
| "serve ldb be Rpc_GET_SNAPSHOT p = respond Res_Bytes (get_snapshot ldb p)"
| "serve ldb be (Rpc_RECOVER dat ks) p = respond Res_Bool (recover_handler ldb be dat ks p)"

section \<open>Start-up\<close>

text \<open>
  \<^verbatim>\<open>recovery\<close> holds \<^verbatim>\<open>db_request_mutex_\<close> while it calls the COMMIT handler, which locks
  the same \<^verbatim>\<open>std::mutex\<close> again. \<^verbatim>\<open>cmds[id]\<close> is a null pointer where the log holds no
  command.
\<close>

fun recover_records :: "(u32, command) omap \<Rightarrow> (u32 \<times> log_record) list
    \<Rightarrow> 'db participant \<Rightarrow> 'db participant result" where
  "recover_records cmds [] p = Inr p"
| "recover_records cmds ((k, r) # rs) p =
     (if r_status r = RECORD_COMMIT then
        res_bind (insert_request (map_of cmds (r_id r)) (pt_requests p)) (\<lambda>reqs.
          Inl (Undefined ''db_request_mutex_ locked twice''))
      else if r_status r = RECORD_PREPARED then
        res_bind (insert_request (map_of cmds (r_id r)) (pt_requests p)) (\<lambda>reqs.
          recover_records cmds rs (p\<lparr>pt_requests := reqs, pt_next_id := r_id r\<rparr>))
      else Inl (Server_Error ''participant recovery failed''))"

definition participant_recovery :: "'db participant \<Rightarrow> 'db participant result" where
  "participant_recovery p =
     res_bind (recover_records (rm_cmds (pt_log p)) (rm_records (pt_log p)) p) (\<lambda>p1.
       (let n = (if pt_next_id p1 = 0 then rm_next_id (pt_log p1) else pt_next_id p1)
        in Inr (p1\<lparr>pt_next_id := n, pt_log := (pt_log p1)\<lparr>rm_cmds := [], rm_records := []\<rparr>\<rparr>)))"

definition new_participant :: "'db \<Rightarrow> bytes \<Rightarrow> bytes \<Rightarrow> 'db participant result" where
  "new_participant db file cmd_file =
     res_bind (open_log file cmd_file) (\<lambda>lg.
       participant_recovery
         \<lparr>pt_db = db, pt_log = lg, pt_requests = [], pt_next_id = 0, pt_started = False\<rparr>)"

definition participant_start :: "('db, unit) handler" where
  "participant_start p =
     (if pt_started p then Inl (Server_Error ''coordinator has been started'')
      else Inr ((), p\<lparr>pt_started := True\<rparr>))"

section \<open>Handlers that do not touch the store\<close>

lemma encode_result_resp: "encode_result value = resp_array (getlines (CHR '' '') value)"
  by (simp add: encode_result_def resp_array_def resp_items_def resp_bulk_def
      encode_bulk_string_def [abs_def] Let_def)

lemma encode_command_update: "is_update c \<Longrightarrow> \<exists>b. encode_command (Some c) = Inr b"
  by (cases c) auto

lemma log_and_queue_idle:
  assumes "is_update c" "pt_requests p = []"
  shows "\<exists>p'. log_and_queue c p = Inr (True, p') \<and> pt_requests p' = [Some c]
           \<and> pt_db p' = pt_db p \<and> pt_next_id p' = pt_next_id p"
  using assms encode_command_update [OF assms(1)]
  by (auto simp: log_and_queue_def rm_log_command_def insert_request_def)

lemma prepare_idle:
  assumes "is_update c" "pt_requests p = []"
  shows "\<exists>p'. prepare_set c p = Inr (True, p') \<and> pt_requests p' = [Some c]
           \<and> pt_db p' = pt_db p \<and> pt_next_id p' = pt_next_id p"
    and "\<exists>p'. prepare_del c p = Inr (True, p') \<and> pt_requests p' = [Some c]
           \<and> pt_db p' = pt_db p \<and> pt_next_id p' = pt_next_id p"
  using log_and_queue_idle [OF assms] by (auto simp: prepare_set_def prepare_del_def)

lemma abort_current:
  "\<exists>p'. abort_handler (pt_next_id p) p = Inr (True, p') \<and> pt_db p' = pt_db p
      \<and> pt_next_id p' = pt_next_id p + 1 \<and> pt_requests p' = drop 1 (pt_requests p)"
  by (simp add: abort_handler_def Let_def)

subsection \<open>Reading a snapshot item back\<close>

lemma sint_short:
  assumes "n < 65536"
  shows "sint (word_of_nat n :: u16) = (if n < 32768 then int n else int n - 65536)"
proof -
  have u: "uint (word_of_nat n :: u16) = int n"
    using assms
    by (simp add: uint_word_of_int_eq take_bit_int_eq_self unsigned_of_nat take_bit_nat_eq_self)
  have "bit (int n) 15 \<longleftrightarrow> 32768 \<le> n"
  proof (cases "32768 \<le> n")
    case True
    then have "n div 32768 = 1" using assms by simp
    then have "int n div 32768 = 1" by (metis of_nat_1 of_nat_numeral zdiv_int)
    then show ?thesis using True by (simp add: bit_iff_odd)
  next
    case False
    then have "int n div 32768 = 0" by simp
    then show ?thesis using False by (simp add: bit_iff_odd)
  qed
  then show ?thesis using assms u
    by (simp add: sint_uint signed_take_bit_eq_take_bit_minus take_bit_int_eq_self)
qed

text \<open>The stored size is read back as the signed 16-bit value of the length, on either kind of machine.\<close>

definition stored_size :: "nat \<Rightarrow> int" where
  "stored_size n = (if n mod 65536 < 32768 then int (n mod 65536) else int (n mod 65536) - 65536)"

lemma unat_u16: "unat (word_of_nat n :: u16) = n mod 65536"
  by (simp add: unat_of_nat)

lemma short_bytes_eq:
  "short_bytes (word_of_nat n) = [char_of (n mod 65536 mod 256), char_of (n mod 65536 div 256)]"
  by (simp only: short_bytes_def unat_u16)

lemma load_short_stored:
  assumes "dat = pre @ short_bytes (word_of_nat n) @ post" "i = length pre"
  shows "sint (load_short be (if be then dat ! (i + 1) else dat ! i)
                             (if be then dat ! i else dat ! (i + 1))) = stored_size n"
proof -
  let ?m = "n mod 65536"
  have b: "dat ! i = char_of (?m mod 256)" "dat ! (i + 1) = char_of (?m div 256)"
    using assms by (simp_all add: nth_append short_bytes_eq)
  have "?m div 256 < 256" by (simp add: less_mult_imp_div_less)
  then have "(of_char (char_of (?m mod 256)) :: nat) = ?m mod 256"
    "(of_char (char_of (?m div 256)) :: nat) = ?m div 256"
    by (simp_all add: of_char_of)
  moreover have "?m mod 256 + 256 * (?m div 256) = ?m" by presburger
  ultimately have "load_short be (if be then dat ! (i + 1) else dat ! i)
      (if be then dat ! i else dat ! (i + 1)) = word_of_nat ?m"
    unfolding load_short_def b by (cases be) (simp_all only: if_True if_False add.commute)
  then show ?thesis
    using sint_short [of ?m] by (simp add: stored_size_def)
qed

lemma take_item_stored:
  assumes dat: "dat = pre @ short_bytes (word_of_nat n) @ post" and i: "i = length pre"
  shows "take_item be dat i =
    (if stored_size n < 0 \<or> nat (stored_size n) > length post
     then Inl (Undefined ''item range outside the snapshot'')
     else Inr (Some (take (nat (stored_size n)) post, i + 2 + nat (stored_size n))))"
proof -
  have "drop (i + 2) dat = post" "length dat = i + 2 + length post"
    using dat i by (simp_all add: short_bytes_def)
  with load_short_stored [OF dat i, of be] show ?thesis
    by (simp add: take_item_def Let_def)
qed

lemma stored_size_small: "n < 32768 \<Longrightarrow> stored_size n = int n"
  by (simp add: stored_size_def)

lemma take_item_small:
  assumes "dat = pre @ short_bytes (word_of_nat (length x)) @ x @ post" "i = length pre"
    "length x < 32768"
  shows "take_item be dat i = Inr (Some (x, i + 2 + length x))"
  using take_item_stored [OF assms(1,2), of be] assms(3) by (simp add: stored_size_small)

lemma encode_pair_append: "encode_pair dat kv = dat @ encode_pair [] kv"
  by (simp add: encode_pair_def)

lemma foldl_encode_pair: "foldl encode_pair dat es = dat @ concat (map (encode_pair []) es)"
proof (induction es arbitrary: dat)
  case (Cons kv es)
  show ?case by (simp add: Cons) (subst encode_pair_append, simp)
qed simp

lemma length_encode_pair: "length (encode_pair [] (k, v)) = 4 + length k + length v"
  by (simp add: encode_pair_def short_bytes_def)

text \<open>A pair whose parts are shorter than 32768 bytes is read back and stored.\<close>

definition pair_small :: "string \<times> string \<Rightarrow> bool" where
  "pair_small kv \<longleftrightarrow> length (fst kv) < 32768 \<and> length (snd kv) < 32768"

lemma recover_pairs_step:
  assumes dat: "dat = pre @ encode_pair [] (k, v) @ post" and i: "i = length pre"
    and small: "pair_small (k, v)"
  shows "recover_pairs ldb be dat i db =
    (case ldb_put ldb db k v of (ok, db') \<Rightarrow>
       if ok then recover_pairs ldb be dat (i + length (encode_pair [] (k, v))) db'
       else Inr (False, db'))"
proof -
  have "take_item be dat i = Inr (Some (k, i + 2 + length k))"
    using dat i small by (intro take_item_small [of dat pre k "short_bytes (word_of_nat (length v)) @ v @ post"])
      (simp_all add: encode_pair_def pair_small_def)
  moreover have "take_item be dat (i + 2 + length k) = Inr (Some (v, i + length (encode_pair [] (k, v))))"
  proof -
    have "take_item be dat (i + 2 + length k) = Inr (Some (v, i + 2 + length k + 2 + length v))"
      using dat i small
      by (intro take_item_small [of dat "pre @ short_bytes (word_of_nat (length k)) @ k" v post])
        (simp_all add: encode_pair_def pair_small_def short_bytes_def)
    then show ?thesis by (simp add: length_encode_pair)
  qed
  moreover have "i < length dat" using dat i by (simp add: length_encode_pair)
  ultimately show ?thesis
    by (subst recover_pairs.simps) simp
qed

section \<open>What the handlers rely on in the store\<close>

text \<open>What \<^verbatim>\<open>leveldb/db.h\<close> says of operations whose status is OK, and of an iterator.\<close>

locale leveldb_laws =
  fixes ldb :: "'db leveldb"
    and view :: "'db \<Rightarrow> store"
  assumes get_ok: "ldb_get ldb d k = Some v \<Longrightarrow> view d k = Some v"
    and put_ok: "ldb_put ldb d k v = (True, d') \<Longrightarrow> view d' = (view d)(k \<mapsto> v)"
    and delete_ok: "ldb_delete ldb d k = (True, d') \<Longrightarrow> view d' = (view d)(k := None)"
    and entries_view: "map_of (ldb_entries ldb d) = view d"
    and entries_distinct: "distinct (map fst (ldb_entries ldb d))"

text \<open>The assumption about the disk: the status is never an error.\<close>

locale leveldb_store = leveldb_laws +
  assumes get_works: "view d k = Some v \<Longrightarrow> ldb_get ldb d k = Some v"
    and put_works: "fst (ldb_put ldb d k v)"
    and delete_works: "fst (ldb_delete ldb d k)"
begin

lemma get_view: "ldb_get ldb d k = view d k"
  using get_ok [of d k] get_works [of d k] by (cases "view d k"; cases "ldb_get ldb d k") simp_all

lemma put_view: "ldb_put ldb d k v = (ok, d') \<Longrightarrow> ok \<and> view d' = (view d)(k \<mapsto> v)"
  using put_ok [of d k v d'] put_works [of d k v] by simp

lemma delete_view: "ldb_delete ldb d k = (ok, d') \<Longrightarrow> ok \<and> view d' = (view d)(k := None)"
  using delete_ok [of d k d'] delete_works [of d k] by simp

lemma delete_keys_spec:
  "delete_keys ldb ks n d = (c, d') \<Longrightarrow>
   view d' = view d |` (- set ks) \<and> c = n + card (set ks \<inter> dom (view d))"
proof (induction ks arbitrary: n d)
  case Nil
  then show ?case by simp
next
  case (Cons k ks)
  obtain ok d1 where del: "ldb_delete ldb d k = (ok, d1)" by fastforce
  from delete_view [OF this] have ok: ok and v1: "view d1 = (view d)(k := None)" by auto
  have dom1: "dom (view d1) = dom (view d) - {k}" by (simp add: v1)
  let ?n = "if view d k \<noteq> None then n + 1 else n"
  have "delete_keys ldb ks ?n d1 = (c, d')"
    using Cons.prems ok del by (simp add: get_view)
  from Cons.IH [OF this] have v': "view d' = view d1 |` (- set ks)"
    and c: "c = ?n + card (set ks \<inter> (dom (view d) - {k}))"
    by (simp_all only: dom1)
  have "view d' = view d |` (- set (k # ks))"
    by (rule ext) (simp add: v' v1 restrict_map_def)
  moreover have "c = n + card (set (k # ks) \<inter> dom (view d))"
  proof (cases "view d k = None")
    case True
    then have "set (k # ks) \<inter> dom (view d) = set ks \<inter> (dom (view d) - {k})" by auto
    with True c show ?thesis by simp
  next
    case False
    then have "set (k # ks) \<inter> dom (view d) = insert k (set ks \<inter> (dom (view d) - {k}))" by auto
    with False c show ?thesis by simp
  qed
  ultimately show ?case by simp
qed

lemma handle_set_spec:
  "handle_set ldb (Set_Command i k v) d = (s, d') \<Longrightarrow>
   apply_command (Set_Command i k v) (view d) = (view d', s)"
  by (auto simp: handle_set_def Let_def split: prod.splits dest!: put_view)

lemma handle_del_spec:
  assumes "handle_del ldb (Del_Command i ks) d = (s, d')"
  shows "apply_command (Del_Command i ks) (view d) = (view d', s)"
proof -
  obtain c where c: "delete_keys ldb ks 0 d = (c, d')" "s = deleted_string c"
    using assms by (auto simp: handle_del_def deleted_string_def split: prod.splits)
  with delete_keys_spec [OF c(1)] show ?thesis by simp
qed

lemma dispatch_refines:
  assumes "is_update c"
  shows "\<exists>h. dispatchers ldb (cmd_type c) = Some h
           \<and> (\<forall>d s d'. h c d = (s, d') \<longrightarrow> apply_command c (view d) = (view d', s))"
proof (cases c)
  case (Set_Command i k v)
  then show ?thesis using handle_set_spec [of i k v] by (simp add: dispatchers_def)
next
  case (Del_Command i ks)
  then show ?thesis
    using handle_del_spec [of i ks] by (simp add: dispatchers_def cmd_tags)
qed (use assms in simp)

lemma commit_next:
  assumes "is_update c" "pt_requests p = Some c # rest" "cmd_id c = pt_next_id p"
  shows "\<exists>p'. commit_handler ldb (pt_next_id p) p =
             Inr (snd (apply_command c (view (pt_db p))), p')
           \<and> view (pt_db p') = fst (apply_command c (view (pt_db p)))
           \<and> pt_next_id p' = pt_next_id p + 1 \<and> pt_requests p' = rest"
proof -
  obtain h where h: "dispatchers ldb (cmd_type c) = Some h"
    and spec: "\<And>d s d'. h c d = (s, d') \<Longrightarrow> apply_command c (view d) = (view d', s)"
    using dispatch_refines [OF assms(1)] by blast
  obtain s d' where hd: "h c (pt_db p) = (s, d')" by fastforce
  from spec [OF this] h hd assms(2,3) show ?thesis
    by (simp add: commit_handler_def Let_def)
qed

lemma recover_pairs_spec:
  "list_all pair_small es \<Longrightarrow> i = length pre \<Longrightarrow>
   \<exists>db'. recover_pairs ldb be (pre @ concat (map (encode_pair []) es)) i db = Inr (True, db')
       \<and> view db' = fold (\<lambda>(k, v) m. m(k \<mapsto> v)) es (view db)"
proof (induction es arbitrary: pre i db)
  case Nil
  then show ?case by (subst recover_pairs.simps) simp
next
  case (Cons kv es)
  obtain k v where kv: "kv = (k, v)" by fastforce
  obtain ok db1 where put: "ldb_put ldb db k v = (ok, db1)" by fastforce
  from put_view [OF put] have ok: ok and v1: "view db1 = (view db)(k \<mapsto> v)" by auto
  let ?dat = "pre @ concat (map (encode_pair []) (kv # es))"
  let ?j = "i + length (encode_pair [] (k, v))"
  have "recover_pairs ldb be ?dat i db = recover_pairs ldb be ?dat ?j db1"
    using recover_pairs_step [of ?dat pre k v "concat (map (encode_pair []) es)" i ldb be db]
      Cons.prems put ok by (simp add: kv)
  with Cons.IH [of ?j "pre @ encode_pair [] (k, v)" db1] Cons.prems show ?case
    by (simp add: kv v1)
qed

lemma fold_map_upd_distinct:
  "distinct (map fst es) \<Longrightarrow> fold (\<lambda>(k, v) m. m(k \<mapsto> v)) es m = m ++ map_of es"
proof (induction es arbitrary: m)
  case (Cons kv es)
  obtain k v where kv: "kv = (k, v)" by fastforce
  have "map_of es k = None" using Cons.prems by (simp add: kv map_of_eq_None_iff)
  with Cons show ?case by (auto simp: kv map_add_def fun_eq_iff split: option.splits)
qed simp

lemma snapshot_recover:
  assumes "list_all pair_small (ldb_entries ldb src)"
  shows "\<exists>db'. recover_pairs ldb be (foldl encode_pair [] (ldb_entries ldb src)) 0 db = Inr (True, db')
           \<and> view db' = view db ++ view src"
  using recover_pairs_spec [OF assms, of 0 "[]"] fold_map_upd_distinct [OF entries_distinct]
  by (simp add: foldl_encode_pair entries_view)

lemma recover_deletes_spec:
  "\<exists>db'. recover_deletes ldb ks db = (True, db') \<and> view db' = view db |` (- set ks)"
proof (induction ks arbitrary: db)
  case (Cons k ks)
  obtain ok db1 where del: "ldb_delete ldb db k = (ok, db1)" by fastforce
  from delete_view [OF del] have ok: ok and v1: "view db1 = (view db)(k := None)" by auto
  from Cons [of db1] del ok show ?case
    by (auto simp: v1 fun_eq_iff restrict_map_def)
qed (simp add: restrict_map_def)

lemma recover_handler_spec:
  assumes "list_all pair_small (ldb_entries ldb src)"
  shows "\<exists>p'. recover_handler ldb be (foldl encode_pair [] (ldb_entries ldb src)) ks p = Inr (True, p')
           \<and> view (pt_db p') = (view (pt_db p) |` (- set ks)) ++ view src
           \<and> pt_next_id p' = pt_next_id p \<and> pt_requests p' = pt_requests p"
proof -
  obtain db1 where 1: "recover_deletes ldb ks (pt_db p) = (True, db1)"
    "view db1 = view (pt_db p) |` (- set ks)" using recover_deletes_spec by blast
  from snapshot_recover [OF assms, of be db1] 1 show ?thesis
    by (auto simp: recover_handler_def)
qed

end

text \<open>
  A reference store: the ordered map LevelDB documents itself to be, kept in memory. It
  witnesses that the laws can hold, with and without the assumption about the disk.
\<close>

definition memtable :: "(string, string) omap leveldb" where
  "memtable =
     \<lparr>ldb_get = map_of, ldb_put = (\<lambda>d k v. (True, om_put k v d)),
      ldb_delete = (\<lambda>d k. (True, om_erase k d)),
      ldb_entries = (\<lambda>d. map (\<lambda>k. (k, the (map_of d k))) (sorted_list_of_set (fst ` set d)))\<rparr>"

interpretation mem: leveldb_store memtable map_of
proof
  fix d :: "(string, string) omap" and k v d'
  show "map_of d k = Some v" if "ldb_get memtable d k = Some v" using that by (simp add: memtable_def)
  show "ldb_get memtable d k = Some v" if "map_of d k = Some v" using that by (simp add: memtable_def)
  show "fst (ldb_put memtable d k v)" "fst (ldb_delete memtable d k)" by (simp_all add: memtable_def)
  show "map_of d' = (map_of d)(k \<mapsto> v)" if "ldb_put memtable d k v = (True, d')"
    using that by (auto simp: memtable_def map_of_om_put)
  show "map_of d' = (map_of d)(k := None)" if "ldb_delete memtable d k = (True, d')"
    using that by (auto simp: memtable_def map_of_om_erase)
  show "distinct (map fst (ldb_entries memtable d))" by (simp add: memtable_def comp_def)
  have "map_of (ldb_entries memtable d) k = map_of d k" for k
  proof (cases "k \<in> fst ` set d")
    case True
    then obtain v where "map_of d k = Some v" by (metis map_of_eq_None_iff option.exhaust)
    with True show ?thesis
      by (simp add: memtable_def map_of_map_restrict restrict_map_def)
  next
    case False
    then have "map_of d k = None" by (simp add: map_of_eq_None_iff)
    with False show ?thesis
      by (simp add: memtable_def map_of_map_restrict restrict_map_def)
  qed
  then show "map_of (ldb_entries memtable d) = map_of d" by blast
qed

text \<open>A full disk refuses to write; this is within the laws.\<close>

definition full_disk :: "(string, string) omap leveldb" where
  "full_disk = memtable\<lparr>ldb_put := (\<lambda>d k v. (False, d))\<rparr>"

interpretation full: leveldb_laws full_disk map_of
proof
  fix d :: "(string, string) omap" and k v d'
  show "map_of d k = Some v" if "ldb_get full_disk d k = Some v" using that by (simp add: full_disk_def memtable_def)
  show "map_of d' = (map_of d)(k \<mapsto> v)" if "ldb_put full_disk d k v = (True, d')"
    using that by (simp add: full_disk_def)
  show "map_of d' = (map_of d)(k := None)" if "ldb_delete full_disk d k = (True, d')"
    using that mem.delete_ok [of d k d'] by (simp add: full_disk_def)
  show "map_of (ldb_entries full_disk d) = map_of d" using mem.entries_view by (simp add: full_disk_def)
  show "distinct (map fst (ldb_entries full_disk d))" using mem.entries_distinct by (simp add: full_disk_def)
qed


section \<open>Restarting a node\<close>

lemma open_log_cmds: "open_log f cf = Inr m \<Longrightarrow> rm_cmds m = []"
  using init_records_loop_cmds by (auto simp: open_log_def init_records_eq)

lemma new_participant_eq:
  assumes "open_log f cf = Inr lg"
  shows "new_participant db f cf =
    participant_recovery \<lparr>pt_db = db, pt_log = lg, pt_requests = [], pt_next_id = 0, pt_started = False\<rparr>"
  using assms by (simp add: new_participant_def)

lemma restart_prepared:
  assumes "open_log f cf = Inr lg" "rm_records lg = [(k, r)]"
    "r_status r = RECORD_PREPARED" "r_id r \<noteq> 0"
  shows "\<exists>q. new_participant db f cf = Inr q \<and> pt_requests q = [None] \<and> pt_next_id q = r_id r"
  using assms open_log_cmds [OF assms(1)]
  by (simp add: new_participant_eq participant_recovery_def insert_request_def record_statuses)

lemma restart_committing:
  assumes "open_log f cf = Inr lg" "rm_records lg = (k, r) # rest" "r_status r = RECORD_COMMIT"
  shows "\<exists>e. new_participant db f cf = Inl e \<and> is_undefined e"
  using assms
  by (simp add: new_participant_eq participant_recovery_def insert_request_def)

lemma restart_idle:
  assumes "log_inv (pt_log p) ls" "rm_records (pt_log p) = []" "ls \<noteq> []"
    "r_next_id (last ls) = pt_next_id p"
  shows "\<exists>q. new_participant (pt_db p) (rm_file (pt_log p)) cf = Inr q \<and> pt_db q = pt_db p
           \<and> pt_requests q = [] \<and> pt_next_id q = pt_next_id p"
proof -
  obtain lg where lg: "open_log (rm_file (pt_log p)) cf = Inr lg" "rm_records lg = []"
    "rm_next_id lg = pt_next_id p"
    using open_log_inv [OF assms(1), of cf] assms by auto
  then show ?thesis by (simp add: new_participant_eq [OF lg(1)] participant_recovery_def)
qed

section \<open>Properties\<close>

text \<open>C20: committing the request at the head of the queue, when its id is the node's next
  id, does to the store what the command means, answers the client text the command means,
  takes the request off the queue and advances the next id by one.\<close>

theorem commit_applies_command:
  assumes "leveldb_store ldb view" "is_update c" "pt_requests p = Some c # rest"
    "cmd_id c = pt_next_id p"
  shows "\<exists>p'. commit_handler ldb (pt_next_id p) p =
             Inr (snd (apply_command c (view (pt_db p))), p')
           \<and> view (pt_db p') = fst (apply_command c (view (pt_db p)))
           \<and> pt_next_id p' = pt_next_id p + 1 \<and> pt_requests p' = rest"
  by (rule leveldb_store.commit_next [OF assms])

definition sample_node :: "(string, string) omap participant" where
  "sample_node =
     \<lparr>pt_db = [(''CS06142'', ''Cloud'')], pt_log = fresh_log,
      pt_requests = [Some (Del_Command 7 [''CS06142'', ''CS162''])], pt_next_id = 7,
      pt_started = True\<rparr>"

theorem commit_applies_command_witness:
  "\<exists>p'. commit_handler memtable 7 sample_node =
       Inr (deleted_string (card ({''CS06142'', ''CS162''} \<inter> {''CS06142''})), p')
     \<and> map_of (pt_db p') = [''CS06142'' \<mapsto> ''Cloud''] |` (- {''CS06142'', ''CS162''})
     \<and> pt_next_id p' = 8 \<and> pt_requests p' = []"
  using commit_applies_command [OF mem.leveldb_store_axioms, of "Del_Command 7 [''CS06142'', ''CS162'']"
      sample_node "[]"]
  by (simp add: sample_node_def)

text \<open>A COMMIT that is sent again after it was executed is answered with the empty
  string and changes nothing, unless the id is the largest 32-bit number: there the next id
  has wrapped to 0 and the node throws.\<close>

theorem commit_again:
  assumes "commit_handler ldb i p = Inr (s, p')" "pt_next_id p = i"
  shows "commit_handler ldb i p' =
    (if i = 2 ^ 32 - 1 then Inl (Server_Error ''the coordinator has not call RECOVER!'')
     else Inr ([], p'))"
proof -
  have n: "pt_next_id p' = i + 1"
    using assms
    by (auto simp: commit_handler_def Let_def split: list.splits option.splits if_splits prod.splits)
  show ?thesis
  proof (cases "i = 2 ^ 32 - 1")
    case True
    with n show ?thesis by (simp add: commit_handler_def)
  next
    case False
    moreover have "(2 ^ 32 - 1 :: u32) = - 1" by simp
    ultimately have "i < i + 1" by (metis word_less_Suc)
    with False n show ?thesis by (simp add: commit_handler_def)
  qed
qed

theorem commit_again_witness:
  "commit_handler memtable 7 (sample_node\<lparr>pt_db := [], pt_next_id := 8, pt_requests := [],
      pt_log := rm_log (make_record RECORD_COMMIT_DONE 7 8)
                  (rm_log (make_record RECORD_COMMIT 7 7) fresh_log)\<rparr>) =
   Inr ([], sample_node\<lparr>pt_db := [], pt_next_id := 8, pt_requests := [],
      pt_log := rm_log (make_record RECORD_COMMIT_DONE 7 8)
                  (rm_log (make_record RECORD_COMMIT 7 7) fresh_log)\<rparr>)"
proof -
  have "commit_handler memtable 7 sample_node =
    Inr ('':'' @ to_string 1 @ [CHR 13, CHR 10], sample_node\<lparr>pt_db := [], pt_next_id := 8, pt_requests := [],
      pt_log := rm_log (make_record RECORD_COMMIT_DONE 7 8)
                  (rm_log (make_record RECORD_COMMIT 7 7) fresh_log)\<rparr>)"
    by (simp add: commit_handler_def sample_node_def dispatchers_def handle_del_def memtable_def
        cmd_tags om_erase_def Let_def)
  from commit_again [OF this] show ?thesis by (simp add: sample_node_def)
qed

text \<open>ABORT is always answered with true and never touches the store. When the id is the
  node's next id the head of the queue is dropped and the next id advances; a larger id moves
  the next id behind it, a smaller one changes nothing but the log.\<close>

theorem abort_effect:
  "\<exists>p'. abort_handler i p = Inr (True, p') \<and> pt_db p' = pt_db p
      \<and> pt_next_id p' = (if pt_next_id p \<le> i then i + 1 else pt_next_id p)
      \<and> pt_requests p' = (if pt_next_id p = i then drop 1 (pt_requests p) else pt_requests p)"
  by (auto simp: abort_handler_def Let_def)

text \<open>PREPARE of an update on a node with an empty queue answers true for every id and
  does not advance the next id: there is no check that the id is the node's next id.\<close>

theorem prepare_accepts_any_id:
  assumes "is_update c" "pt_requests p = []"
  shows "\<exists>p'. prepare_set c p = Inr (True, p') \<and> pt_requests p' = [Some c]
           \<and> pt_db p' = pt_db p \<and> pt_next_id p' = pt_next_id p"
  by (rule prepare_idle(1) [OF assms])

theorem prepare_accepts_any_id_witness:
  "\<exists>p'. prepare_set (Set_Command 99 ''k'' ''v'') (sample_node\<lparr>pt_requests := []\<rparr>) = Inr (True, p')
      \<and> pt_requests p' = [Some (Set_Command 99 ''k'' ''v'')]
      \<and> pt_db p' = pt_db sample_node \<and> pt_next_id p' = 7"
  using prepare_accepts_any_id [of "Set_Command 99 ''k'' ''v''" "sample_node\<lparr>pt_requests := []\<rparr>"]
  by (simp add: sample_node_def)

text \<open>C21: RECOVER with the snapshot of another node, on a machine of either byte order,
  answers true and leaves the other node's pairs over the node's own ones, without the keys
  in \<open>del_keys\<close>, provided keys and values are shorter than 32768 bytes. The node's queue and
  next id stay as they were.\<close>

theorem snapshot_recover_transfers:
  assumes "leveldb_store ldb view" "list_all pair_small (ldb_entries ldb (pt_db src))"
    "get_snapshot ldb src = Inr (dat, src')"
  shows "\<exists>p'. recover_handler ldb be dat ks p = Inr (True, p')
           \<and> view (pt_db p') = (view (pt_db p) |` (- set ks)) ++ view (pt_db src)
           \<and> pt_next_id p' = pt_next_id p \<and> pt_requests p' = pt_requests p"
  using leveldb_store.recover_handler_spec [OF assms(1,2), of be ks p] assms(3)
  by (auto simp: get_snapshot_def)

theorem snapshot_recover_transfers_witness:
  "\<exists>p'. recover_handler memtable True (foldl encode_pair [] [(''CS06142'', ''Cloud'')]) [''x'']
       (sample_node\<lparr>pt_db := [(''x'', ''1''), (''y'', ''2'')]\<rparr>) = Inr (True, p')
     \<and> map_of (pt_db p') =
         ([''x'' \<mapsto> ''1'', ''y'' \<mapsto> ''2''] |` (- {''x''})) ++ [''CS06142'' \<mapsto> ''Cloud'']
     \<and> pt_next_id p' = 7"
proof -
  have e: "ldb_entries memtable [(''CS06142'', ''Cloud'')] = [(''CS06142'', ''Cloud'')]"
    by (simp add: memtable_def)
  have "list_all pair_small (ldb_entries memtable (pt_db sample_node))"
    "get_snapshot memtable sample_node =
       Inr (foldl encode_pair [] [(''CS06142'', ''Cloud'')], sample_node)"
    using e by (simp_all add: sample_node_def pair_small_def get_snapshot_def)
  from snapshot_recover_transfers [OF mem.leveldb_store_axioms this, of True "[''x'']"
      "sample_node\<lparr>pt_db := [(''x'', ''1''), (''y'', ''2'')]\<rparr>"]
  show ?thesis by (simp add: sample_node_def) blast
qed

text \<open>A key between 32768 and 65535 bytes long is read back with a negative size: a
  snapshot that starts with such a pair sends RECOVER outside the buffer.\<close>

theorem snapshot_long_key_undefined:
  assumes "32768 \<le> length k" "length k < 65536"
  shows "\<exists>e. recover_pairs ldb be (encode_pair [] (k, v) @ rest) 0 db = Inl e \<and> is_undefined e"
proof -
  let ?dat = "encode_pair [] (k, v) @ rest"
  have "stored_size (length k) < 0" using assms by (simp add: stored_size_def)
  then have "take_item be ?dat 0 = Inl (Undefined ''item range outside the snapshot'')"
    using take_item_stored [of ?dat "[]" "length k" _ 0 be] by (simp add: encode_pair_def)
  moreover have "?dat \<noteq> []" by (simp add: encode_pair_def short_bytes_def)
  ultimately show ?thesis by (subst recover_pairs.simps) simp
qed

theorem snapshot_long_key_undefined_witness:
  "\<exists>e. recover_pairs memtable False
      (encode_pair [] (replicate 40000 (CHR ''k''), ''v'') @ []) 0 [] = Inl e \<and> is_undefined e"
  by (rule snapshot_long_key_undefined) simp_all

text \<open>A client that sets a key to some words separated by single blanks reads the same
  words back: GET after the commit of the SET answers the RESP array of the words, when no
  word holds a blank and the last one is not empty.\<close>

theorem get_after_set_returns_words:
  assumes "leveldb_store ldb view" "ws \<noteq> []" "last ws \<noteq> []" "\<forall>w \<in> set ws. CHR '' '' \<notin> set w"
    "pt_requests p = Some (Set_Command (pt_next_id p) k (join '' '' ws)) # rest"
  shows "\<exists>s p'. commit_handler ldb (pt_next_id p) p = Inr (s, p') \<and> s = update_ok_string
           \<and> get_handler ldb k p' = Inr (resp_array ws, p')"
proof -
  let ?c = "Set_Command (pt_next_id p) k (join '' '' ws)"
  obtain p' where p': "commit_handler ldb (pt_next_id p) p =
      Inr (snd (apply_command ?c (view (pt_db p))), p')"
    "view (pt_db p') = fst (apply_command ?c (view (pt_db p)))"
    using leveldb_store.commit_next [OF assms(1) _ assms(5)] by auto
  then show ?thesis
    using leveldb_store.get_view [OF assms(1), of "pt_db p'" k] getlines_join [OF assms(2-4)]
    by (simp add: get_handler_def encode_result_resp)
qed

theorem get_after_set_returns_words_witness:
  "\<exists>s p'. commit_handler memtable 7 (sample_node\<lparr>pt_requests :=
        [Some (Set_Command 7 ''CS06142'' (join '' '' [''Cloud'', ''Computing'']))]\<rparr>) = Inr (s, p')
      \<and> s = update_ok_string
      \<and> get_handler memtable ''CS06142'' p' = Inr (resp_array [''Cloud'', ''Computing''], p')"
  using get_after_set_returns_words [OF mem.leveldb_store_axioms,
      of "[''Cloud'', ''Computing'']" "sample_node\<lparr>pt_requests :=
        [Some (Set_Command 7 ''CS06142'' (join '' '' [''Cloud'', ''Computing'']))]\<rparr>"]
  by (simp add: sample_node_def)

text \<open>A node that is stopped after it answered PREPARE and started again on its log holds
  a null pointer in place of the prepared command, and the COMMIT the coordinator then sends
  dereferences it.\<close>

theorem restart_after_prepare_loses_command:
  assumes "log_inv (pt_log p) ls" "rm_records (pt_log p) = []" "pt_requests p = []"
    "is_update c" "cmd_id c \<noteq> 0"
  shows "\<exists>p' q e. prepare_set c p = Inr (True, p')
           \<and> new_participant db (rm_file (pt_log p')) (rm_cmd_file (pt_log p')) = Inr q
           \<and> commit_handler ldb (cmd_id c) q = Inl e \<and> is_undefined e"
proof -
  obtain b where b: "encode_command (Some c) = Inr b" using encode_command_update [OF assms(4)] by blast
  let ?r = "make_record RECORD_PREPARED (cmd_id c) (pt_next_id p)"
  let ?lg = "rm_log ?r ((pt_log p)\<lparr>rm_cmd_file := rm_cmd_file (pt_log p) @ b\<rparr>)"
  have prep: "prepare_set c p = Inr (True, p\<lparr>pt_log := ?lg, pt_requests := [Some c]\<rparr>)"
    using b assms(3)
    by (simp add: prepare_set_def log_and_queue_def rm_log_command_def
        insert_request_def)
  have inv: "log_inv ?lg (log_after ?r ls)"
    using assms(1) by (intro log_inv_rm_log) (simp add: log_inv_def)
  have recs: "rm_records ?lg = [(cmd_id c, ?r)]"
    using assms(2) by (simp add: rm_records_rm_log make_record_def is_done_status_def
        record_statuses om_put_def)
  obtain lg where lg: "open_log (rm_file ?lg) (rm_cmd_file ?lg) = Inr lg" "rm_records lg = rm_records ?lg"
    using open_log_inv [OF inv] by blast
  obtain q where q: "new_participant db (rm_file ?lg) (rm_cmd_file ?lg) = Inr q"
      "pt_requests q = [None]" "pt_next_id q = cmd_id c"
    using restart_prepared [OF lg(1), of "cmd_id c" ?r db] lg(2) recs assms(5)
    by (auto simp: make_record_def)
  then have "commit_handler ldb (cmd_id c) q = Inl (Undefined ''null command dereferenced'')"
    by (simp add: commit_handler_def)
  with prep q(1) show ?thesis by (intro exI conjI) auto
qed

theorem restart_after_prepare_loses_command_witness:
  "\<exists>p' q e. prepare_set (Set_Command 7 ''k'' ''v'') (sample_node\<lparr>pt_requests := []\<rparr>) = Inr (True, p')
      \<and> new_participant [] (rm_file (pt_log p')) (rm_cmd_file (pt_log p')) = Inr q
      \<and> commit_handler memtable 7 q = Inl e \<and> is_undefined e"
  using restart_after_prepare_loses_command [of "sample_node\<lparr>pt_requests := []\<rparr>" "[]"
      "Set_Command 7 ''k'' ''v''" "[]" memtable] log_inv_fresh
  by (simp add: sample_node_def fresh_log_def)

text \<open>A node whose log shows a COMMIT without its DONE record does not come up again: its
  recovery locks the request mutex a second time.\<close>

theorem restart_while_committing_deadlocks:
  assumes "open_log f cf = Inr lg" "rm_records lg = (k, r) # rest" "r_status r = RECORD_COMMIT"
  shows "\<exists>e. new_participant db f cf = Inl e \<and> is_undefined e"
  by (rule restart_committing [OF assms])

theorem restart_while_committing_deadlocks_witness:
  "\<exists>e. new_participant ([] :: (string, string) omap)
       (log_bytes [make_record RECORD_PREPARED 7 7, make_record RECORD_COMMIT 7 7]) [] = Inl e
     \<and> is_undefined e"
  by (rule restart_while_committing_deadlocks [OF open_log_log_bytes, where k = 7
        and r = "make_record RECORD_COMMIT 7 7" and rest = "[]"])
    (simp_all add: absorb_record_def fresh_log_def make_record_def is_done_status_def
      record_statuses om_put_def)

text \<open>A node that was removed between PREPARE and COMMIT and is brought back by RECOVER
  and SET_NEXT_ID keeps the stale request: the next update it is asked to commit makes it
  throw, although it answered PREPARE with true.\<close>

theorem stale_request_blocks_recovered_node:
  assumes "pt_requests p = [Some c0]" "cmd_id c0 < cmd_id c" "is_update c"
    "recover_handler ldb be dat ks p = Inr (done, p1)"
    "set_next_id_handler (cmd_id c) p1 = Inr (u, p2)"
  shows "\<exists>p3. prepare_set c p2 = Inr (True, p3)
           \<and> commit_handler ldb (cmd_id c) p3 =
               Inl (Server_Error ''the coordinator has sent multiple PREPARE!'')"
proof -
  have "pt_requests p1 = pt_requests p"
    using assms(4) by (auto simp: recover_handler_def split: prod.splits if_splits)
  then have p2: "pt_requests p2 = [Some c0]" "pt_next_id p2 = cmd_id c"
    using assms(1,5) by (auto simp: set_next_id_handler_def)
  obtain b where "encode_command (Some c) = Inr b" using encode_command_update [OF assms(3)] by blast
  then obtain p3 where "prepare_set c p2 = Inr (True, p3)" "pt_requests p3 = [Some c0, Some c]"
    "pt_next_id p3 = cmd_id c"
    using p2 assms(2) order_less_not_sym [OF assms(2)] order_less_imp_not_eq2 [OF assms(2)]
    by (auto simp: prepare_set_def log_and_queue_def rm_log_command_def
        insert_request_def)
  then show ?thesis using assms(2) by (auto simp: commit_handler_def)
qed

theorem stale_request_blocks_recovered_node_witness:
  "\<exists>p3. prepare_set (Set_Command 8 ''k'' ''v'') (sample_node\<lparr>pt_next_id := 8\<rparr>) = Inr (True, p3)
      \<and> commit_handler memtable 8 p3 =
          Inl (Server_Error ''the coordinator has sent multiple PREPARE!'')"
  using stale_request_blocks_recovered_node [of sample_node "Del_Command 7 [''CS06142'', ''CS162'']"
      "Set_Command 8 ''k'' ''v''" memtable False "[]" "[]" True sample_node "()"
      "sample_node\<lparr>pt_next_id := 8\<rparr>"]
  by (simp add: sample_node_def recover_handler_def set_next_id_handler_def recover_pairs.simps)

text \<open>A node with no unfinished record whose last logged next id is its own comes back
  from a restart with the same store, the same next id and an empty queue.\<close>

theorem restart_idle_keeps_next_id:
  assumes "log_inv (pt_log p) ls" "rm_records (pt_log p) = []" "ls \<noteq> []"
    "r_next_id (last ls) = pt_next_id p"
  shows "\<exists>q. new_participant (pt_db p) (rm_file (pt_log p)) cf = Inr q \<and> pt_db q = pt_db p
           \<and> pt_requests q = [] \<and> pt_next_id q = pt_next_id p"
  by (rule restart_idle [OF assms])

theorem restart_idle_keeps_next_id_witness:
  "\<exists>q. new_participant [(''a'', ''b'')]
         (rm_file (rm_log (make_record RECORD_COMMIT_DONE 7 8) fresh_log)) [] = Inr q
     \<and> pt_db q = [(''a'', ''b'')] \<and> pt_requests q = [] \<and> pt_next_id q = 8"
  using restart_idle_keeps_next_id [of
      "\<lparr>pt_db = [(''a'', ''b'')], pt_log = rm_log (make_record RECORD_COMMIT_DONE 7 8) fresh_log,
        pt_requests = [], pt_next_id = 8, pt_started = True\<rparr>"
      "log_after (make_record RECORD_COMMIT_DONE 7 8) []" "[]"]
    log_inv_rm_log [OF log_inv_fresh] last_log_after
  by (simp add: rm_records_rm_log make_record_def is_done_status_def fresh_log_def om_erase_def)

end
