(* ===== verification/Configuration.thy ===== *)
theory Configuration
  imports Cpp_Prelude
begin

text \<open>
  Configuration, \<^verbatim>\<open>Lab3/src/configuration.hpp\<close> and \<^verbatim>\<open>configuration.cpp\<close>, and the
  start-up program \<^verbatim>\<open>kvstore2pcsystem.cpp\<close>: reading a configuration file, parsing the
  address lists of the command line, and how \<^verbatim>\<open>main\<close> combines the two into the object a
  coordinator or a participant is started with. The flag parser is third-party code: its
  result is a parameter.
\<close>

section \<open>Configuration objects\<close>

datatype mode_t = COORDINATOR | PARTICIPANT | UNKNOWN

text \<open>The port has no initialiser in the base class: \<open>None\<close> is the indeterminate value.\<close>

record configuration =
  c_mode :: mode_t
  c_addr :: string
  c_port :: "u16 option"
  c_num_workers :: u64

record coordinator_configuration = configuration +
  participant_addrs :: "string list"
  participant_ports :: "u16 list"

record participant_configuration = configuration +
  coordinator_addr :: string
  coordinator_port :: u16
  storage_path :: string

definition new_coordinator_configuration :: coordinator_configuration where
  "new_coordinator_configuration =
     \<lparr>c_mode = COORDINATOR, c_addr = [], c_port = None, c_num_workers = 2,
      participant_addrs = [], participant_ports = []\<rparr>"

definition new_participant_configuration :: participant_configuration where
  "new_participant_configuration =
     \<lparr>c_mode = PARTICIPANT, c_addr = [], c_port = None, c_num_workers = 2,
      coordinator_addr = ''127.0.0.1'', coordinator_port = 8080, storage_path = ''/tmp/testdb''\<rparr>"

text \<open>
  The move constructors build the base part anew and move the address and port; the move
  assignments leave the base part of the target in place. Neither touches \<^verbatim>\<open>num_workers\<close>.
\<close>

definition move_coordinator_configuration ::
    "coordinator_configuration \<Rightarrow> coordinator_configuration" where
  "move_coordinator_configuration conf =
     new_coordinator_configuration
       \<lparr>participant_addrs := participant_addrs conf, participant_ports := participant_ports conf,
        c_addr := c_addr conf, c_port := c_port conf\<rparr>"

definition move_participant_configuration ::
    "participant_configuration \<Rightarrow> participant_configuration" where
  "move_participant_configuration conf =
     new_participant_configuration
       \<lparr>coordinator_addr := coordinator_addr conf, coordinator_port := coordinator_port conf,
        storage_path := storage_path conf, c_addr := c_addr conf, c_port := c_port conf\<rparr>"

definition assign_coordinator_configuration ::
    "coordinator_configuration \<Rightarrow> coordinator_configuration \<Rightarrow> coordinator_configuration" where
  "assign_coordinator_configuration this conf =
     this\<lparr>participant_addrs := participant_addrs conf, participant_ports := participant_ports conf,
          c_addr := c_addr conf, c_port := c_port conf\<rparr>"

definition assign_participant_configuration ::
    "participant_configuration \<Rightarrow> participant_configuration \<Rightarrow> participant_configuration" where
  "assign_participant_configuration this conf =
     this\<lparr>coordinator_addr := coordinator_addr conf, coordinator_port := coordinator_port conf,
          storage_path := storage_path conf, c_addr := c_addr conf, c_port := c_port conf\<rparr>"

section \<open>The configuration manager\<close>

text \<open>A \<^verbatim>\<open>configuration *\<close> points to one of the two classes; its mode is that of the class.\<close>

datatype any_configuration =
    Coordinator_Conf coordinator_configuration
  | Participant_Conf participant_configuration

definition get_option :: "string \<Rightarrow> (string \<times> string) option" where
  "get_option line =
     (let op = takeWhile (\<lambda>c. c \<noteq> CHR '' '' \<and> c \<noteq> CHR 9 \<and> c \<noteq> CHR 13) line
      in if length op = length line then None else Some (op, drop (length op + 1) line))"

text \<open>Both address fields: \<open>ip:port\<close>, the port read by \<^verbatim>\<open>stoi\<close> and cut to 16 bits.\<close>

definition split_info :: "string \<Rightarrow> (string \<times> u16) result" where
  "split_info value =
     (case getline (CHR '':'') value of
        None \<Rightarrow> Inl (Config_Error ''invalid info'')
      | Some (ip, rest) \<Rightarrow>
          (case getline (CHR 10) rest of
             None \<Rightarrow> Inl (Config_Error ''invalid info'')
           | Some (port, _) \<Rightarrow>
               try_catch (res_bind (stoi port) (\<lambda>n. Inr (ip, word_of_int n)))
                 (\<lambda>_. Inl (Config_Error ''invalid info''))))"

definition coordinator_info :: "any_configuration \<Rightarrow> string \<Rightarrow> any_configuration result" where
  "coordinator_info conf value =
     res_bind (split_info value) (\<lambda>(ip, port).
       Inr (case conf of
              Coordinator_Conf c \<Rightarrow> Coordinator_Conf (c\<lparr>c_addr := ip, c_port := Some port\<rparr>)
            | Participant_Conf c \<Rightarrow>
                Participant_Conf (c\<lparr>coordinator_addr := ip, coordinator_port := port\<rparr>)))"

definition participant_info :: "any_configuration \<Rightarrow> string \<Rightarrow> any_configuration result" where
  "participant_info conf value =
     res_bind (split_info value) (\<lambda>(ip, port).
       Inr (case conf of
              Coordinator_Conf c \<Rightarrow>
                Coordinator_Conf (c\<lparr>participant_addrs := participant_addrs c @ [ip],
                                    participant_ports := participant_ports c @ [port]\<rparr>)
            | Participant_Conf c \<Rightarrow> Participant_Conf (c\<lparr>c_addr := ip, c_port := Some port\<rparr>)))"

definition num_workers :: "any_configuration \<Rightarrow> string \<Rightarrow> any_configuration result" where
  "num_workers conf value =
     try_catch (res_bind (stoul value) (\<lambda>n.
       Inr (case conf of
              Coordinator_Conf c \<Rightarrow> Coordinator_Conf (c\<lparr>c_num_workers := n\<rparr>)
            | Participant_Conf c \<Rightarrow> Participant_Conf (c\<lparr>c_num_workers := n\<rparr>))))
       (\<lambda>_. Inl (Config_Error ''invalid number of workers''))"

fun set_storage_path :: "any_configuration \<Rightarrow> string \<Rightarrow> any_configuration result" where
  "set_storage_path (Coordinator_Conf c) value =
     Inl (Config_Error ''storage path specified in coordinator configuration'')"
| "set_storage_path (Participant_Conf c) value =
     Inr (Participant_Conf (c\<lparr>storage_path := value\<rparr>))"

text \<open>The table of setters the constructor fills.\<close>

definition field_setter ::
    "string \<Rightarrow> (any_configuration \<Rightarrow> string \<Rightarrow> any_configuration result) option" where
  "field_setter op =
     (if op = ''coordinator_info'' then Some coordinator_info
      else if op = ''participant_info'' then Some participant_info
      else if op = ''num_workers'' then Some num_workers
      else if op = ''storage_path'' then Some set_storage_path
      else None)"

definition conf_line :: "string \<Rightarrow> any_configuration option \<Rightarrow> any_configuration option result" where
  "conf_line line ret =
     (if line = [] \<or> hd line = CHR ''!'' then Inr ret
      else case get_option line of
             None \<Rightarrow> Inl (Server_Error ''invalid configuration file'')
           | Some (op, value) \<Rightarrow>
               (case ret of
                  None \<Rightarrow>
                    if op = ''mode'' \<and> value = ''coordinator''
                    then Inr (Some (Coordinator_Conf new_coordinator_configuration))
                    else if op = ''mode'' \<and> value = ''participant''
                    then Inr (Some (Participant_Conf new_participant_configuration))
                    else Inl (Config_Error ''first field is not mode'')
                | Some conf \<Rightarrow>
                    (case field_setter op of
                       None \<Rightarrow> Inl (Config_Error ''unknown configuration field'')
                     | Some setter \<Rightarrow> res_bind (setter conf value) (\<lambda>c. Inr (Some c)))))"

fun conf_lines :: "string list \<Rightarrow> any_configuration option \<Rightarrow> any_configuration option result" where
  "conf_lines [] ret = Inr ret"
| "conf_lines (line # lines) ret = res_bind (conf_line line ret) (conf_lines lines)"

text \<open>\<open>None\<close> is a file that cannot be opened; the result is a null pointer when no line sets the mode.\<close>

definition get_conf :: "string option \<Rightarrow> any_configuration option result" where
  "get_conf file =
     (case file of
        None \<Rightarrow> Inl (Server_Error ''configuration file does not exist'')
      | Some text \<Rightarrow> conf_lines (getlines (CHR 10) text) None)"

section \<open>The start-up program\<close>

definition split_addr :: "string \<Rightarrow> (string \<times> u16) option" where
  "split_addr addr =
     (case getline (CHR '':'') addr of
        None \<Rightarrow> None
      | Some (ip, rest) \<Rightarrow>
          (case getline (CHR 10) rest of
             None \<Rightarrow> None
           | Some (port_str, _) \<Rightarrow>
               (case stoi port_str of Inl _ \<Rightarrow> None | Inr n \<Rightarrow> Some (ip, word_of_int n))))"

fun parse_addr_list :: "string list \<Rightarrow> string list \<Rightarrow> u16 list \<Rightarrow> (string list \<times> u16 list) option" where
  "parse_addr_list [] ips ports = Some (ips, ports)"
| "parse_addr_list (addr # rest) ips ports =
     (case split_addr addr of
        None \<Rightarrow> None
      | Some (ip, port) \<Rightarrow> parse_addr_list rest (ips @ [ip]) (ports @ [port]))"

definition parse_addrs :: "string \<Rightarrow> (string list \<times> u16 list) option" where
  "parse_addrs addrs = parse_addr_list (getlines (CHR '';'') addrs) [] []"

record flags =
  f_help :: bool
  f_mode :: string
  f_ip :: string
  f_port :: u16
  f_config_path :: string
  f_participant_addrs :: string
  f_coordinator_addr :: string

datatype outcome =
    Printed_Help
  | Aborted string
  | Runs_Coordinator coordinator_configuration
  | Runs_Participant participant_configuration

definition main_coordinator :: "flags \<Rightarrow> any_configuration option \<Rightarrow> outcome result" where
  "main_coordinator fl conf_ptr =
     (case (case conf_ptr of
              None \<Rightarrow> Inr new_coordinator_configuration
            | Some (Coordinator_Conf c) \<Rightarrow>
                Inr (assign_coordinator_configuration new_coordinator_configuration c)
            | Some (Participant_Conf _) \<Rightarrow> Inl (Config_Error ''misamatching config'')) of
        Inl e \<Rightarrow> Inl e
      | Inr conf0 \<Rightarrow>
          (let conf1 = (if f_ip fl \<noteq> [] then conf0\<lparr>c_addr := f_ip fl\<rparr> else conf0);
               conf2 = (if f_port fl \<noteq> 0 then conf1\<lparr>c_port := Some (f_port fl)\<rparr> else conf1)
           in if participant_addrs conf2 = [] \<and> f_participant_addrs fl = []
              then Inr (Aborted ''coordinator was started with no participants'')
              else case (if f_participant_addrs fl = [] then Some ([], [])
                         else parse_addrs (f_participant_addrs fl)) of
                     None \<Rightarrow> Inr (Aborted ''invalid participant addresses'')
                   | Some (ip_addrs, ports) \<Rightarrow>
                       (let conf3 = (if ip_addrs \<noteq> []
                             then conf2\<lparr>participant_addrs := ip_addrs, participant_ports := ports\<rparr>
                             else conf2)
                        in Inr (Runs_Coordinator (move_coordinator_configuration conf3)))))"

definition main_participant :: "flags \<Rightarrow> any_configuration option \<Rightarrow> outcome result" where
  "main_participant fl conf_ptr =
     (case (case conf_ptr of
              None \<Rightarrow> Inr new_participant_configuration
            | Some (Participant_Conf c) \<Rightarrow>
                Inr (assign_participant_configuration new_participant_configuration c)
            | Some (Coordinator_Conf _) \<Rightarrow> Inl (Config_Error ''misamatching config'')) of
        Inl e \<Rightarrow> Inl e
      | Inr conf0 \<Rightarrow>
          (let conf1 = (if f_ip fl \<noteq> [] then conf0\<lparr>c_addr := f_ip fl\<rparr> else conf0);
               conf2 = (if f_port fl \<noteq> 0 then conf1\<lparr>c_port := Some (f_port fl)\<rparr> else conf1)
           in if coordinator_addr conf2 = [] \<and> f_coordinator_addr fl = []
              then Inr (Aborted ''participant was started with no coordinator'')
              else case (if f_coordinator_addr fl = [] then Some ([], [])
                         else parse_addrs (f_coordinator_addr fl)) of
                     None \<Rightarrow> Inr (Aborted ''invalid coordinator address'')
                   | Some (ip, port) \<Rightarrow>
                       (let conf3 = (if ip \<noteq> []
                             then conf2\<lparr>coordinator_addr := hd ip, coordinator_port := hd port\<rparr>
                             else conf2)
                        in Inr (Runs_Participant (move_participant_configuration conf3)))))"

text \<open>\<open>parsed\<close> is what the flag parser yields (\<open>None\<close>: it rejects the command line), \<open>file\<close> the
  contents of the configuration file.\<close>

definition main_program :: "flags option \<Rightarrow> string option \<Rightarrow> outcome result" where
  "main_program parsed file =
     (case parsed of
        None \<Rightarrow> Inr (Aborted ''flags'')
      | Some fl \<Rightarrow>
          if f_help fl then Inr Printed_Help
          else res_bind (if f_config_path fl \<noteq> [] then get_conf file else Inr None) (\<lambda>conf_ptr.
            if f_mode fl = ''coordinator'' \<or> (\<exists>c. conf_ptr = Some (Coordinator_Conf c))
            then main_coordinator fl conf_ptr
            else main_participant fl conf_ptr))"

section \<open>Reading back a configuration\<close>

lemma stoi_port: "n < 65536 \<Longrightarrow> stoi (to_string n) = Inr (int n)"
  by (simp add: stoi_def in_range_to_string)

text \<open>Names without the characters that delimit them; \<open>addr_string\<close> writes an address.\<close>

definition addr_string :: "string \<times> nat \<Rightarrow> string" where
  "addr_string a = fst a @ '':'' @ to_string (snd a)"

definition addr_ok :: "string \<times> nat \<Rightarrow> bool" where
  "addr_ok a \<longleftrightarrow> CHR '':'' \<notin> set (fst a) \<and> CHR '';'' \<notin> set (fst a) \<and> CHR 10 \<notin> set (fst a)
     \<and> snd a < 65536"

lemma to_string_not_in:
  "\<not> is_digit c \<Longrightarrow> c \<notin> set (to_string n)"
  using to_string_digits by blast

lemma non_digits [simp]:
  "\<not> is_digit (CHR '':'')" "\<not> is_digit (CHR '';'')" "\<not> is_digit (CHR 10)"
  by (simp_all add: is_digit_iff)

lemma getline_all:
  assumes "d \<notin> set s" "s \<noteq> []"
  shows "getline d s = Some (s, [])"
proof -
  have "takeWhile (\<lambda>c. c \<noteq> d) s = s" "dropWhile (\<lambda>c. c \<noteq> d) s = []"
    using assms(1) by (auto simp: takeWhile_eq_all_conv dropWhile_eq_Nil_conv)
  then show ?thesis
    using assms(2) by (simp add: getline_def del: takeWhile_eq_all_conv dropWhile_eq_Nil_conv)
qed

lemma split_addr_string:
  "addr_ok a \<Longrightarrow> split_addr (addr_string a) = Some (fst a, word_of_nat (snd a))"
  by (simp add: split_addr_def addr_string_def addr_ok_def getline_delim getline_all
      to_string_not_in stoi_port)

lemma split_info_string:
  "addr_ok a \<Longrightarrow> split_info (addr_string a) = Inr (fst a, word_of_nat (snd a))"
  by (simp add: split_info_def addr_string_def addr_ok_def getline_delim getline_all
      to_string_not_in stoi_port)

lemma addr_string_chars:
  assumes "addr_ok a"
  shows "CHR '';'' \<notin> set (addr_string a)" "CHR 10 \<notin> set (addr_string a)"
  using assms to_string_not_in by (auto simp: addr_string_def addr_ok_def)

lemma getlines_terminated:
  "\<forall>w \<in> set ws. d \<notin> set w \<Longrightarrow> getlines d (concat (map (\<lambda>w. w @ [d]) ws)) = ws"
  by (induction ws) (simp_all add: getlines_delim)

lemma parse_addr_list_strings:
  "list_all addr_ok as \<Longrightarrow>
   parse_addr_list (map addr_string as) ips ports =
     Some (ips @ map fst as, ports @ map (word_of_nat \<circ> snd) as)"
  by (induction as arbitrary: ips ports) (simp_all add: split_addr_string)

text \<open>A configuration file for a coordinator, as its operator writes it.\<close>

definition field_line :: "string \<Rightarrow> string \<times> nat \<Rightarrow> string" where
  "field_line op a = op @ CHR '' '' # addr_string a"

definition coordinator_conf_file :: "string \<times> nat \<Rightarrow> (string \<times> nat) list \<Rightarrow> string" where
  "coordinator_conf_file me ps =
     concat (map (\<lambda>w. w @ [CHR 10])
       (''mode coordinator'' # field_line ''coordinator_info'' me
        # map (field_line ''participant_info'') ps))"

lemma get_option_field:
  "set op \<inter> {CHR '' '', CHR 9, CHR 13} = {} \<Longrightarrow> get_option (op @ CHR '' '' # v) = Some (op, v)"
proof -
  assume "set op \<inter> {CHR '' '', CHR 9, CHR 13} = {}"
  then have "takeWhile (\<lambda>c. c \<noteq> CHR '' '' \<and> c \<noteq> CHR 9 \<and> c \<noteq> CHR 13) (op @ CHR '' '' # v) = op"
    by (subst takeWhile_append2) auto
  then show ?thesis by (simp add: get_option_def)
qed

lemma conf_line_participant:
  assumes "addr_ok a"
  shows "conf_line (field_line ''participant_info'' a) (Some (Coordinator_Conf c)) =
    Inr (Some (Coordinator_Conf (c\<lparr>participant_addrs := participant_addrs c @ [fst a],
                                   participant_ports := participant_ports c @ [word_of_nat (snd a)]\<rparr>)))"
  using get_option_field [of "''participant_info''" "addr_string a"]
  by (simp add: conf_line_def field_line_def field_setter_def participant_info_def split_info_string [OF assms])

lemma conf_line_coordinator:
  assumes "addr_ok a"
  shows "conf_line (field_line ''coordinator_info'' a) (Some (Coordinator_Conf c)) =
    Inr (Some (Coordinator_Conf (c\<lparr>c_addr := fst a, c_port := Some (word_of_nat (snd a))\<rparr>)))"
  using get_option_field [of "''coordinator_info''" "addr_string a"]
  by (simp add: conf_line_def field_line_def field_setter_def coordinator_info_def split_info_string [OF assms])

lemma conf_lines_participants:
  "list_all addr_ok ps \<Longrightarrow>
   conf_lines (map (field_line ''participant_info'') ps) (Some (Coordinator_Conf c)) =
     Inr (Some (Coordinator_Conf (c\<lparr>participant_addrs := participant_addrs c @ map fst ps,
            participant_ports := participant_ports c @ map (word_of_nat \<circ> snd) ps\<rparr>)))"
proof (induction ps arbitrary: c)
  case (Cons a ps)
  then have a: "addr_ok a" and ps: "list_all addr_ok ps" by auto
  show ?case
    by (simp add: conf_line_participant [OF a] Cons.IH [OF ps])
qed simp

section \<open>Properties\<close>

text \<open>The list of participant addresses given on the command line, each address
  followed by a semicolon, is read back address by address.\<close>

theorem parse_addrs_roundtrip:
  assumes "list_all addr_ok as"
  shows "parse_addrs (concat (map (\<lambda>a. addr_string a @ '';'') as)) =
           Some (map fst as, map (word_of_nat \<circ> snd) as)"
proof -
  have "getlines (CHR '';'') (concat (map (\<lambda>w. w @ [CHR '';'']) (map addr_string as))) = map addr_string as"
    using assms by (intro getlines_terminated) (auto simp: list_all_iff addr_string_chars)
  then show ?thesis
    by (simp add: parse_addrs_def parse_addr_list_strings [OF assms] comp_def)
qed

theorem parse_addrs_roundtrip_witness:
  "parse_addrs (concat (map (\<lambda>a. addr_string a @ '';'') [(''127.0.0.1'', 8001), (''127.0.0.1'', 8002)])) =
     Some ([''127.0.0.1'', ''127.0.0.1''], [8001, 8002])"
  using parse_addrs_roundtrip [of "[(''127.0.0.1'', 8001), (''127.0.0.1'', 8002)]"]
  by (simp add: addr_ok_def)

text \<open>C27: the configuration file of a coordinator that names its own address and its
  participants is read back as a coordinator configuration with exactly these.\<close>

theorem coordinator_conf_roundtrip:
  assumes "addr_ok me" "list_all addr_ok ps"
  shows "get_conf (Some (coordinator_conf_file me ps)) =
    Inr (Some (Coordinator_Conf (new_coordinator_configuration
      \<lparr>c_addr := fst me, c_port := Some (word_of_nat (snd me)),
       participant_addrs := map fst ps, participant_ports := map (word_of_nat \<circ> snd) ps\<rparr>)))"
proof -
  let ?ls = "''mode coordinator'' # field_line ''coordinator_info'' me # map (field_line ''participant_info'') ps"
  have "CHR 10 \<notin> set (field_line op a)" if "addr_ok a" "CHR 10 \<notin> set op" for op a
    using that addr_string_chars(2) by (simp add: field_line_def)
  then have "getlines (CHR 10) (coordinator_conf_file me ps) = ?ls"
    unfolding coordinator_conf_file_def using assms
    by (intro getlines_terminated) (auto simp: list_all_iff)
  moreover have "conf_line ''mode coordinator'' None =
      Inr (Some (Coordinator_Conf new_coordinator_configuration))"
    using get_option_field [of "''mode''" "''coordinator''"] by (simp add: conf_line_def)
  ultimately show ?thesis
    by (simp add: get_conf_def conf_line_coordinator [OF assms(1)]
        conf_lines_participants [OF assms(2)] new_coordinator_configuration_def)
qed

theorem coordinator_conf_roundtrip_witness:
  "get_conf (Some (coordinator_conf_file (''127.0.0.1'', 8001) [(''127.0.0.1'', 8002), (''127.0.0.1'', 8003)])) =
    Inr (Some (Coordinator_Conf (new_coordinator_configuration
      \<lparr>c_addr := ''127.0.0.1'', c_port := Some 8001,
       participant_addrs := [''127.0.0.1'', ''127.0.0.1''], participant_ports := [8002, 8003]\<rparr>)))"
  using coordinator_conf_roundtrip [of "(''127.0.0.1'', 8001)" "[(''127.0.0.1'', 8002), (''127.0.0.1'', 8003)]"]
  by (simp add: addr_ok_def)

text \<open>Whatever the command line and the configuration file say, a coordinator or a
  participant is constructed with two workers: the moves on the way to its constructor drop
  the \<^verbatim>\<open>num_workers\<close> field.\<close>

theorem num_workers_option_ignored:
  "case main_program parsed file of
     Inr (Runs_Coordinator c) \<Rightarrow> c_num_workers c = 2
   | Inr (Runs_Participant c) \<Rightarrow> c_num_workers c = 2
   | _ \<Rightarrow> True"
proof -
  have "main_coordinator fl cp = Inr (Runs_Coordinator c) \<Longrightarrow> c_num_workers c = 2"
    "main_participant fl cp = Inr (Runs_Participant d) \<Longrightarrow> c_num_workers d = 2"
    "main_coordinator fl cp \<noteq> Inr (Runs_Participant d)"
    "main_participant fl cp \<noteq> Inr (Runs_Coordinator c)" for fl cp c d
    by (auto simp: main_coordinator_def main_participant_def Let_def move_coordinator_configuration_def
        move_participant_configuration_def new_coordinator_configuration_def
        new_participant_configuration_def
        split: option.splits sum.splits if_splits any_configuration.splits)
  then show ?thesis
    by (auto simp: main_program_def res_bind_def split: option.splits sum.splits outcome.splits if_splits)
qed

end
