(* ===== verification/Work_Crew.thy ===== *)
theory Work_Crew
  imports Main
begin

text \<open>
  What the thread pools of the three programs have in common: some workers take turns on a
  shared state, a turn does nothing or gets something done, and as long as something is left
  there is a worker whose turn gets something done. Rounds in which every worker has a turn
  then come to an end of the work. The locale is interpreted on the pools of all three.
\<close>

definition run_turns :: "(nat \<Rightarrow> 's \<Rightarrow> 's) \<Rightarrow> nat list \<Rightarrow> 's \<Rightarrow> 's" where
  "run_turns turn sched s = foldl (\<lambda>s i. turn i s) s sched"

lemma run_turns_simps [simp]:
  "run_turns turn [] s = s"
  "run_turns turn (i # sched) s = run_turns turn sched (turn i s)"
  "run_turns turn (s1 @ s2) s = run_turns turn s2 (run_turns turn s1 s)"
  by (simp_all add: run_turns_def)

text \<open>A schedule that contains a number of rounds of \<open>n\<close> workers one after the other.\<close>

definition fair :: "nat \<Rightarrow> nat \<Rightarrow> nat list \<Rightarrow> bool" where
  "fair n rounds sched \<longleftrightarrow>
     (\<exists>rs. concat rs = sched \<and> rounds \<le> length rs \<and> (\<forall>r \<in> set rs. {..<n} \<subseteq> set r))"

lemma fair_replicate: "fair n k (concat (replicate k [0..<n]))"
  unfolding fair_def by (intro exI [of _ "replicate k [0..<n]"]) auto

locale work_crew =
  fixes turn :: "nat \<Rightarrow> 's \<Rightarrow> 's"
    and work :: "'s \<Rightarrow> nat"
    and inv :: "'s \<Rightarrow> bool"
    and n :: nat
  assumes keeps: "inv s \<Longrightarrow> inv (turn i s)"
    and idle_or_works: "inv s \<Longrightarrow> turn i s = s \<or> work (turn i s) < work s"
    and someone_works: "inv s \<Longrightarrow> 0 < work s \<Longrightarrow> \<exists>i < n. work (turn i s) < work s"
begin

lemma keeps_turns: "inv s \<Longrightarrow> inv (run_turns turn sched s)"
  by (induction sched arbitrary: s) (simp_all add: keeps)

lemma work_turns: "inv s \<Longrightarrow> work (run_turns turn sched s) \<le> work s"
proof (induction sched arbitrary: s)
  case (Cons i sched)
  from Cons.IH [OF keeps [OF Cons.prems], of i] idle_or_works [OF Cons.prems, of i]
  show ?case by auto
qed simp

lemma work_until_turn:
  assumes "inv s" "i \<in> set sched" "work (turn i s) < work s"
  shows "work (run_turns turn sched s) < work s"
  using assms
proof (induction sched arbitrary: s)
  case (Cons j sched)
  show ?case
  proof (cases "turn j s = s")
    case True
    with Cons show ?thesis by auto
  next
    case False
    with idle_or_works [OF Cons.prems(1)] have "work (turn j s) < work s" by blast
    with work_turns [OF keeps [OF Cons.prems(1)], of sched j] show ?thesis by simp
  qed
qed simp

lemma work_round:
  assumes "inv s" "{..<n} \<subseteq> set r"
  shows "work (run_turns turn r s) \<le> work s - 1"
proof (cases "work s = 0")
  case True
  with work_turns [OF assms(1), of r] show ?thesis by simp
next
  case False
  with someone_works assms obtain i where "i \<in> set r" "work (turn i s) < work s" by blast
  from work_until_turn [OF assms(1) this] show ?thesis by simp
qed

lemma work_rounds:
  "inv s \<Longrightarrow> \<forall>r \<in> set rs. {..<n} \<subseteq> set r \<Longrightarrow>
     work (run_turns turn (concat rs) s) \<le> work s - length rs"
proof (induction rs arbitrary: s)
  case (Cons r rs)
  from Cons.IH [OF keeps_turns [OF Cons.prems(1)], of r] work_round [OF Cons.prems(1), of r] Cons.prems(2)
  show ?case by simp
qed simp

lemma fair_finishes:
  assumes "inv s" "fair n rounds sched" "work s \<le> rounds"
  shows "work (run_turns turn sched s) = 0"
proof -
  from assms(2) obtain rs where "concat rs = sched" "rounds \<le> length rs"
    "\<forall>r \<in> set rs. {..<n} \<subseteq> set r" by (auto simp: fair_def)
  with work_rounds [OF assms(1), of rs] assms(3) show ?thesis by simp
qed

end

end
