(* ===== verification/Thread_Pool.thy ===== *)
theory Thread_Pool
  imports Cpp_Prelude Work_Crew
begin

text \<open>
  The pool of callback workers, \<^verbatim>\<open>Lab3/src/tcp_server/thread_pool.hpp\<close> and
  \<^verbatim>\<open>thread_pool.cpp\<close>: a queue of tasks behind a mutex, and workers that fetch from it. An
  operation under the mutex is one step; the step relation interleaves the users of the
  pool with the iterations of its workers.
\<close>

section \<open>The pool\<close>

text \<open>\<open>tp_workers\<close> is the size of the vector of threads, which counts a thread that has
  returned as well.\<close>

record 'task thread_pool =
  tp_workers :: nat
  tp_stop :: bool
  tp_thread_num :: nat
  tp_tasks :: "'task list"

definition new_thread_pool :: "nat \<Rightarrow> 'task thread_pool" where
  "new_thread_pool n = \<lparr>tp_workers = n, tp_stop = False, tp_thread_num = n, tp_tasks = []\<rparr>"

definition should_stop :: "'task thread_pool \<Rightarrow> bool" where
  "should_stop p \<longleftrightarrow> tp_stop p \<or> tp_workers p > tp_thread_num p"

text \<open>\<open>None\<close>: the worker waits on the condition variable. \<open>Some (None, _)\<close>: the null task.\<close>

definition fetch_task :: "'task thread_pool \<Rightarrow> ('task option \<times> 'task thread_pool) option" where
  "fetch_task p =
     (if \<not> (should_stop p \<or> tp_tasks p \<noteq> []) then None
      else if should_stop p \<or> tp_tasks p = [] then Some (None, p)
      else Some (Some (hd (tp_tasks p)), p\<lparr>tp_tasks := tl (tp_tasks p)\<rparr>))"

definition add_task :: "'task \<Rightarrow> 'task thread_pool \<Rightarrow> 'task thread_pool" where
  "add_task t p = p\<lparr>tp_tasks := tp_tasks p @ [t]\<rparr>"

text \<open>\<^verbatim>\<open>stop\<close> sets the flag, and clears the vector once every thread has been joined.\<close>

definition stop_pool :: "'task thread_pool \<Rightarrow> 'task thread_pool" where
  "stop_pool p = p\<lparr>tp_stop := True\<rparr>"

definition join_workers :: "'task thread_pool \<Rightarrow> 'task thread_pool" where
  "join_workers p = p\<lparr>tp_workers := 0\<rparr>"

text \<open>Returns the number of threads it starts.\<close>

definition set_thread_num :: "nat \<Rightarrow> 'task thread_pool \<Rightarrow> nat \<times> 'task thread_pool" where
  "set_thread_num num p =
     (num - tp_workers p, p\<lparr>tp_thread_num := num, tp_workers := max (tp_workers p) num\<rparr>)"

text \<open>One iteration of a worker's loop.\<close>

datatype 'task turn = Worker_Returns | Worker_Waits | Worker_Idles | Worker_Runs 'task

definition worker_turn :: "'task thread_pool \<Rightarrow> 'task turn \<times> 'task thread_pool" where
  "worker_turn p =
     (if should_stop p then (Worker_Returns, p)
      else case fetch_task p of
             None \<Rightarrow> (Worker_Waits, p)
           | Some (None, q) \<Rightarrow> (Worker_Idles, q)
           | Some (Some t, q) \<Rightarrow> (Worker_Runs t, q))"

section \<open>The pool and its users\<close>

text \<open>
  A run: the pool, the number of worker threads still in their loops, the tasks added and
  the tasks started so far, oldest first.
\<close>

record 'task pool_run =
  pr_pool :: "'task thread_pool"
  pr_live :: nat
  pr_added :: "'task list"
  pr_started :: "'task list"

definition pool_start :: "nat \<Rightarrow> 'task pool_run" where
  "pool_start n = \<lparr>pr_pool = new_thread_pool n, pr_live = n, pr_added = [], pr_started = []\<rparr>"

inductive pool_step :: "'task pool_run \<Rightarrow> 'task pool_run \<Rightarrow> bool" where
  add: "pool_step s (s\<lparr>pr_pool := add_task t (pr_pool s), pr_added := pr_added s @ [t]\<rparr>)"
| resize: "set_thread_num n (pr_pool s) = (k, q) \<Longrightarrow>
    pool_step s (s\<lparr>pr_pool := q, pr_live := pr_live s + k\<rparr>)"
| stop: "pool_step s (s\<lparr>pr_pool := stop_pool (pr_pool s)\<rparr>)"
| join: "pr_live s = 0 \<Longrightarrow> tp_stop (pr_pool s) \<Longrightarrow>
    pool_step s (s\<lparr>pr_pool := join_workers (pr_pool s)\<rparr>)"
| runs: "0 < pr_live s \<Longrightarrow> worker_turn (pr_pool s) = (Worker_Runs t, q) \<Longrightarrow>
    pool_step s (s\<lparr>pr_pool := q, pr_started := pr_started s @ [t]\<rparr>)"
| idles: "0 < pr_live s \<Longrightarrow> worker_turn (pr_pool s) = (Worker_Idles, q) \<Longrightarrow>
    pool_step s (s\<lparr>pr_pool := q\<rparr>)"
| returns: "0 < pr_live s \<Longrightarrow> worker_turn (pr_pool s) = (Worker_Returns, q) \<Longrightarrow>
    pool_step s (s\<lparr>pr_pool := q, pr_live := pr_live s - 1\<rparr>)"

inductive pool_reach :: "nat \<Rightarrow> 'task pool_run \<Rightarrow> bool" for n where
  start: "pool_reach n (pool_start n)"
| step: "pool_reach n s \<Longrightarrow> pool_step s s' \<Longrightarrow> pool_reach n s'"

inductive_cases pool_stepE: "pool_step s s'"

lemma worker_runs_iff:
  "worker_turn p = (Worker_Runs t, q) \<longleftrightarrow>
     \<not> should_stop p \<and> (\<exists>ts. tp_tasks p = t # ts \<and> q = p\<lparr>tp_tasks := ts\<rparr>)"
  by (cases "tp_tasks p") (auto simp: worker_turn_def fetch_task_def split: option.splits)

lemma worker_same_pool:
  "worker_turn p = (Worker_Idles, q) \<Longrightarrow> q = p" "worker_turn p = (Worker_Returns, q) \<Longrightarrow> q = p"
  by (auto simp: worker_turn_def fetch_task_def split: option.splits if_splits)

lemma worker_returns_iff: "worker_turn p = (Worker_Returns, q) \<longleftrightarrow> should_stop p \<and> q = p"
  by (auto simp: worker_turn_def fetch_task_def split: option.splits if_splits)

lemma pool_step_queue:
  assumes "pool_step s s'"
  shows "pr_started s @ tp_tasks (pr_pool s) = pr_added s \<Longrightarrow>
         pr_started s' @ tp_tasks (pr_pool s') = pr_added s'"
  using assms
  by cases (auto simp: add_task_def set_thread_num_def stop_pool_def join_workers_def worker_runs_iff
      dest: worker_same_pool)

section \<open>Properties\<close>

text \<open>In every run of the pool, whatever its users and workers do and in whatever order,
  the tasks started so far followed by the tasks still queued are the tasks added, in the
  order they were added: no task is lost, run twice or overtaken.\<close>

theorem tasks_start_in_order:
  assumes "pool_reach n s"
  shows "pr_started s @ tp_tasks (pr_pool s) = pr_added s"
  using assms
proof induction
  case start
  then show ?case by (simp add: pool_start_def new_thread_pool_def)
next
  case (step s s')
  then show ?case using pool_step_queue by blast
qed

theorem tasks_start_in_order_witness:
  "pr_started ((pool_start 2)\<lparr>pr_pool := add_task ''b'' (new_thread_pool 2), pr_added := [''a'', ''b''],
      pr_started := [''a'']\<rparr>) @ [''b''] = [''a'', ''b'']"
proof -
  let ?a = "(pool_start 2)\<lparr>pr_pool := add_task ''a'' (new_thread_pool 2), pr_added := [''a'']\<rparr>"
  let ?b = "?a\<lparr>pr_pool := add_task ''b'' (pr_pool ?a), pr_added := [''a'', ''b'']\<rparr>"
  let ?c = "?b\<lparr>pr_pool := add_task ''b'' (new_thread_pool 2), pr_started := [''a'']\<rparr>"
  have "pool_reach 2 (pool_start 2 :: string pool_run)" by (rule pool_reach.start)
  then have "pool_reach 2 ?a"
    by (rule pool_reach.step) (use pool_step.add [of "pool_start 2" "''a''"] in \<open>simp add: pool_start_def\<close>)
  then have "pool_reach 2 ?b"
    by (rule pool_reach.step) (use pool_step.add [of ?a "''b''"] in simp)
  then have "pool_reach 2 ?c"
    by (rule pool_reach.step)
      (use pool_step.runs [of ?b "''a''" "add_task ''b'' (new_thread_pool 2)"] in
        \<open>simp add: pool_start_def worker_runs_iff add_task_def new_thread_pool_def should_stop_def\<close>)
  from tasks_start_in_order [OF this] show ?thesis
    by (simp add: pool_start_def add_task_def new_thread_pool_def)
qed

section \<open>Every task gets started\<close>

text \<open>One iteration of the loop of a worker, whichever worker it is.\<close>

definition pool_turn :: "nat \<Rightarrow> 'task pool_run \<Rightarrow> 'task pool_run" where
  "pool_turn i s =
     (case worker_turn (pr_pool s) of
        (Worker_Returns, p) \<Rightarrow> s\<lparr>pr_pool := p, pr_live := pr_live s - 1\<rparr>
      | (Worker_Waits, p) \<Rightarrow> s
      | (Worker_Idles, p) \<Rightarrow> s\<lparr>pr_pool := p\<rparr>
      | (Worker_Runs t, p) \<Rightarrow> s\<lparr>pr_pool := p, pr_started := pr_started s @ [t]\<rparr>)"

definition pool_serves :: "'task list \<Rightarrow> 'task pool_run \<Rightarrow> bool" where
  "pool_serves todo s \<longleftrightarrow> \<not> should_stop (pr_pool s) \<and> pr_started s @ tp_tasks (pr_pool s) = todo"

lemma pool_turn_Nil: "pool_serves todo s \<Longrightarrow> tp_tasks (pr_pool s) = [] \<Longrightarrow> pool_turn i s = s"
  by (simp add: pool_turn_def pool_serves_def worker_turn_def fetch_task_def)

lemma pool_turn_Cons:
  "pool_serves todo s \<Longrightarrow> tp_tasks (pr_pool s) = t # ts \<Longrightarrow>
     pool_turn i s = s\<lparr>pr_pool := (pr_pool s)\<lparr>tp_tasks := ts\<rparr>, pr_started := pr_started s @ [t]\<rparr>"
  by (simp add: pool_turn_def pool_serves_def worker_turn_def fetch_task_def)

lemma pool_turn_serves: "pool_serves todo s \<Longrightarrow> pool_serves todo (pool_turn i s)"
  by (cases "tp_tasks (pr_pool s)")
    (simp_all add: pool_turn_Nil pool_turn_Cons, auto simp: pool_serves_def should_stop_def)

lemma pool_turn_works:
  "pool_serves todo s \<Longrightarrow>
     pool_turn i s = s \<or> length (tp_tasks (pr_pool (pool_turn i s))) < length (tp_tasks (pr_pool s))"
  by (cases "tp_tasks (pr_pool s)") (simp_all add: pool_turn_Nil pool_turn_Cons)

lemma pool_someone_works:
  "pool_serves todo s \<and> 0 < n \<Longrightarrow> 0 < length (tp_tasks (pr_pool s)) \<Longrightarrow>
     \<exists>i < n. length (tp_tasks (pr_pool (pool_turn i s))) < length (tp_tasks (pr_pool s))"
  by (cases "tp_tasks (pr_pool s)") (auto simp: pool_turn_Cons)

interpretation callback_crew: work_crew pool_turn "\<lambda>s. length (tp_tasks (pr_pool s))"
    "\<lambda>s. pool_serves todo s \<and> 0 < n" n
  for todo n
  by unfold_locales (use pool_turn_serves pool_turn_works pool_someone_works in blast)+

text \<open>
  As long as the pool is neither stopped nor reduced, every task queued in it is started, in
  order: it is enough that each of its workers comes back to its loop as often as tasks are
  queued.
\<close>

theorem every_task_starts:
  assumes "\<not> should_stop (pr_pool s)" "0 < n" "fair n (length (tp_tasks (pr_pool s))) sched"
  shows "pr_started (run_turns pool_turn sched s) = pr_started s @ tp_tasks (pr_pool s)"
proof -
  have inv: "pool_serves (pr_started s @ tp_tasks (pr_pool s)) s \<and> 0 < n"
    using assms by (simp add: pool_serves_def)
  from callback_crew.fair_finishes [OF inv assms(3)] callback_crew.keeps_turns [OF inv, of sched]
  show ?thesis by (simp add: pool_serves_def)
qed

text \<open>Asking a pool for fewer threads than it has does not leave that many: every worker
  that comes back to its loop returns, and none runs a task from then on, because the
  vector of threads never gets shorter.\<close>

theorem shrinking_ends_every_worker:
  assumes "n < tp_workers p" "set_thread_num n p = (k, q)"
  shows "k = 0 \<and> worker_turn (fold add_task ts q) = (Worker_Returns, fold add_task ts q)"
proof -
  have "tp_workers (fold add_task ts q) = tp_workers q"
    "tp_thread_num (fold add_task ts q) = tp_thread_num q" for q
    by (induction ts arbitrary: q) (simp_all add: add_task_def)
  then show ?thesis
    using assms by (auto simp: set_thread_num_def worker_turn_def should_stop_def)
qed

theorem shrinking_ends_every_worker_witness:
  "worker_turn (add_task ''t'' (snd (set_thread_num 1 (new_thread_pool 2)))) =
     (Worker_Returns, add_task ''t'' (snd (set_thread_num 1 (new_thread_pool 2))))"
  using shrinking_ends_every_worker [of 1 "new_thread_pool 2" _ _ "[''t'']"]
  by (simp add: new_thread_pool_def set_thread_num_def)

end
