(* ===== verification/Wakeup_Pipe.thy ===== *)
theory Wakeup_Pipe
  imports Cpp_Prelude
begin

text \<open>
  The pipe that wakes the poll thread of the reactor, \<^verbatim>\<open>Lab3/src/tcp_server/pipe.hpp\<close> and
  \<^verbatim>\<open>pipe.cpp\<close>. Of the bytes in the pipe only their number matters. A pipe never fills up in
  the model: \<^verbatim>\<open>write\<close> takes its byte at once.
\<close>

record pipe =
  pi_read :: nat
  pi_write :: nat
  pi_bytes :: nat

text \<open>\<open>fds\<close>: the two descriptors \<^verbatim>\<open>::pipe\<close> returns, or \<open>None\<close> when it fails.\<close>

definition new_pipe :: "(nat \<times> nat) option \<Rightarrow> pipe result" where
  "new_pipe fds =
     (case fds of
        None \<Rightarrow> Inl (Std_Exception ''error pipe()'')
      | Some (rd, wr) \<Rightarrow> Inr \<lparr>pi_read = rd, pi_write = wr, pi_bytes = 0\<rparr>)"

text \<open>The descriptors the destructor closes.\<close>

definition destroy_pipe :: "pipe \<Rightarrow> nat list" where
  "destroy_pipe p = [pi_read p, pi_write p]"

definition get_read_fd :: "pipe \<Rightarrow> nat" where
  "get_read_fd p = pi_read p"

definition get_write_fd :: "pipe \<Rightarrow> nat" where
  "get_write_fd p = pi_write p"

definition pipe_notify :: "pipe \<Rightarrow> pipe" where
  "pipe_notify p = p\<lparr>pi_bytes := pi_bytes p + 1\<rparr>"

text \<open>One \<^verbatim>\<open>read\<close> into a buffer of 256 bytes.\<close>

definition clear_pipe :: "pipe \<Rightarrow> pipe" where
  "clear_pipe p = p\<lparr>pi_bytes := pi_bytes p - min 256 (pi_bytes p)\<rparr>"

text \<open>Whether \<^verbatim>\<open>select\<close> finds the read end readable.\<close>

definition pipe_readable :: "pipe \<Rightarrow> bool" where
  "pipe_readable p \<longleftrightarrow> 0 < pi_bytes p"

lemma pipe_simps [simp]:
  "get_read_fd (pipe_notify p) = get_read_fd p" "get_read_fd (clear_pipe p) = get_read_fd p"
  "pipe_readable (pipe_notify p)"
  by (simp_all add: get_read_fd_def pipe_notify_def clear_pipe_def pipe_readable_def)

lemma clear_pipe_empties: "pi_bytes p \<le> 256 \<Longrightarrow> \<not> pipe_readable (clear_pipe p)"
  by (simp add: clear_pipe_def pipe_readable_def)

end
