(* ===== verification/Reactor.thy ===== *)
theory Reactor
  imports Thread_Pool Wakeup_Pipe
begin

text \<open>
  The reactor, \<^verbatim>\<open>Lab3/src/tcp_server/reactor.hpp\<close> and \<^verbatim>\<open>reactor.cpp\<close>: it polls file
  descriptors with \<^verbatim>\<open>select\<close> and hands the callback of a ready one to the pool. Everything
  under \<^verbatim>\<open>tracked_fds_mutex_\<close> is one step; \<^verbatim>\<open>select\<close> is a system call, its outcome is an
  argument. The unordered map is kept as an ordered one: its iteration order is unspecified
  in the source and none of the lemmas depends on it.
\<close>

section \<open>State\<close>

record 'cb fd_info =
  fi_untrack :: bool
  fi_exec_rd :: bool
  fi_exec_wr :: bool
  fi_rd :: "'cb option"
  fi_wr :: "'cb option"

definition new_fd_info :: "'cb fd_info" where
  "new_fd_info = \<lparr>fi_untrack = False, fi_exec_rd = False, fi_exec_wr = False, fi_rd = None, fi_wr = None\<rparr>"

datatype 'cb io_task = Read_Task nat 'cb | Write_Task nat 'cb

record 'cb reactor =
  re_tracked :: "(nat, 'cb fd_info) omap"
  re_pool :: "'cb io_task thread_pool"
  re_polled :: "nat list"
  re_rd_set :: "nat list"
  re_wr_set :: "nat list"
  re_poll_stop :: bool
  re_notifier :: pipe

definition new_reactor :: "pipe \<Rightarrow> nat \<Rightarrow> 'cb reactor" where
  "new_reactor notifier threads =
     \<lparr>re_tracked = [], re_pool = new_thread_pool threads, re_polled = [], re_rd_set = [],
      re_wr_set = [], re_poll_stop = False, re_notifier = notifier\<rparr>"

text \<open>\<^verbatim>\<open>tracked_fds_[fd]\<close> creates a default entry where there is none.\<close>

definition tracked_info :: "nat \<Rightarrow> 'cb reactor \<Rightarrow> 'cb fd_info" where
  "tracked_info fd r = (case map_of (re_tracked r) fd of None \<Rightarrow> new_fd_info | Some i \<Rightarrow> i)"

definition put_info :: "nat \<Rightarrow> 'cb fd_info \<Rightarrow> 'cb reactor \<Rightarrow> 'cb reactor" where
  "put_info fd i r = r\<lparr>re_tracked := om_put fd i (re_tracked r)\<rparr>"

definition erase_info :: "nat \<Rightarrow> 'cb reactor \<Rightarrow> 'cb reactor" where
  "erase_info fd r = r\<lparr>re_tracked := om_erase fd (re_tracked r)\<rparr>"

definition notify :: "'cb reactor \<Rightarrow> 'cb reactor" where
  "notify r = r\<lparr>re_notifier := pipe_notify (re_notifier r)\<rparr>"

section \<open>Operations\<close>

definition register_fd :: "nat \<Rightarrow> 'cb option \<Rightarrow> 'cb option \<Rightarrow> 'cb reactor \<Rightarrow> 'cb reactor" where
  "register_fd fd rd_callback wr_callback r =
     notify (put_info fd ((tracked_info fd r)
       \<lparr>fi_rd := rd_callback, fi_wr := wr_callback, fi_untrack := False\<rparr>) r)"

definition set_rd_callback :: "nat \<Rightarrow> 'cb option \<Rightarrow> 'cb reactor \<Rightarrow> 'cb reactor" where
  "set_rd_callback fd cb r = notify (put_info fd ((tracked_info fd r)\<lparr>fi_rd := cb\<rparr>) r)"

definition set_wr_callback :: "nat \<Rightarrow> 'cb option \<Rightarrow> 'cb reactor \<Rightarrow> 'cb reactor" where
  "set_wr_callback fd cb r = notify (put_info fd ((tracked_info fd r)\<lparr>fi_wr := cb\<rparr>) r)"

definition unregister :: "nat \<Rightarrow> 'cb reactor \<Rightarrow> 'cb reactor" where
  "unregister fd r =
     (case map_of (re_tracked r) fd of
        None \<Rightarrow> r
      | Some info \<Rightarrow>
          if fi_exec_rd info \<or> fi_exec_wr info
          then notify (put_info fd (info\<lparr>fi_untrack := True\<rparr>) r)
          else notify (erase_info fd r))"

definition wants_read :: "'cb fd_info \<Rightarrow> bool" where
  "wants_read info \<longleftrightarrow> fi_rd info \<noteq> None \<and> \<not> fi_exec_rd info"

definition wants_write :: "'cb fd_info \<Rightarrow> bool" where
  "wants_write info \<longleftrightarrow> fi_wr info \<noteq> None \<and> \<not> fi_exec_wr info"

definition init_select_fds :: "'cb reactor \<Rightarrow> nat \<times> 'cb reactor" where
  "init_select_fds r =
     (let rd = filter (wants_read \<circ> snd) (re_tracked r);
          wr = filter (wants_write \<circ> snd) (re_tracked r);
          polled = filter (\<lambda>(fd, i). wants_read i \<or> wants_write i \<or> fi_untrack i) (re_tracked r)
      in (fold max (map fst rd @ map fst wr) (get_read_fd (re_notifier r)) + 1,
          r\<lparr>re_polled := get_read_fd (re_notifier r) # map fst polled,
            re_rd_set := get_read_fd (re_notifier r) # map fst rd, re_wr_set := map fst wr\<rparr>))"

definition dispatch_read :: "nat \<Rightarrow> 'cb reactor \<Rightarrow> 'cb reactor" where
  "dispatch_read fd r =
     (case map_of (re_tracked r) fd of
        None \<Rightarrow> r
      | Some info \<Rightarrow>
          (let r1 = put_info fd (info\<lparr>fi_exec_rd := True\<rparr>) r
           in r1\<lparr>re_pool := add_task (Read_Task fd (the (fi_rd info))) (re_pool r1)\<rparr>))"

definition dispatch_write :: "nat \<Rightarrow> 'cb reactor \<Rightarrow> 'cb reactor" where
  "dispatch_write fd r =
     (case map_of (re_tracked r) fd of
        None \<Rightarrow> r
      | Some info \<Rightarrow>
          (let r1 = put_info fd (info\<lparr>fi_exec_wr := True\<rparr>) r
           in r1\<lparr>re_pool := add_task (Write_Task fd (the (fi_wr info))) (re_pool r1)\<rparr>))"

definition dispatch_fd :: "nat \<Rightarrow> 'cb reactor \<Rightarrow> 'cb reactor" where
  "dispatch_fd fd r =
     (if fd = get_read_fd (re_notifier r) \<and> fd \<in> set (re_rd_set r)
      then r\<lparr>re_notifier := clear_pipe (re_notifier r)\<rparr>
      else if map_of (re_tracked r) fd = None then r
      else let r1 = (if fd \<in> set (re_rd_set r) \<and> wants_read (tracked_info fd r)
                     then dispatch_read fd r else r);
               r2 = (if fd \<in> set (re_wr_set r1) \<and> wants_write (tracked_info fd r1)
                     then dispatch_write fd r1 else r1);
               info = tracked_info fd r2
           in if fi_untrack info \<and> \<not> fi_exec_rd info \<and> \<not> fi_exec_wr info
              then erase_info fd r2 else r2)"

definition dispatch_select :: "'cb reactor \<Rightarrow> 'cb reactor" where
  "dispatch_select r = fold dispatch_fd (re_polled r) r"

text \<open>\<^verbatim>\<open>select\<close> keeps the descriptors that are ready.\<close>

definition select_ready :: "nat list \<Rightarrow> nat list \<Rightarrow> 'cb reactor \<Rightarrow> 'cb reactor" where
  "select_ready rd wr r =
     r\<lparr>re_rd_set := filter (\<lambda>fd. fd \<in> set rd) (re_rd_set r),
       re_wr_set := filter (\<lambda>fd. fd \<in> set wr) (re_wr_set r)\<rparr>"

text \<open>One iteration of \<^verbatim>\<open>poll\<close>; \<open>sel\<close> is what \<^verbatim>\<open>select\<close> reports ready, \<open>None\<close> an error.\<close>

definition poll_round :: "(nat list \<times> nat list) option \<Rightarrow> 'cb reactor \<Rightarrow> 'cb reactor" where
  "poll_round sel r =
     (if re_poll_stop r then r
      else let (nfds, r1) = init_select_fds r
           in case sel of
                None \<Rightarrow> r1
              | Some (rd, wr) \<Rightarrow> dispatch_select (select_ready rd wr r1))"

text \<open>What the task does when the callback has returned.\<close>

definition finish_read :: "nat \<Rightarrow> 'cb reactor \<Rightarrow> 'cb reactor" where
  "finish_read fd r =
     (case map_of (re_tracked r) fd of
        None \<Rightarrow> r
      | Some info \<Rightarrow>
          (let info1 = info\<lparr>fi_exec_rd := False\<rparr>
           in notify (if fi_untrack info1 \<and> \<not> fi_exec_wr info1 then erase_info fd r
                      else put_info fd info1 r)))"

definition finish_write :: "nat \<Rightarrow> 'cb reactor \<Rightarrow> 'cb reactor" where
  "finish_write fd r =
     (case map_of (re_tracked r) fd of
        None \<Rightarrow> r
      | Some info \<Rightarrow>
          (let info1 = info\<lparr>fi_exec_wr := False\<rparr>
           in notify (if fi_untrack info1 \<and> \<not> fi_exec_rd info1 then erase_info fd r
                      else put_info fd info1 r)))"

fun finish_task :: "'cb io_task \<Rightarrow> 'cb reactor \<Rightarrow> 'cb reactor" where
  "finish_task (Read_Task fd cb) r = finish_read fd r"
| "finish_task (Write_Task fd cb) r = finish_write fd r"

definition stop_reactor :: "'cb reactor \<Rightarrow> 'cb reactor" where
  "stop_reactor r = (let r1 = notify (r\<lparr>re_poll_stop := True\<rparr>) in r1\<lparr>re_pool := stop_pool (re_pool r1)\<rparr>)"

text \<open>The destructor asks the poll thread to end, but does not wake it.\<close>

definition destroy_reactor :: "'cb reactor \<Rightarrow> 'cb reactor" where
  "destroy_reactor r = r\<lparr>re_poll_stop := True\<rparr>"

definition register_num :: "'cb reactor \<Rightarrow> nat" where
  "register_num r = length (re_tracked r)"

text \<open>The condition a thread waits for in \<^verbatim>\<open>wait_on_removal_cond\<close>.\<close>

definition removal_cond :: "nat \<Rightarrow> 'cb reactor \<Rightarrow> bool" where
  "removal_cond fd r \<longleftrightarrow> map_of (re_tracked r) fd = None"

text \<open>\<^verbatim>\<open>get_default_reactor\<close>: the reactor all clients and servers share, made by its first user.\<close>

definition get_default_reactor :: "pipe \<Rightarrow> 'cb reactor option \<Rightarrow> 'cb reactor" where
  "get_default_reactor notifier r = (case r of None \<Rightarrow> new_reactor notifier 2 | Some r \<Rightarrow> r)"

section \<open>Runs\<close>

text \<open>
  A run of the reactor with its users: \<open>work_step\<close> is what the users and the workers do,
  \<open>reactor_step\<close> adds the three parts of a poll. Any thread may call an operation at any time, also
  between the three parts of a poll, a worker may take a task, and a running task may end, or
  its callback throws, which the worker catches: what the task does after the callback is
  then left out.
  The second component is the list of tasks whose callbacks are running.
\<close>

type_synonym 'cb reactor_run = "'cb reactor \<times> 'cb io_task list"

inductive work_step :: "'cb reactor_run \<Rightarrow> 'cb reactor_run \<Rightarrow> bool" where
  register: "work_step (r, run) (register_fd fd rd wr r, run)"
| set_rd: "work_step (r, run) (set_rd_callback fd cb r, run)"
| set_wr: "work_step (r, run) (set_wr_callback fd cb r, run)"
| unregister: "work_step (r, run) (unregister fd r, run)"
| take: "worker_turn (re_pool r) = (Worker_Runs t, p) \<Longrightarrow>
    work_step (r, run) (r\<lparr>re_pool := p\<rparr>, run @ [t])"
| finish: "run = run1 @ t # run2 \<Longrightarrow> work_step (r, run) (finish_task t r, run1 @ run2)"
| throws: "run = run1 @ t # run2 \<Longrightarrow> work_step (r, run) (r, run1 @ run2)"
| stop: "work_step (r, run) (stop_reactor r, run)"

inductive reactor_step :: "'cb reactor_run \<Rightarrow> 'cb reactor_run \<Rightarrow> bool" where
  work: "work_step s s' \<Longrightarrow> reactor_step s s'"
| poll_init: "reactor_step (r, run) (snd (init_select_fds r), run)"
| poll_select: "reactor_step (r, run) (select_ready rd wr r, run)"
| poll_dispatch: "reactor_step (r, run) (dispatch_select r, run)"

inductive reactor_reach :: "pipe \<Rightarrow> nat \<Rightarrow> 'cb reactor_run \<Rightarrow> bool" for nf n where
  start: "reactor_reach nf n (new_reactor nf n, [])"
| step: "reactor_reach nf n s \<Longrightarrow> reactor_step s s' \<Longrightarrow> reactor_reach nf n s'"

inductive_cases reactor_stepE: "reactor_step (r, run) s'"


section \<open>At most one callback of a kind per descriptor\<close>

fun is_task :: "bool \<Rightarrow> nat \<Rightarrow> 'cb io_task \<Rightarrow> bool" where
  "is_task rd fd (Read_Task fd' cb) \<longleftrightarrow> rd \<and> fd' = fd"
| "is_task rd fd (Write_Task fd' cb) \<longleftrightarrow> \<not> rd \<and> fd' = fd"

definition pending :: "bool \<Rightarrow> nat \<Rightarrow> 'cb io_task list \<Rightarrow> nat" where
  "pending rd fd ts = length (filter (is_task rd fd) ts)"

definition busy :: "bool \<Rightarrow> nat \<Rightarrow> 'cb reactor \<Rightarrow> bool" where
  "busy rd fd r = (if rd then fi_exec_rd (tracked_info fd r) else fi_exec_wr (tracked_info fd r))"

text \<open>While a task of a descriptor is queued or running its flag is set, and there is only one.\<close>

definition flags_cover :: "'cb reactor_run \<Rightarrow> bool" where
  "flags_cover s \<longleftrightarrow>
     (\<forall>rd fd. pending rd fd (tp_tasks (re_pool (fst s)) @ snd s) \<le> (if busy rd fd (fst s) then 1 else 0))"

lemma pending_simps [simp]:
  "pending rd fd [] = 0"
  "pending rd fd (ts @ us) = pending rd fd ts + pending rd fd us"
  "pending rd fd (t # ts) = (if is_task rd fd t then 1 else 0) + pending rd fd ts"
  by (simp_all add: pending_def)

lemma tracked_info_put [simp]:
  "tracked_info fd (put_info fd' i r) = (if fd = fd' then i else tracked_info fd r)"
  by (simp add: tracked_info_def put_info_def map_of_om_put)

lemma tracked_info_erase [simp]:
  "tracked_info fd (erase_info fd' r) = (if fd = fd' then new_fd_info else tracked_info fd r)"
  by (simp add: tracked_info_def erase_info_def map_of_om_erase)

lemma tracked_info_other [simp]:
  "tracked_info fd (notify r) = tracked_info fd r"
  "tracked_info fd (r\<lparr>re_pool := p\<rparr>) = tracked_info fd r"
  "tracked_info fd (r\<lparr>re_notifier := p'\<rparr>) = tracked_info fd r"
  "tracked_info fd (r\<lparr>re_poll_stop := b\<rparr>) = tracked_info fd r"
  "tracked_info fd (r\<lparr>re_polled := fds\<rparr>) = tracked_info fd r"
  "tracked_info fd (r\<lparr>re_rd_set := fds\<rparr>) = tracked_info fd r"
  "tracked_info fd (r\<lparr>re_wr_set := fds\<rparr>) = tracked_info fd r"
  by (simp_all add: tracked_info_def notify_def)

lemma re_pool_other [simp]:
  "re_pool (notify r) = re_pool r" "re_pool (put_info fd i r) = re_pool r"
  "re_pool (erase_info fd r) = re_pool r"
  by (simp_all add: notify_def put_info_def erase_info_def)

lemma new_fd_info_sel [simp]:
  "\<not> fi_exec_rd new_fd_info" "\<not> fi_exec_wr new_fd_info" "\<not> fi_untrack new_fd_info"
  "fi_rd new_fd_info = None" "fi_wr new_fd_info = None"
  by (simp_all add: new_fd_info_def)

lemma busy_untracked: "map_of (re_tracked r) fd = None \<Longrightarrow> \<not> busy rd fd r"
  by (simp add: busy_def tracked_info_def)

lemma tracked_info_Some: "map_of (re_tracked r) fd = Some i \<Longrightarrow> tracked_info fd r = i"
  by (simp add: tracked_info_def)

text \<open>The user's operations change neither the flags nor the queue.\<close>

lemma busy_user_ops:
  "busy rd fd (register_fd fd' rc wc r) = busy rd fd r"
  "busy rd fd (set_rd_callback fd' cb r) = busy rd fd r"
  "busy rd fd (set_wr_callback fd' cb r) = busy rd fd r"
  "busy rd fd (unregister fd' r) = busy rd fd r"
  "busy rd fd (snd (init_select_fds r)) = busy rd fd r"
  "busy rd fd (select_ready rds wrs r) = busy rd fd r"
  by (auto simp: busy_def register_fd_def set_rd_callback_def set_wr_callback_def unregister_def
      init_select_fds_def Let_def select_ready_def
      split: option.splits dest: tracked_info_Some)

lemma re_pool_user_ops [simp]:
  "re_pool (register_fd fd' rc wc r) = re_pool r"
  "re_pool (set_rd_callback fd' cb r) = re_pool r"
  "re_pool (set_wr_callback fd' cb r) = re_pool r"
  "re_pool (unregister fd' r) = re_pool r"
  "re_pool (snd (init_select_fds r)) = re_pool r"
  "re_pool (select_ready rds wrs r) = re_pool r"
  by (auto simp: register_fd_def set_rd_callback_def set_wr_callback_def unregister_def
      init_select_fds_def Let_def select_ready_def split: option.splits)

text \<open>A flag that is raised together with a new task, or lowered together with one that ends.\<close>

lemma flags_coverI:
  "(\<And>rd fd. pending rd fd (tp_tasks (re_pool r) @ run) \<le> (if busy rd fd r then 1 else 0))
   \<Longrightarrow> flags_cover (r, run)"
  by (simp add: flags_cover_def)

lemma flags_coverD:
  "flags_cover (r, run) \<Longrightarrow>
   pending rd fd (tp_tasks (re_pool r)) + pending rd fd run \<le> (if busy rd fd r then 1 else 0)"
  by (simp add: flags_cover_def)

lemma flags_fewer:
  assumes "flags_cover (r, run)" "\<And>rd fd. busy rd fd r' = busy rd fd r"
    "\<And>rd fd. pending rd fd (tp_tasks (re_pool r') @ run') \<le> pending rd fd (tp_tasks (re_pool r) @ run)"
  shows "flags_cover (r', run')"
proof (rule flags_coverI)
  fix rd fd
  have "pending rd fd (tp_tasks (re_pool r) @ run) \<le> (if busy rd fd r then 1 else 0)"
    using assms(1) by (simp add: flags_cover_def)
  with assms(3) [of rd fd] show "pending rd fd (tp_tasks (re_pool r') @ run') \<le> (if busy rd fd r' then 1 else 0)"
    unfolding assms(2) by (rule order.trans)
qed

lemma flags_same_queue:
  assumes "flags_cover (r, run)" "\<And>rd fd. busy rd fd r' = busy rd fd r"
    "tp_tasks (re_pool r') @ run' = tp_tasks (re_pool r) @ run"
  shows "flags_cover (r', run')"
  by (rule flags_fewer [OF assms(1,2)]) (simp only: assms(3) order.refl)

lemma flags_raise:
  assumes f: "flags_cover (r, run)" and n: "\<not> busy rd fd r"
    and b: "\<And>rd' fd'. busy rd' fd' r' = (busy rd' fd' r \<or> rd' = rd \<and> fd' = fd)"
    and t: "tp_tasks (re_pool r') = tp_tasks (re_pool r) @ [t]"
    and k: "\<And>rd' fd'. is_task rd' fd' t \<longleftrightarrow> rd' = rd \<and> fd' = fd"
  shows "flags_cover (r', run)"
proof (rule flags_coverI)
  fix rd' fd'
  from flags_coverD [OF f, of rd' fd'] n
  show "pending rd' fd' (tp_tasks (re_pool r') @ run) \<le> (if busy rd' fd' r' then 1 else 0)"
    by (cases "rd' = rd \<and> fd' = fd") (auto simp: b t k)
qed

lemma flags_dispatch_read:
  assumes "flags_cover (r, run)" "wants_read (tracked_info fd r)"
  shows "flags_cover (dispatch_read fd r, run)"
proof (cases "map_of (re_tracked r) fd")
  case None
  with assms(1) show ?thesis by (simp add: dispatch_read_def)
next
  case (Some i)
  show ?thesis
  proof (rule flags_raise [OF assms(1)])
    show "\<not> busy True fd r" using assms(2) by (simp add: wants_read_def busy_def)
    show "busy rd' fd' (dispatch_read fd r) = (busy rd' fd' r \<or> rd' = True \<and> fd' = fd)" for rd' fd'
      using Some tracked_info_Some [OF Some] by (auto simp: dispatch_read_def busy_def Let_def)
    show "tp_tasks (re_pool (dispatch_read fd r)) = tp_tasks (re_pool r) @ [Read_Task fd (the (fi_rd i))]"
      using Some by (simp add: dispatch_read_def add_task_def Let_def)
  qed auto
qed

lemma flags_dispatch_write:
  assumes "flags_cover (r, run)" "wants_write (tracked_info fd r)"
  shows "flags_cover (dispatch_write fd r, run)"
proof (cases "map_of (re_tracked r) fd")
  case None
  with assms(1) show ?thesis by (simp add: dispatch_write_def)
next
  case (Some i)
  show ?thesis
  proof (rule flags_raise [OF assms(1)])
    show "\<not> busy False fd r" using assms(2) by (simp add: wants_write_def busy_def)
    show "busy rd' fd' (dispatch_write fd r) = (busy rd' fd' r \<or> rd' = False \<and> fd' = fd)" for rd' fd'
      using Some tracked_info_Some [OF Some] by (auto simp: dispatch_write_def busy_def Let_def)
    show "tp_tasks (re_pool (dispatch_write fd r)) = tp_tasks (re_pool r) @ [Write_Task fd (the (fi_wr i))]"
      using Some by (simp add: dispatch_write_def add_task_def Let_def)
  qed auto
qed

lemma flags_erase:
  assumes "flags_cover (r, run)" "\<not> busy True fd r" "\<not> busy False fd r"
  shows "flags_cover (erase_info fd r, run)"
  using assms(2,3) by (intro flags_same_queue [OF assms(1)]) (auto simp: busy_def)

lemma flags_dispatch_fd:
  assumes "flags_cover (r, run)"
  shows "flags_cover (dispatch_fd fd r, run)"
proof -
  define r1 where "r1 = (if fd \<in> set (re_rd_set r) \<and> wants_read (tracked_info fd r)
    then dispatch_read fd r else r)"
  define r2 where "r2 = (if fd \<in> set (re_wr_set r1) \<and> wants_write (tracked_info fd r1)
    then dispatch_write fd r1 else r1)"
  have 1: "flags_cover (r1, run)" using assms flags_dispatch_read by (auto simp: r1_def)
  have 2: "flags_cover (r2, run)" using 1 flags_dispatch_write by (auto simp: r2_def)
  have "flags_cover (r\<lparr>re_notifier := clear_pipe (re_notifier r)\<rparr>, run)"
    by (rule flags_same_queue [OF assms]) (simp_all add: busy_def)
  moreover have "flags_cover (erase_info fd r2, run)"
    if "\<not> fi_exec_rd (tracked_info fd r2)" "\<not> fi_exec_wr (tracked_info fd r2)"
    using flags_erase [OF 2] that by (simp add: busy_def)
  moreover have "dispatch_fd fd r =
    (if fd = get_read_fd (re_notifier r) \<and> fd \<in> set (re_rd_set r)
      then r\<lparr>re_notifier := clear_pipe (re_notifier r)\<rparr>
     else if map_of (re_tracked r) fd = None then r
     else if fi_untrack (tracked_info fd r2) \<and> \<not> fi_exec_rd (tracked_info fd r2)
       \<and> \<not> fi_exec_wr (tracked_info fd r2) then erase_info fd r2 else r2)"
    unfolding r2_def r1_def dispatch_fd_def Let_def by (rule refl)
  ultimately show ?thesis using assms 2 by simp
qed

lemma flags_dispatch_select:
  "flags_cover (r, run) \<Longrightarrow> flags_cover (dispatch_select r, run)"
proof -
  have "flags_cover (r, run) \<Longrightarrow> flags_cover (fold dispatch_fd fds r, run)" for fds
    by (induction fds arbitrary: r) (simp_all add: flags_dispatch_fd)
  then show "flags_cover (r, run) \<Longrightarrow> flags_cover (dispatch_select r, run)"
    by (simp add: dispatch_select_def)
qed

text \<open>A task that ends: its flag was set, so its entry is there.\<close>

lemma flags_finish:
  assumes "flags_cover (r, run1 @ t # run2)"
  shows "flags_cover (finish_task t r, run1 @ run2)"
proof -
  obtain rd fd where t: "\<And>rd' fd'. is_task rd' fd' t \<longleftrightarrow> rd' = rd \<and> fd' = fd"
    "\<And>r. finish_task t r = (if rd then finish_read fd r else finish_write fd r)"
    by (cases t) force+
  have p: "pending rd' fd' (tp_tasks (re_pool r) @ run1 @ t # run2) \<le> (if busy rd' fd' r then 1 else 0)"
    for rd' fd' using assms by (simp add: flags_cover_def)
  from p [of rd fd] have b: "busy rd fd r" by (auto simp: t split: if_splits)
  then obtain i where i: "map_of (re_tracked r) fd = Some i"
    using busy_untracked by fastforce
  have "busy rd' fd' (finish_task t r) = (busy rd' fd' r \<and> \<not> (rd' = rd \<and> fd' = fd))" for rd' fd'
    using i tracked_info_Some [OF i]
    by (auto simp: t(2) busy_def finish_read_def finish_write_def Let_def)
  moreover have "re_pool (finish_task t r) = re_pool r"
    using i by (simp add: t(2) finish_read_def finish_write_def Let_def)
  ultimately show ?thesis
  proof (intro flags_coverI)
    fix rd' fd'
    assume "\<And>rd' fd'. busy rd' fd' (finish_task t r) = (busy rd' fd' r \<and> \<not> (rd' = rd \<and> fd' = fd))"
      "re_pool (finish_task t r) = re_pool r"
    with p [of rd' fd'] b
    show "pending rd' fd' (tp_tasks (re_pool (finish_task t r)) @ run1 @ run2) \<le>
        (if busy rd' fd' (finish_task t r) then 1 else 0)"
      by (cases "rd' = rd \<and> fd' = fd") (auto simp: t(1) split: if_splits)
  qed
qed

lemma work_step_flags:
  assumes "work_step s s'" "flags_cover s"
  shows "flags_cover s'"
  using assms
proof cases
  case (take r t p run)
  then show ?thesis
    using assms(2) by (auto intro!: flags_fewer [of r run] simp: worker_runs_iff busy_def)
next
  case (throws run run1 t run2 r)
  with assms(2) show ?thesis by (auto intro!: flags_fewer [of r run])
next
  case (finish run run1 t run2 r)
  with assms(2) flags_finish show ?thesis by simp
next
  case (stop r run)
  with assms(2) show ?thesis
    by (auto intro!: flags_same_queue [of r run] simp: busy_def stop_reactor_def Let_def stop_pool_def)
qed (use assms(2) in \<open>auto simp: busy_user_ops intro: flags_same_queue\<close>)

lemma reactor_step_flags:
  assumes "reactor_step s s'" "flags_cover s"
  shows "flags_cover s'"
  using assms
proof cases
  case work
  with assms(2) show ?thesis using work_step_flags by blast
next
  case (poll_dispatch r run)
  with assms(2) flags_dispatch_select show ?thesis by simp
qed (use assms(2) in \<open>auto simp: busy_user_ops intro: flags_same_queue\<close>)

lemma reactor_reach_flags: "reactor_reach nf n s \<Longrightarrow> flags_cover s"
proof (induction rule: reactor_reach.induct)
  case start
  then show ?case
    by (simp add: flags_cover_def busy_def new_reactor_def tracked_info_def new_thread_pool_def)
next
  case (step s s')
  then show ?case using reactor_step_flags by blast
qed

definition sample_pipe :: pipe where
  "sample_pipe = \<lparr>pi_read = 3, pi_write = 4, pi_bytes = 0\<rparr>"

lemma sample_pipe_fd [simp]: "get_read_fd sample_pipe = 3"
  by (simp add: sample_pipe_def get_read_fd_def)

section \<open>Properties\<close>

text \<open>C22: however its users, its poll thread and its workers are interleaved, the reactor never
  has two read callbacks, nor two write callbacks, of one descriptor queued or running: the
  bytes of a connection are not handed to two workers at once.\<close>

theorem one_callback_per_descriptor:
  assumes "reactor_reach nf n (r, run)"
  shows "pending rd fd (tp_tasks (re_pool r) @ run) \<le> 1"
proof -
  from reactor_reach_flags [OF assms]
  have "pending rd fd (tp_tasks (re_pool r) @ run) \<le> (if busy rd fd r then 1 else 0)"
    by (simp add: flags_cover_def)
  then show ?thesis by (simp split: if_splits)
qed

theorem one_callback_per_descriptor_witness:
  "pending True 5 ([Read_Task 5 ''cb''] @ []) \<le> 1"
proof -
  let ?r0 = "new_reactor sample_pipe 2 :: string reactor"
  let ?r1 = "set_rd_callback 5 (Some ''cb'') ?r0"
  let ?r2 = "select_ready [5] [] (snd (init_select_fds ?r1))"
  let ?r3 = "dispatch_select ?r2"
  have "reactor_reach sample_pipe 2 (?r0, [])" by (rule reactor_reach.start)
  then have "reactor_reach sample_pipe 2 (?r1, [])" using reactor_reach.step reactor_step.work work_step.set_rd by blast
  then have "reactor_reach sample_pipe 2 (snd (init_select_fds ?r1), [])"
    using reactor_reach.step reactor_step.poll_init by blast
  then have "reactor_reach sample_pipe 2 (?r2, [])" using reactor_reach.step reactor_step.poll_select by blast
  then have "reactor_reach sample_pipe 2 (?r3, [])" using reactor_reach.step reactor_step.poll_dispatch by blast
  from one_callback_per_descriptor [OF this, of True 5]
  show ?thesis
    by (simp add: dispatch_select_def dispatch_fd_def select_ready_def init_select_fds_def
        set_rd_callback_def new_reactor_def put_info_def om_put_def notify_def tracked_info_def
        wants_read_def wants_write_def new_fd_info_def dispatch_read_def add_task_def
        new_thread_pool_def Let_def)
qed

text \<open>A descriptor whose number is taken again by a new connection while a callback of the
  old connection is still running loses the callback set for the new one: when the old
  callback ends the entry is erased, and no later poll watches the descriptor.\<close>

theorem reused_descriptor_is_dropped:
  assumes "map_of (re_tracked r) fd = Some info" "fi_exec_rd info" "\<not> fi_exec_wr info"
    "r' = finish_read fd (set_rd_callback fd (Some cb) (unregister fd r))" "fd \<noteq> get_read_fd (re_notifier r)"
  shows "map_of (re_tracked r') fd = None \<and> fd \<notin> set (re_rd_set (snd (init_select_fds r')))"
proof -
  let ?r2 = "set_rd_callback fd (Some cb) (unregister fd r)"
  have i: "map_of (re_tracked ?r2) fd = Some (info\<lparr>fi_untrack := True, fi_rd := Some cb\<rparr>)"
    using assms(1,2)
    by (simp add: set_rd_callback_def unregister_def notify_def put_info_def map_of_om_put
        tracked_info_def)
  have n: "get_read_fd (re_notifier r') = get_read_fd (re_notifier r)"
    using i assms(1-4)
    by (simp add: finish_read_def Let_def notify_def erase_info_def set_rd_callback_def put_info_def
        unregister_def)
  have e: "map_of (re_tracked r') fd = None"
    using i assms(3,4)
    by (simp add: finish_read_def Let_def notify_def erase_info_def map_of_om_erase)
  then have "fd \<notin> fst ` set (re_tracked r')" by (simp add: map_of_eq_None_iff)
  with e n assms(5) show ?thesis by (auto simp: init_select_fds_def Let_def)
qed

theorem reused_descriptor_is_dropped_witness:
  "map_of (re_tracked (finish_read 5 (set_rd_callback 5 (Some ''new'') (unregister 5
     (dispatch_read 5 (set_rd_callback 5 (Some ''old'') (new_reactor sample_pipe 2))))))) 5 = None"
  using reused_descriptor_is_dropped [of "dispatch_read 5 (set_rd_callback 5 (Some ''old'') (new_reactor sample_pipe 2))"
      5 "\<lparr>fi_untrack = False, fi_exec_rd = True, fi_exec_wr = False, fi_rd = Some ''old'', fi_wr = None\<rparr>"
      _ "''new''"]
  by (simp add: dispatch_read_def set_rd_callback_def new_reactor_def put_info_def om_put_def
      notify_def tracked_info_def new_fd_info_def Let_def)

end
