(* ===== verification/Tcp_Net.thy ===== *)
theory Tcp_Net
  imports Reactor
begin

text \<open>
  Connections, \<^verbatim>\<open>Lab3/src/tcp_server/tcp_client.hpp\<close>, \<^verbatim>\<open>tcp_client.cpp\<close>,
  \<^verbatim>\<open>tcp_server.hpp\<close> and \<^verbatim>\<open>tcp_server.cpp\<close>: the queues of asynchronous reads and writes of
  a client, and the server that accepts clients, on top of the reactor. A shared pointer to
  a client is its handle, a number; the callbacks a user passes are values of the type
  parameters \<open>'r\<close> and \<open>'w\<close>. What a system call returns is an argument.
\<close>

section \<open>State\<close>

text \<open>A request is a size or the data, with its callback; a failed one has no result.\<close>

type_synonym 'r read_request = "nat \<times> 'r"

type_synonym 'w write_request = "string \<times> 'w"

type_synonym read_result = "string option"

type_synonym write_result = "nat option"

record ('r, 'w) tcp_client =
  tc_fd :: nat
  tc_connected :: bool
  tc_reads :: "'r read_request list"
  tc_writes :: "'w write_request list"
  tc_on_disconnection :: bool

text \<open>The callbacks bound for the reactor: the two of a client, and that of the listening socket.\<close>

datatype net_cb = Client_Readable nat | Client_Writable nat | Server_Readable

text \<open>The callback the server sets with \<open>tc_on_disconnection\<close> is \<open>on_client_disconnect\<close>.\<close>

record ('r, 'w) net =
  n_reactor :: "net_cb reactor"
  n_clients :: "nat \<Rightarrow> ('r, 'w) tcp_client"
  n_running :: bool
  n_server_fd :: nat
  n_server_clients :: "nat list"

definition put_client :: "nat \<Rightarrow> ('r, 'w) tcp_client \<Rightarrow> ('r, 'w) net \<Rightarrow> ('r, 'w) net" where
  "put_client h c n = n\<lparr>n_clients := (n_clients n)(h := c)\<rparr>"

section \<open>Clients\<close>

definition on_client_disconnect :: "nat \<Rightarrow> ('r, 'w) net \<Rightarrow> ('r, 'w) net" where
  "on_client_disconnect h n =
     (if \<not> n_running n then n else n\<lparr>n_server_clients := remove1 h (n_server_clients n)\<rparr>)"

definition disconnect :: "nat \<Rightarrow> ('r, 'w) net \<Rightarrow> ('r, 'w) net" where
  "disconnect h n =
     (let c = n_clients n h
      in if \<not> tc_connected c then n
         else let n1 = put_client h (c\<lparr>tc_connected := False, tc_reads := [], tc_writes := []\<rparr>) n;
                  n2 = n1\<lparr>n_reactor := unregister (tc_fd c) (n_reactor n1)\<rparr>
              in if tc_on_disconnection c then on_client_disconnect h n2 else n2)"

text \<open>
  \<open>conn\<close>: the descriptor of \<^verbatim>\<open>socket_.connect\<close>, or the exception it throws, after which the
  socket is closed.
\<close>

definition client_connect :: "nat \<Rightarrow> nat result \<Rightarrow> ('r, 'w) net \<Rightarrow> ('r, 'w) net result" where
  "client_connect h conn n =
     (let c = n_clients n h
      in if tc_connected c then Inl (Std_Exception ''tcp_client is already connected'')
         else case conn of
                Inl e \<Rightarrow> Inl e
              | Inr fd \<Rightarrow>
                  Inr (put_client h (c\<lparr>tc_fd := fd, tc_connected := True\<rparr>)
                    (n\<lparr>n_reactor := register_fd fd None None (n_reactor n)\<rparr>)))"

definition async_read :: "nat \<Rightarrow> 'r read_request \<Rightarrow> ('r, 'w) net \<Rightarrow> ('r, 'w) net result" where
  "async_read h req n =
     (let c = n_clients n h
      in if tc_connected c
         then Inr (put_client h (c\<lparr>tc_reads := tc_reads c @ [req]\<rparr>)
                (n\<lparr>n_reactor := set_rd_callback (tc_fd c) (Some (Client_Readable h)) (n_reactor n)\<rparr>))
         else Inl (Std_Exception ''tcp_client is not connected''))"

definition async_write :: "nat \<Rightarrow> 'w write_request \<Rightarrow> ('r, 'w) net \<Rightarrow> ('r, 'w) net result" where
  "async_write h req n =
     (let c = n_clients n h
      in if tc_connected c
         then Inr (put_client h (c\<lparr>tc_writes := tc_writes c @ [req]\<rparr>)
                (n\<lparr>n_reactor := set_wr_callback (tc_fd c) (Some (Client_Writable h)) (n_reactor n)\<rparr>))
         else Inl (Std_Exception ''tcp_client is not connected''))"

text \<open>
  \<open>rcv\<close> is what the socket delivers when asked for the given number of bytes, \<open>None\<close> an
  exception. With no pending request \<open>result.success\<close> keeps its indeterminate value, \<open>junk\<close>.
\<close>

definition do_read :: "nat \<Rightarrow> (nat \<Rightarrow> string option) \<Rightarrow> bool \<Rightarrow> ('r, 'w) net
    \<Rightarrow> 'r option \<times> bool \<times> string \<times> ('r, 'w) net" where
  "do_read h rcv junk n =
     (let c = n_clients n h
      in case tc_reads c of
           [] \<Rightarrow> (None, junk, [], n)
         | (len, cb) # rest \<Rightarrow>
             (let n1 = put_client h (c\<lparr>tc_reads := rest\<rparr>) n;
                  n2 = (if rest = []
                        then n1\<lparr>n_reactor := set_rd_callback (tc_fd c) None (n_reactor n1)\<rparr> else n1)
              in (Some cb, rcv len \<noteq> None, (case rcv len of Some dat \<Rightarrow> dat | None \<Rightarrow> []), n2)))"

text \<open>\<open>snd_ok\<close> tells whether the socket takes the bytes.\<close>

definition do_write :: "nat \<Rightarrow> (string \<Rightarrow> bool) \<Rightarrow> bool \<Rightarrow> ('r, 'w) net
    \<Rightarrow> 'w option \<times> bool \<times> nat \<times> ('r, 'w) net" where
  "do_write h snd_ok junk n =
     (let c = n_clients n h
      in case tc_writes c of
           [] \<Rightarrow> (None, junk, 0, n)
         | (dat, cb) # rest \<Rightarrow>
             (let n1 = put_client h (c\<lparr>tc_writes := rest\<rparr>) n;
                  n2 = (if rest = []
                        then n1\<lparr>n_reactor := set_wr_callback (tc_fd c) None (n_reactor n1)\<rparr> else n1)
              in (Some cb, snd_ok dat, length dat, n2)))"

text \<open>The two callbacks the reactor runs; the user's callback, if any, is run by the caller.\<close>

definition on_read_available :: "nat \<Rightarrow> (nat \<Rightarrow> string option) \<Rightarrow> bool \<Rightarrow> ('r, 'w) net
    \<Rightarrow> ('r \<times> read_result) option \<times> ('r, 'w) net" where
  "on_read_available h rcv junk n =
     (let (user_cb, success, dat, n1) = do_read h rcv junk n;
          n2 = (if success then n1 else disconnect h n1)
      in (map_option (\<lambda>cb. (cb, if success then Some dat else None)) user_cb, n2))"

definition on_write_available :: "nat \<Rightarrow> (string \<Rightarrow> bool) \<Rightarrow> bool \<Rightarrow> ('r, 'w) net
    \<Rightarrow> ('w \<times> write_result) option \<times> ('r, 'w) net" where
  "on_write_available h snd_ok junk n =
     (let (user_cb, success, written, n1) = do_write h snd_ok junk n
      in (map_option (\<lambda>cb. (cb, if success then Some written else None)) user_cb,
          if success then n1 else disconnect h n1))"

section \<open>The server\<close>

definition new_client :: "nat \<Rightarrow> ('r, 'w) tcp_client" where
  "new_client fd =
     \<lparr>tc_fd = fd, tc_connected = True, tc_reads = [], tc_writes = [], tc_on_disconnection = False\<rparr>"

definition server_start :: "('r, 'w) net \<Rightarrow> ('r, 'w) net result" where
  "server_start n =
     (if n_running n then Inl (Std_Exception ''tcp_server is already running'')
      else Inr (n\<lparr>n_reactor := register_fd (n_server_fd n) (Some Server_Readable) None (n_reactor n),
                  n_running := True\<rparr>))"

definition server_stop :: "('r, 'w) net \<Rightarrow> ('r, 'w) net" where
  "server_stop n =
     (if \<not> n_running n then n
      else let n1 = n\<lparr>n_running := False, n_reactor := unregister (n_server_fd n) (n_reactor n)\<rparr>
           in (fold disconnect (n_server_clients n1) n1)\<lparr>n_server_clients := []\<rparr>)"

text \<open>
  \<^verbatim>\<open>tcp_server::on_read_available\<close>: \<open>accepted\<close> is the descriptor \<^verbatim>\<open>accept\<close> returns (\<open>None\<close>: it
  throws), \<open>h\<close> the handle of the client made for it, \<open>cb\<close> the user's callback for new clients.
\<close>

definition server_accept ::
    "(nat \<Rightarrow> ('r, 'w) net \<Rightarrow> ('r, 'w) net) \<Rightarrow> nat \<Rightarrow> nat option \<Rightarrow> ('r, 'w) net \<Rightarrow> ('r, 'w) net" where
  "server_accept cb h accepted n =
     (case accepted of
        None \<Rightarrow> server_stop n
      | Some fd \<Rightarrow>
          (let n1 = cb h (put_client h (new_client fd) n);
               n2 = put_client h ((n_clients n1 h)\<lparr>tc_on_disconnection := True\<rparr>) n1
           in n2\<lparr>n_server_clients := n_server_clients n2 @ [h]\<rparr>))"

section \<open>When the reactor watches a client\<close>

definition rd_armed :: "nat \<Rightarrow> ('r, 'w) net \<Rightarrow> bool" where
  "rd_armed h n \<longleftrightarrow> fi_rd (tracked_info (tc_fd (n_clients n h)) (n_reactor n)) \<noteq> None"

definition wr_armed :: "nat \<Rightarrow> ('r, 'w) net \<Rightarrow> bool" where
  "wr_armed h n \<longleftrightarrow> fi_wr (tracked_info (tc_fd (n_clients n h)) (n_reactor n)) \<noteq> None"

text \<open>
  A connected client is watched for exactly what it has requests for; one that is not
  connected has none.
\<close>

definition armed_exact :: "nat \<Rightarrow> ('r, 'w) net \<Rightarrow> bool" where
  "armed_exact h n \<longleftrightarrow>
     (if tc_connected (n_clients n h)
      then rd_armed h n = (tc_reads (n_clients n h) \<noteq> [])
        \<and> wr_armed h n = (tc_writes (n_clients n h) \<noteq> [])
      else tc_reads (n_clients n h) = [] \<and> tc_writes (n_clients n h) = [])"

lemmas armed_defs = armed_exact_def rd_armed_def wr_armed_def

lemma set_callback_info [simp]:
  "tracked_info fd (set_rd_callback fd' cb r) =
     (if fd = fd' then (tracked_info fd r)\<lparr>fi_rd := cb\<rparr> else tracked_info fd r)"
  "tracked_info fd (set_wr_callback fd' cb r) =
     (if fd = fd' then (tracked_info fd r)\<lparr>fi_wr := cb\<rparr> else tracked_info fd r)"
  by (simp_all add: set_rd_callback_def set_wr_callback_def)

lemma put_client_sel [simp]:
  "n_clients (put_client h c n) h' = (if h' = h then c else n_clients n h')"
  "n_reactor (put_client h c n) = n_reactor n"
  by (simp_all add: put_client_def)

lemma register_fd_info [simp]:
  "tracked_info fd (register_fd fd rd wr r) =
     (tracked_info fd r)\<lparr>fi_rd := rd, fi_wr := wr, fi_untrack := False\<rparr>"
  by (simp add: register_fd_def)

lemma armed_connect:
  "armed_exact h n \<Longrightarrow> client_connect h conn n = Inr n' \<Longrightarrow> armed_exact h n'"
  by (auto simp: client_connect_def armed_defs Let_def split: if_splits sum.splits)

lemma armed_async_read:
  "armed_exact h n \<Longrightarrow> async_read h req n = Inr n' \<Longrightarrow> armed_exact h n'"
  by (auto simp: async_read_def armed_defs Let_def split: if_splits)

lemma armed_async_write:
  "armed_exact h n \<Longrightarrow> async_write h req n = Inr n' \<Longrightarrow> armed_exact h n'"
  by (auto simp: async_write_def armed_defs Let_def split: if_splits)

lemma armed_do_read:
  "armed_exact h n \<Longrightarrow> do_read h rcv junk n = (cb, ok, dat, n') \<Longrightarrow> armed_exact h n'"
  by (auto simp: do_read_def armed_defs Let_def split: list.splits if_splits)

lemma armed_do_write:
  "armed_exact h n \<Longrightarrow> do_write h snd_ok junk n = (cb, ok, k, n') \<Longrightarrow> armed_exact h n'"
  by (auto simp: do_write_def armed_defs Let_def split: list.splits if_splits)

lemma disconnect_disconnects [simp]: "\<not> tc_connected (n_clients (disconnect h n) h)"
  by (simp add: disconnect_def on_client_disconnect_def Let_def)

lemma armed_disconnect: "armed_exact h n \<Longrightarrow> armed_exact h (disconnect h n)"
  by (auto simp: armed_exact_def disconnect_def on_client_disconnect_def Let_def split: if_splits)

text \<open>Requests are served first come, first served; a failed one ends the connection.\<close>

lemma on_read_available_spec:
  assumes "tc_reads (n_clients n h) = (len, cb) # rest" "on_read_available h rcv junk n = (res, n')"
  shows "res = Some (cb, rcv len)
    \<and> (if rcv len = None then \<not> tc_connected (n_clients n' h) else tc_reads (n_clients n' h) = rest)"
  using assms by (auto simp: on_read_available_def do_read_def Let_def split: option.splits if_splits)

text \<open>A network for the examples.\<close>

definition sample_net :: "(string option, bool) net" where
  "sample_net =
     \<lparr>n_reactor = new_reactor sample_pipe 2, n_clients = (\<lambda>_. new_client 5), n_running = True,
      n_server_fd = 4, n_server_clients = []\<rparr>"

end
