(* ===== verification/Coordinator.thy ===== *)
theory Coordinator
  imports Participant Configuration Tcp_Net
begin

text \<open>
  The coordinator, \<^verbatim>\<open>Lab3/src/coordinator.hpp\<close> and \<^verbatim>\<open>coordinator.cpp\<close>: it reads commands
  from its TCP clients, serves GET from one participant, and runs two-phase commit for SET
  and DEL over all participants it can reach; a heartbeat loop brings lost participants
  back. The RPC library is a parameter \<open>call\<close>: what a call to an address does to the rest of
  the system and what it answers, \<open>None\<close> for an exception (a timeout, a lost connection, an
  error the handler threw). Every operation below runs under \<^verbatim>\<open>participants_mutex_\<close> from its
  first access to the shared state to its last, so it is one step.
\<close>

section \<open>State\<close>

text \<open>What the coordinator does to the outside, in the order it happens.\<close>

datatype event =
    Ev_Log log_record
  | Ev_Call string rpc_request "rpc_response option"
  | Ev_Notify

type_synonym 'w rpc = "'w \<Rightarrow> string \<Rightarrow> rpc_request \<Rightarrow> 'w \<times> rpc_response option"

text \<open>
  \<open>co_participants\<close> are the keys of \<^verbatim>\<open>participants_\<close> in iteration order, each an address
  \<^verbatim>\<open>ip:port\<close> whose connection the map owns. A read callback of a client is
  \<^verbatim>\<open>handle_db_requests\<close> bound to \<^verbatim>\<open>prev_data\<close> (\<open>None\<close>: null); a write callback is \<open>True\<close>
  for the one that disconnects, \<open>False\<close> for a null callback.
\<close>

record 'w coordinator =
  co_conf :: coordinator_configuration
  co_net :: "(string option, bool) net"
  co_log :: record_manager
  co_participants :: "string list"
  co_del_keys :: "string list"
  co_next_id :: u32
  co_started :: bool
  co_recovered :: bool
  co_world :: 'w
  co_trace :: "event list"

definition new_coordinator ::
    "coordinator_configuration \<Rightarrow> record_manager \<Rightarrow> (string option, bool) net \<Rightarrow> 'w \<Rightarrow> 'w coordinator" where
  "new_coordinator conf lg net w =
     \<lparr>co_conf = move_coordinator_configuration conf, co_net = net, co_log = lg,
      co_participants = [], co_del_keys = [], co_next_id = 0, co_started = False,
      co_recovered = True, co_world = w, co_trace = []\<rparr>"

definition emit :: "event \<Rightarrow> 'w coordinator \<Rightarrow> 'w coordinator" where
  "emit e s = s\<lparr>co_trace := co_trace s @ [e]\<rparr>"

text \<open>\<^verbatim>\<open>client.call(...)\<close>, and the conversions of its answer, which throw on another type.\<close>

definition rpc_call :: "'w rpc \<Rightarrow> string \<Rightarrow> rpc_request \<Rightarrow> 'w coordinator
    \<Rightarrow> rpc_response option \<times> 'w coordinator" where
  "rpc_call call addr req s =
     (let (w, res) = call (co_world s) addr req
      in (res, emit (Ev_Call addr req res) (s\<lparr>co_world := w\<rparr>)))"

definition as_bool :: "rpc_response option \<Rightarrow> bool option" where
  "as_bool r = (case r of Some (Res_Bool b) \<Rightarrow> Some b | _ \<Rightarrow> None)"

definition as_string :: "rpc_response option \<Rightarrow> string option" where
  "as_string r = (case r of Some (Res_String x) \<Rightarrow> Some x | _ \<Rightarrow> None)"

definition as_u32 :: "rpc_response option \<Rightarrow> u32 option" where
  "as_u32 r = (case r of Some (Res_U32 n) \<Rightarrow> Some n | _ \<Rightarrow> None)"

definition as_bytes :: "rpc_response option \<Rightarrow> string option" where
  "as_bytes r = (case r of Some (Res_Bytes x) \<Rightarrow> Some x | _ \<Rightarrow> None)"

text \<open>\<^verbatim>\<open>r_manager_.log({status, id, next_id_})\<close>\<close>

definition log_status :: "u8 \<Rightarrow> u32 \<Rightarrow> 'w coordinator \<Rightarrow> 'w coordinator" where
  "log_status status i s =
     (let r = make_record status i (co_next_id s)
      in emit (Ev_Log r) (s\<lparr>co_log := rm_log r (co_log s)\<rparr>))"

definition add_participant :: "string \<Rightarrow> 'w coordinator \<Rightarrow> 'w coordinator" where
  "add_participant addr s = s\<lparr>co_participants := os_put addr (co_participants s)\<rparr>"

definition drop_participant :: "string \<Rightarrow> 'w coordinator \<Rightarrow> 'w coordinator" where
  "drop_participant addr s = s\<lparr>co_participants := os_erase addr (co_participants s)\<rparr>"

section \<open>Answers\<close>

definition send_result :: "nat \<Rightarrow> string \<Rightarrow> bool \<Rightarrow> 'w coordinator \<Rightarrow> 'w coordinator" where
  "send_result client msg cb s =
     (case async_write client (msg, cb) (co_net s) of
        Inr net \<Rightarrow> s\<lparr>co_net := net\<rparr>
      | Inl e \<Rightarrow> s\<lparr>co_net := disconnect client (co_net s)\<rparr>)"

definition send_error :: "nat \<Rightarrow> 'w coordinator \<Rightarrow> 'w coordinator" where
  "send_error client s = send_result client error_string True s"

definition notify_if :: "bool \<Rightarrow> 'w coordinator \<Rightarrow> 'w coordinator" where
  "notify_if dead s = (if dead then emit Ev_Notify s else s)"

section \<open>Two-phase commit\<close>

text \<open>
  The loops over \<^verbatim>\<open>participants_\<close>: an unreachable participant is erased, and the iteration
  goes on with the next address. The PREPARE loop stops at the first refusal.
\<close>

fun prepare_loop :: "'w rpc \<Rightarrow> rpc_request \<Rightarrow> string list \<Rightarrow> bool \<Rightarrow> 'w coordinator
    \<Rightarrow> bool \<times> bool \<times> 'w coordinator" where
  "prepare_loop call req [] dead s = (True, dead, s)"
| "prepare_loop call req (a # rest) dead s =
     (case rpc_call call a req s of
        (res, s1) \<Rightarrow>
          (case as_bool res of
             None \<Rightarrow> prepare_loop call req rest True (drop_participant a s1)
           | Some prepare_ok \<Rightarrow>
               if prepare_ok then prepare_loop call req rest dead s1 else (False, dead, s1)))"

fun commit_loop :: "'w rpc \<Rightarrow> u32 \<Rightarrow> string list \<Rightarrow> string \<Rightarrow> bool \<Rightarrow> 'w coordinator
    \<Rightarrow> string \<times> bool \<times> 'w coordinator" where
  "commit_loop call i [] ret dead s = (ret, dead, s)"
| "commit_loop call i (a # rest) ret dead s =
     (case rpc_call call a (Rpc_COMMIT i) s of
        (res, s1) \<Rightarrow>
          (case as_string res of
             None \<Rightarrow> commit_loop call i rest ret True (drop_participant a s1)
           | Some x \<Rightarrow> commit_loop call i rest (if ret = [] then x else ret) dead s1))"

fun abort_loop :: "'w rpc \<Rightarrow> u32 \<Rightarrow> string list \<Rightarrow> bool \<Rightarrow> 'w coordinator \<Rightarrow> bool \<times> 'w coordinator" where
  "abort_loop call i [] dead s = (dead, s)"
| "abort_loop call i (a # rest) dead s =
     (case rpc_call call a (Rpc_ABORT i) s of
        (res, s1) \<Rightarrow>
          (if as_bool res = Some True then abort_loop call i rest dead s1
           else abort_loop call i rest True (drop_participant a s1)))"

text \<open>\<open>client\<close> is \<open>None\<close> when the call comes from recovery.\<close>

definition commit_db_request :: "'w rpc \<Rightarrow> nat option \<Rightarrow> u32 \<Rightarrow> bool \<Rightarrow> 'w coordinator
    \<Rightarrow> bool \<times> 'w coordinator" where
  "commit_db_request call client i dead s =
     (let s1 = log_status RECORD_COMMIT i s;
          (ret, dead', s2) = commit_loop call i (co_participants s1) [] dead s1;
          s3 = (if co_participants s2 \<noteq> [] then log_status RECORD_COMMIT_DONE i s2 else s2)
      in (dead', case client of None \<Rightarrow> s3 | Some c \<Rightarrow> send_result c ret False s3))"

definition abort_db_request :: "'w rpc \<Rightarrow> nat option \<Rightarrow> u32 \<Rightarrow> bool \<Rightarrow> 'w coordinator
    \<Rightarrow> bool \<times> 'w coordinator" where
  "abort_db_request call client i dead s =
     (let s1 = log_status RECORD_ABORT i s;
          (dead', s2) = abort_loop call i (co_participants s1) dead s1;
          s3 = (if co_participants s2 \<noteq> [] then log_status RECORD_ABORT_DONE i s2 else s2)
      in (dead', case client of None \<Rightarrow> s3 | Some c \<Rightarrow> send_error c s3))"

text \<open>\<^verbatim>\<open>next_id_.fetch_add(1)\<close>\<close>

definition take_id :: "'w coordinator \<Rightarrow> 'w coordinator" where
  "take_id s = s\<lparr>co_next_id := co_next_id s + 1\<rparr>"

text \<open>The first half of an update: take an id, log it, and send PREPARE around.\<close>

definition start_update :: "'w rpc \<Rightarrow> (command \<Rightarrow> rpc_request) \<Rightarrow> command \<Rightarrow> 'w coordinator
    \<Rightarrow> bool \<times> bool \<times> command \<times> 'w coordinator" where
  "start_update call mk cmd0 s =
     (let cmd = set_id (co_next_id s) cmd0;
          s1 = take_id s;
          s2 = log_status RECORD_UNRESOLVED (cmd_id cmd) s1;
          (prepare_ok, dead, s3) = prepare_loop call (mk cmd) (co_participants s2) False s2
      in (prepare_ok, dead, cmd, s3))"

definition handle_db_set_request :: "'w rpc \<Rightarrow> nat \<Rightarrow> command \<Rightarrow> 'w coordinator \<Rightarrow> 'w coordinator" where
  "handle_db_set_request call client cmd0 s =
     (if co_participants s = [] then send_error client s
      else let (prepare_ok, dead, cmd, s1) = start_update call Rpc_PREPARE_SET cmd0 s
           in if co_participants s1 = [] then send_error client s1
              else let (dead', s2) = (if prepare_ok
                     then commit_db_request call (Some client) (cmd_id cmd) dead s1
                     else abort_db_request call (Some client) (cmd_id cmd) dead s1)
                   in notify_if dead' s2)"

definition remember_deleted :: "command \<Rightarrow> 'w coordinator \<Rightarrow> 'w coordinator" where
  "remember_deleted cmd s =
     (if length (co_participants s) < length (participant_addrs (co_conf s))
      then s\<lparr>co_del_keys := fold os_put (args cmd) (co_del_keys s)\<rparr> else s)"

definition handle_db_del_request :: "'w rpc \<Rightarrow> nat \<Rightarrow> command \<Rightarrow> 'w coordinator \<Rightarrow> 'w coordinator" where
  "handle_db_del_request call client cmd0 s =
     (if co_participants s = [] then send_error client s
      else let (prepare_ok, dead, cmd, s1) = start_update call Rpc_PREPARE_DEL cmd0 s
           in if co_participants s1 = [] then send_error client s1
              else let (dead', s2) = (if prepare_ok
                     then let (d, s') = commit_db_request call (Some client) (cmd_id cmd) dead s1
                          in (d, remember_deleted cmd s')
                     else abort_db_request call (Some client) (cmd_id cmd) dead s1)
                   in notify_if dead' s2)"

section \<open>GET\<close>

fun get_loop :: "'w rpc \<Rightarrow> nat \<Rightarrow> command \<Rightarrow> string list \<Rightarrow> bool \<Rightarrow> 'w coordinator
    \<Rightarrow> bool \<times> 'w coordinator" where
  "get_loop call client cmd [] dead s = (dead, send_error client s)"
| "get_loop call client cmd (a # rest) dead s =
     (case rpc_call call a (Rpc_GET cmd) s of
        (res, s1) \<Rightarrow>
          (case as_string res of
             Some value \<Rightarrow> (dead, send_result client value False s1)
           | None \<Rightarrow> get_loop call client cmd rest True (drop_participant a s1)))"

definition handle_db_get_request :: "'w rpc \<Rightarrow> nat \<Rightarrow> command \<Rightarrow> 'w coordinator \<Rightarrow> 'w coordinator" where
  "handle_db_get_request call client cmd s =
     (if co_participants s = [] then send_error client s
      else let (dead, s1) = get_loop call client cmd (co_participants s) False s
           in notify_if dead s1)"

section \<open>Client requests\<close>

lemma read_command_shrinks:
  assumes "read_command p = Inr (c, q)"
  shows "length (p_data q) - p_idx q < length (p_data p) - p_idx p"
proof (cases "p_wf p")
  case True
  from read_command_progress [OF True assms] cmd.read_bounds [OF True assms]
  show ?thesis by (auto simp: p_wf_def)
next
  case False
  then have "\<exists>e. read_command p = Inl e"
    by (auto simp: p_wf_def read_command_def expect_char_def pbind_def read_char_def peek_char_def)
  with assms show ?thesis by simp
qed

text \<open>\<^verbatim>\<open>parse_db_requests\<close>: the commands read, how many bytes they took, and the exception
  that ended the loop, if any.\<close>

function parse_loop :: "parser \<Rightarrow> nat \<Rightarrow> command list \<times> nat \<times> exn option" where
  "parse_loop p parsed =
     (if is_done p then ([], parsed, None)
      else case read_command p of
             Inl e \<Rightarrow> ([], parsed, Some e)
           | Inr (cmd, q) \<Rightarrow>
               (case parse_loop q (bytes_parsed q) of (cmds, n, e) \<Rightarrow> (cmd # cmds, n, e)))"
  by pat_completeness auto
termination
  by (relation "measure (\<lambda>(p, n). length (p_data p) - p_idx p)")
    (auto dest: read_command_shrinks)

declare parse_loop.simps [simp del]

definition parse_db_requests :: "string \<Rightarrow> command list \<times> nat \<times> exn option" where
  "parse_db_requests dat = parse_loop (new_parser dat) 0"

definition dispatch_request :: "'w rpc \<Rightarrow> nat \<Rightarrow> command \<Rightarrow> 'w coordinator \<Rightarrow> 'w coordinator" where
  "dispatch_request call client cmd s =
     (if cmd_type cmd = CMD_GET then handle_db_get_request call client cmd s
      else if cmd_type cmd = CMD_SET then handle_db_set_request call client cmd s
      else if cmd_type cmd = CMD_DEL then handle_db_del_request call client cmd s
      else send_error client s)"

text \<open>\<^verbatim>\<open>client->async_read\<close> inside a \<^verbatim>\<open>try\<close> that ignores the exception.\<close>

definition read_again :: "nat \<Rightarrow> string option \<Rightarrow> 'w coordinator \<Rightarrow> 'w coordinator" where
  "read_again client prev_data s =
     (case async_read client (1024, prev_data) (co_net s) of
        Inr net \<Rightarrow> s\<lparr>co_net := net\<rparr>
      | Inl e \<Rightarrow> s)"

definition handle_new_client :: "nat \<Rightarrow> 'w coordinator \<Rightarrow> 'w coordinator" where
  "handle_new_client client s = read_again client None s"

definition handle_command_error :: "nat \<Rightarrow> string \<Rightarrow> bool \<Rightarrow> 'w coordinator \<Rightarrow> 'w coordinator" where
  "handle_command_error client dat is_incomplete s =
     (if \<not> is_incomplete then send_error client s else read_again client (Some dat) s)"

definition handle_db_requests ::
    "'w rpc \<Rightarrow> nat \<Rightarrow> string option \<Rightarrow> string option \<Rightarrow> 'w coordinator \<Rightarrow> 'w coordinator" where
  "handle_db_requests call client prev_data req s =
     (case req of
        None \<Rightarrow> s\<lparr>co_net := disconnect client (co_net s)\<rparr>
      | Some req_data \<Rightarrow>
          (let dat = (case prev_data of None \<Rightarrow> [] | Some prev \<Rightarrow> prev) @ req_data;
               (cmds, parsed, err) = parse_db_requests dat;
               s1 = fold (dispatch_request call client) cmds s
           in case err of
                Some e \<Rightarrow> handle_command_error client (drop parsed dat) (is_incomplete_error e) s1
              | None \<Rightarrow> read_again client None s1))"

text \<open>The reactor runs the callback of a client: the client's queue first, then the bound handler.\<close>

definition client_readable :: "'w rpc \<Rightarrow> nat \<Rightarrow> (nat \<Rightarrow> string option) \<Rightarrow> bool \<Rightarrow> 'w coordinator
    \<Rightarrow> 'w coordinator" where
  "client_readable call client rcv junk s =
     (let (cb, net) = on_read_available client rcv junk (co_net s);
          s1 = s\<lparr>co_net := net\<rparr>
      in case cb of
           None \<Rightarrow> s1
         | Some (prev_data, req) \<Rightarrow> handle_db_requests call client prev_data req s1)"

definition client_writable :: "nat \<Rightarrow> (string \<Rightarrow> bool) \<Rightarrow> bool \<Rightarrow> 'w coordinator \<Rightarrow> 'w coordinator" where
  "client_writable client snd_ok junk s =
     (let (cb, net) = on_write_available client snd_ok junk (co_net s)
      in s\<lparr>co_net := if map_option fst cb = Some True then disconnect client net else net\<rparr>)"

section \<open>Recovery\<close>

definition conf_addresses :: "coordinator_configuration \<Rightarrow> string list" where
  "conf_addresses conf =
     map (\<lambda>(ip, port). ip @ '':'' @ to_string (unat port))
       (zip (participant_addrs conf) (participant_ports conf))"

text \<open>Both tests look the id up in the table of unfinished records.\<close>

definition record_is :: "u32 \<Rightarrow> u8 \<Rightarrow> 'w coordinator \<Rightarrow> bool" where
  "record_is i status s =
     (case map_of (rm_records (co_log s)) i of None \<Rightarrow> False | Some r \<Rightarrow> r_status r = status)"

definition init_participant :: "'w rpc \<Rightarrow> string \<Rightarrow> 'w coordinator \<Rightarrow> 'w coordinator" where
  "init_participant call addr s =
     (let s1 = add_participant addr s;
          (res, s2) = rpc_call call addr Rpc_NEXT_ID s1
      in case as_u32 res of
           None \<Rightarrow> drop_participant addr s2
         | Some p_next_id \<Rightarrow>
             if \<not> co_recovered s2
             then (case rpc_call call addr (Rpc_SET_NEXT_ID (co_next_id s2)) s2 of
                     (None, s3) \<Rightarrow> drop_participant addr s3
                   | (Some _, s3) \<Rightarrow> s3)
             else if p_next_id = co_next_id s2 then s2
             else if p_next_id + 1 = co_next_id s2 \<and> record_is (co_next_id s2) RECORD_ABORT s2
             then s2
             else drop_participant addr s2)"

definition init_participants :: "'w rpc \<Rightarrow> 'w coordinator \<Rightarrow> 'w coordinator" where
  "init_participants call s = fold (init_participant call) (conf_addresses (co_conf s)) s"

text \<open>\<open>default: assert(0)\<close> is undefined here.\<close>

fun unfinished_loop :: "'w rpc \<Rightarrow> (u32 \<times> log_record) list \<Rightarrow> bool \<Rightarrow> 'w coordinator
    \<Rightarrow> 'w coordinator result" where
  "unfinished_loop call [] dead s = Inr s"
| "unfinished_loop call ((k, r) # rs) dead s =
     (if r_status r = RECORD_UNRESOLVED \<or> r_status r = RECORD_ABORT then
        (case abort_db_request call None (r_id r) dead s of (dead', s1) \<Rightarrow> unfinished_loop call rs dead' s1)
      else if r_status r = RECORD_COMMIT then
        (case commit_db_request call None (r_id r) dead s of (dead', s1) \<Rightarrow> unfinished_loop call rs dead' s1)
      else Inl (Undefined ''assertion failed''))"

definition handle_unfinished_records :: "'w rpc \<Rightarrow> 'w coordinator \<Rightarrow> 'w coordinator result" where
  "handle_unfinished_records call s = unfinished_loop call (rm_records (co_log s)) False s"

text \<open>\<open>rnd\<close> is what \<^verbatim>\<open>std::rand\<close> returns.\<close>

definition recovery :: "'w rpc \<Rightarrow> u32 \<Rightarrow> 'w coordinator \<Rightarrow> 'w coordinator result" where
  "recovery call rnd s =
     (let s1 = s\<lparr>co_next_id := rm_next_id (co_log s)\<rparr>;
          s2 = (if co_next_id s1 = 0 then s1\<lparr>co_next_id := rnd, co_recovered := False\<rparr> else s1)
      in handle_unfinished_records call (init_participants call s2))"

text \<open>\<open>None\<close>: an exception leaves \<^verbatim>\<open>recover_participant\<close>. The answer of RECOVER is not looked at.\<close>

fun snapshot_loop :: "'w rpc \<Rightarrow> string \<Rightarrow> string list \<Rightarrow> 'w coordinator \<Rightarrow> bool \<times> 'w coordinator" where
  "snapshot_loop call addr [] s = (False, s)"
| "snapshot_loop call addr (p # rest) s =
     (case rpc_call call p Rpc_GET_SNAPSHOT s of
        (res, s1) \<Rightarrow>
          (case as_bytes res of
             None \<Rightarrow> snapshot_loop call addr rest (drop_participant p s1)
           | Some snapshot \<Rightarrow>
               (case rpc_call call addr (Rpc_RECOVER snapshot (co_del_keys s1)) s1 of
                  (None, s2) \<Rightarrow> (False, s2)
                | (Some _, s2) \<Rightarrow>
                    (case rpc_call call addr (Rpc_SET_NEXT_ID (co_next_id s1)) s2 of
                       (None, s3) \<Rightarrow> (False, s3)
                     | (Some _, s3) \<Rightarrow> (True, s3)))))"

definition recover_participant :: "'w rpc \<Rightarrow> string \<Rightarrow> 'w coordinator
    \<Rightarrow> bool option \<times> 'w coordinator" where
  "recover_participant call addr s =
     (if \<not> co_recovered s then
        (case rpc_call call addr (Rpc_SET_NEXT_ID (co_next_id s)) s of
           (None, s1) \<Rightarrow> (None, s1)
         | (Some _, s1) \<Rightarrow> (Some True, s1\<lparr>co_recovered := True\<rparr>))
      else case rpc_call call addr Rpc_NEXT_ID s of
             (res, s1) \<Rightarrow>
               (case as_u32 res of
                  None \<Rightarrow> (None, s1)
                | Some p_next_id \<Rightarrow>
                    if p_next_id = co_next_id s1 then (Some True, s1)
                    else if p_next_id + 1 = co_next_id s1 \<and> record_is p_next_id RECORD_UNRESOLVED s1
                    then (Some True, s1)
                    else case snapshot_loop call addr (co_participants s1) s1 of
                           (ok, s2) \<Rightarrow> (Some ok, s2)))"

text \<open>The body of the heartbeat loop for one address, and one pass over all of them.\<close>

definition heartbeat_participant :: "'w rpc \<Rightarrow> string \<Rightarrow> 'w coordinator \<Rightarrow> 'w coordinator result" where
  "heartbeat_participant call addr s =
     (case rpc_call call addr Rpc_HEARTBEAT s of
        (None, s1) \<Rightarrow> Inr (drop_participant addr s1)
      | (Some _, s1) \<Rightarrow>
          if addr \<in> set (co_participants s1) then Inr s1
          else case recover_participant call addr s1 of
                 (None, s2) \<Rightarrow> Inr (drop_participant addr s2)
               | (Some False, s2) \<Rightarrow> Inr s2
               | (Some True, s2) \<Rightarrow>
                   (let s3 = add_participant addr s2;
                        s4 = (if length (co_participants s3) = length (participant_addrs (co_conf s3))
                              then s3\<lparr>co_del_keys := []\<rparr> else s3)
                    in handle_unfinished_records call s4))"

fun heartbeat_round :: "'w rpc \<Rightarrow> string list \<Rightarrow> 'w coordinator \<Rightarrow> 'w coordinator result" where
  "heartbeat_round call [] s = Inr s"
| "heartbeat_round call (a # rest) s =
     res_bind (heartbeat_participant call a s) (heartbeat_round call rest)"

text \<open>\<^verbatim>\<open>start\<close> and \<^verbatim>\<open>async_start\<close> differ in the thread that runs the heartbeat passes.\<close>

definition start_coordinator :: "'w rpc \<Rightarrow> u32 \<Rightarrow> 'w coordinator \<Rightarrow> 'w coordinator result" where
  "start_coordinator call rnd s =
     (if co_started s then Inl (Server_Error ''coordinator has already started'')
      else case server_start (co_net s) of
             Inl e \<Rightarrow> Inl e
           | Inr net \<Rightarrow> recovery call rnd (s\<lparr>co_started := True, co_net := net\<rparr>))"

section \<open>The connections do not influence the protocol\<close>

text \<open>Two states that differ in nothing but the state of the connections.\<close>

definition same_core :: "'w coordinator \<Rightarrow> 'w coordinator \<Rightarrow> bool" where
  "same_core s t \<longleftrightarrow> s\<lparr>co_net := co_net t\<rparr> = t"

lemma same_core_refl [simp]: "same_core s s"
  by (simp add: same_core_def)

lemma same_core_sym: "same_core s t \<Longrightarrow> same_core t s"
  by (cases s, cases t) (simp add: same_core_def)

lemma same_core_trans: "same_core s t \<Longrightarrow> same_core t u \<Longrightarrow> same_core s u"
  by (cases s, cases t, cases u) (simp add: same_core_def)

lemma same_core_net [simp]: "same_core (s\<lparr>co_net := n\<rparr>) t = same_core s t"
  "same_core s (t\<lparr>co_net := n\<rparr>) = same_core s t"
  by (cases s, cases t, simp add: same_core_def)+

lemma same_core_sel:
  assumes "same_core s t"
  shows "co_conf s = co_conf t" "co_log s = co_log t" "co_participants s = co_participants t"
    "co_del_keys s = co_del_keys t" "co_next_id s = co_next_id t" "co_world s = co_world t"
    "co_started s = co_started t" "co_recovered s = co_recovered t" "co_trace s = co_trace t"
  using assms by (cases s, cases t, simp add: same_core_def)+

lemma with_net_steps:
  "rpc_call call a req (s\<lparr>co_net := n\<rparr>) = apsnd (\<lambda>s'. s'\<lparr>co_net := n\<rparr>) (rpc_call call a req s)"
  "emit e (s\<lparr>co_net := n\<rparr>) = (emit e s)\<lparr>co_net := n\<rparr>"
  "log_status st i (s\<lparr>co_net := n\<rparr>) = (log_status st i s)\<lparr>co_net := n\<rparr>"
  "drop_participant a (s\<lparr>co_net := n\<rparr>) = (drop_participant a s)\<lparr>co_net := n\<rparr>"
  "notify_if dead (s\<lparr>co_net := n\<rparr>) = (notify_if dead s)\<lparr>co_net := n\<rparr>"
  "remember_deleted cmd (s\<lparr>co_net := n\<rparr>) = (remember_deleted cmd s)\<lparr>co_net := n\<rparr>"
  "take_id (s\<lparr>co_net := n\<rparr>) = (take_id s)\<lparr>co_net := n\<rparr>"
  by (auto simp: take_id_def rpc_call_def emit_def log_status_def drop_participant_def notify_if_def
      remember_deleted_def Let_def split: prod.splits)

lemma with_net_prepare:
  "prepare_loop call req as dead (s\<lparr>co_net := n\<rparr>) =
     (case prepare_loop call req as dead s of (ok, d, s') \<Rightarrow> (ok, d, s'\<lparr>co_net := n\<rparr>))"
  by (induction as arbitrary: dead s)
    (auto simp: with_net_steps split: prod.splits option.splits)

lemma with_net_commit:
  "commit_loop call i as ret dead (s\<lparr>co_net := n\<rparr>) =
     (case commit_loop call i as ret dead s of (x, d, s') \<Rightarrow> (x, d, s'\<lparr>co_net := n\<rparr>))"
  by (induction as arbitrary: ret dead s)
    (simp_all add: with_net_steps split: prod.splits option.splits)

lemma with_net_abort:
  "abort_loop call i as dead (s\<lparr>co_net := n\<rparr>) =
     (case abort_loop call i as dead s of (d, s') \<Rightarrow> (d, s'\<lparr>co_net := n\<rparr>))"
  by (induction as arbitrary: dead s) (auto simp: with_net_steps split: prod.splits)

lemma same_core_send_result:
  "same_core s t \<Longrightarrow> same_core (send_result c msg cb s) (send_result c msg cb t)"
  by (simp add: send_result_def split: sum.splits)

lemma same_core_send_error:
  "same_core s t \<Longrightarrow> same_core (send_error c s) (send_error c t)"
  by (simp add: send_error_def same_core_send_result)

lemma same_coreE:
  assumes "same_core s t"
  obtains n where "t = s\<lparr>co_net := n\<rparr>"
  using assms by (metis same_core_def)

lemma same_core_commit:
  assumes "same_core s t"
  shows "fst (commit_db_request call cl i dead s) = fst (commit_db_request call cl i dead t)"
    "same_core (snd (commit_db_request call cl i dead s)) (snd (commit_db_request call cl i dead t))"
  using assms
  by (auto elim!: same_coreE simp: commit_db_request_def Let_def with_net_steps with_net_commit
      split: prod.splits option.splits intro!: same_core_send_result)

lemma same_core_abort:
  assumes "same_core s t"
  shows "fst (abort_db_request call cl i dead s) = fst (abort_db_request call cl i dead t)"
    "same_core (snd (abort_db_request call cl i dead s)) (snd (abort_db_request call cl i dead t))"
  using assms
  by (auto elim!: same_coreE simp: abort_db_request_def Let_def with_net_steps with_net_abort
      split: prod.splits option.splits intro!: same_core_send_error)

lemma with_net_start:
  "start_update call mk c (s\<lparr>co_net := n\<rparr>) =
     (case start_update call mk c s of (ok, d, cmd, s') \<Rightarrow> (ok, d, cmd, s'\<lparr>co_net := n\<rparr>))"
  by (simp add: start_update_def Let_def with_net_steps with_net_prepare split: prod.splits)

lemma same_core_steps:
  assumes "same_core s t"
  shows "same_core (notify_if dead s) (notify_if dead t)"
    "same_core (remember_deleted c s) (remember_deleted c t)"
    "same_core (drop_participant a s) (drop_participant a t)"
  using assms by (auto elim!: same_coreE simp: with_net_steps)

lemma same_core_start:
  assumes "same_core s t" "start_update call mk c s = (ok, d, cmd, s')"
  obtains t' where "start_update call mk c t = (ok, d, cmd, t')" "same_core s' t'"
  using assms by (auto elim!: same_coreE simp: with_net_start)

lemma same_core_set:
  assumes "same_core s t"
  shows "same_core (handle_db_set_request call cl c s) (handle_db_set_request call cl c t)"
proof -
  obtain ok d cmd s' where s': "start_update call Rpc_PREPARE_SET c s = (ok, d, cmd, s')"
    by (metis prod_cases4)
  obtain t' where t': "start_update call Rpc_PREPARE_SET c t = (ok, d, cmd, t')" "same_core s' t'"
    using same_core_start [OF assms s'] .
  note e = same_core_sel(3) [OF assms] same_core_sel(3) [OF t'(2)]
  show ?thesis
    using s' t' same_core_send_error [OF assms] same_core_send_error [OF t'(2)]
      same_core_commit [OF t'(2)] same_core_abort [OF t'(2)] e
    by (auto simp: handle_db_set_request_def Let_def case_prod_beta intro!: same_core_steps)
qed

lemma same_core_del:
  assumes "same_core s t"
  shows "same_core (handle_db_del_request call cl c s) (handle_db_del_request call cl c t)"
proof -
  obtain ok d cmd s' where s': "start_update call Rpc_PREPARE_DEL c s = (ok, d, cmd, s')"
    by (metis prod_cases4)
  obtain t' where t': "start_update call Rpc_PREPARE_DEL c t = (ok, d, cmd, t')" "same_core s' t'"
    using same_core_start [OF assms s'] .
  note e = same_core_sel(3) [OF assms] same_core_sel(3) [OF t'(2)]
  show ?thesis
    using s' t' same_core_send_error [OF assms] same_core_send_error [OF t'(2)]
      same_core_commit [OF t'(2)] same_core_abort [OF t'(2)] e
    by (auto simp: handle_db_del_request_def Let_def case_prod_beta intro!: same_core_steps)
qed

lemma same_core_get_loop:
  "same_core s t \<Longrightarrow> fst (get_loop call cl c as dead s) = fst (get_loop call cl c as dead t)
     \<and> same_core (snd (get_loop call cl c as dead s)) (snd (get_loop call cl c as dead t))"
proof (induction as arbitrary: dead s t)
  case Nil
  then show ?case by (simp add: same_core_send_error)
next
  case (Cons a as)
  obtain res s1 where s1: "rpc_call call a (Rpc_GET c) s = (res, s1)" by fastforce
  from Cons.prems s1 obtain t1 where "rpc_call call a (Rpc_GET c) t = (res, t1)" "same_core s1 t1"
    by (auto elim!: same_coreE simp: with_net_steps)
  with s1 Cons.IH [OF same_core_steps(3)] show ?case
    by (auto simp: same_core_send_result split: option.splits)
qed

lemma same_core_dispatch:
  assumes "same_core s t"
  shows "same_core (dispatch_request call cl c s) (dispatch_request call cl c t)"
  using same_core_get_loop [OF assms, of call cl c "co_participants t" False] same_core_sel(3) [OF assms]
    same_core_set [OF assms] same_core_del [OF assms] same_core_send_error [OF assms]
  by (auto simp: dispatch_request_def handle_db_get_request_def case_prod_beta intro!: same_core_steps)

lemma same_core_dispatches:
  "same_core s t \<Longrightarrow> same_core (fold (dispatch_request call cl) cs s) (fold (dispatch_request call cl) cs t)"
  by (induction cs arbitrary: s t) (simp_all add: same_core_dispatch)

text \<open>Serving a request neither ends a connection nor takes a pending read away.\<close>

definition same_reads :: "nat \<Rightarrow> 'w coordinator \<Rightarrow> 'w coordinator \<Rightarrow> bool" where
  "same_reads h s t \<longleftrightarrow>
     tc_connected (n_clients (co_net s) h) \<longrightarrow>
       tc_connected (n_clients (co_net t) h) \<and> tc_reads (n_clients (co_net t) h) = tc_reads (n_clients (co_net s) h)"

lemma same_reads_send_result: "same_reads h s (send_result c msg cb s)"
proof (cases "tc_connected (n_clients (co_net s) c)")
  case True
  then show ?thesis by (simp add: same_reads_def send_result_def async_write_def Let_def)
next
  case False
  then show ?thesis by (simp add: same_reads_def send_result_def async_write_def disconnect_def Let_def)
qed

lemma same_reads_trans: "same_reads h s t \<Longrightarrow> same_reads h t u \<Longrightarrow> same_reads h s u"
  by (simp add: same_reads_def)

lemma same_reads_net: "co_net t = co_net s \<Longrightarrow> same_reads h s t"
  by (simp add: same_reads_def)

lemma net_steps [simp]:
  "co_net (snd (rpc_call call a req s)) = co_net s"
  "co_net (emit e s) = co_net s"
  "co_net (log_status st i s) = co_net s"
  "co_net (drop_participant a s) = co_net s"
  "co_net (notify_if dead s) = co_net s"
  "co_net (remember_deleted cmd s) = co_net s"
  "co_net (take_id s) = co_net s"
  by (simp_all add: rpc_call_def emit_def log_status_def drop_participant_def notify_if_def
      remember_deleted_def take_id_def Let_def split: prod.splits)

lemma net_rpc_call: "rpc_call call a req s = (res, s') \<Longrightarrow> co_net s' = co_net s"
  by (metis net_steps(1) snd_conv)

lemma net_prepare: "prepare_loop call req as dead s = (ok, d, s') \<Longrightarrow> co_net s' = co_net s"
  by (induction as arbitrary: dead s)
    (auto split: prod.splits option.splits if_splits dest!: net_rpc_call)

lemma net_commit: "commit_loop call i as ret dead s = (x, d, s') \<Longrightarrow> co_net s' = co_net s"
  by (induction as arbitrary: ret dead s)
    (auto split: prod.splits option.splits dest!: net_rpc_call)

lemma net_abort: "abort_loop call i as dead s = (d, s') \<Longrightarrow> co_net s' = co_net s"
  by (induction as arbitrary: dead s)
    (auto split: prod.splits if_splits dest!: net_rpc_call)

lemma net_start: "start_update call mk c s = (ok, d, cmd, s') \<Longrightarrow> co_net s' = co_net s"
  by (auto simp: start_update_def Let_def split: prod.splits dest!: net_prepare)

lemma same_reads_sent: "co_net t = co_net s \<Longrightarrow> same_reads h s (send_result c msg cb t)"
  using same_reads_send_result [of h t c msg cb] by (simp add: same_reads_def)

lemma same_reads_commit:
  "commit_db_request call (Some cl) i dead s = (d, s') \<Longrightarrow> same_reads h s s'"
  by (auto simp: commit_db_request_def Let_def split: prod.splits dest!: net_commit
      intro!: same_reads_sent)

lemma same_reads_abort:
  "abort_db_request call (Some cl) i dead s = (d, s') \<Longrightarrow> same_reads h s s'"
  by (auto simp: abort_db_request_def send_error_def Let_def split: prod.splits dest!: net_abort
      intro!: same_reads_sent)

lemma same_reads_steps [simp]:
  "same_reads h s (notify_if dead t) = same_reads h s t"
  "same_reads h s (remember_deleted c t) = same_reads h s t"
  by (simp_all add: same_reads_def)

lemma same_reads_set: "same_reads h s (handle_db_set_request call cl c s)"
proof -
  obtain ok d cmd s' where s': "start_update call Rpc_PREPARE_SET c s = (ok, d, cmd, s')"
    by (metis prod_cases4)
  have "same_reads h s s'" using same_reads_net [OF net_start [OF s']] .
  then have "same_reads h s (snd (commit_db_request call (Some cl) i d s'))"
    "same_reads h s (snd (abort_db_request call (Some cl) i d s'))" for i
    by (metis prod.collapse same_reads_commit same_reads_trans)
      (metis \<open>same_reads h s s'\<close> prod.collapse same_reads_abort same_reads_trans)
  with s' same_reads_sent [OF net_start [OF s']] show ?thesis
    by (simp add: handle_db_set_request_def send_error_def Let_def case_prod_beta
        same_reads_send_result)
qed

lemma same_reads_del: "same_reads h s (handle_db_del_request call cl c s)"
proof -
  obtain ok d cmd s' where s': "start_update call Rpc_PREPARE_DEL c s = (ok, d, cmd, s')"
    by (metis prod_cases4)
  have "same_reads h s s'" using same_reads_net [OF net_start [OF s']] .
  then have "same_reads h s (snd (commit_db_request call (Some cl) i d s'))"
    "same_reads h s (snd (abort_db_request call (Some cl) i d s'))" for i
    by (metis prod.collapse same_reads_commit same_reads_trans)
      (metis \<open>same_reads h s s'\<close> prod.collapse same_reads_abort same_reads_trans)
  with s' same_reads_sent [OF net_start [OF s']] show ?thesis
    by (simp add: handle_db_del_request_def send_error_def Let_def case_prod_beta
        same_reads_send_result)
qed

lemma same_reads_get_loop:
  "get_loop call cl c as dead s = (d, s') \<Longrightarrow> co_net s = co_net s0 \<Longrightarrow> same_reads h s0 s'"
proof (induction as arbitrary: dead s)
  case Nil
  then show ?case by (auto simp: send_error_def intro: same_reads_sent)
next
  case (Cons a as)
  obtain res s1 where s1: "rpc_call call a (Rpc_GET c) s = (res, s1)" by fastforce
  with Cons.prems Cons.IH net_rpc_call [OF s1] show ?case
    by (auto split: option.splits intro!: same_reads_sent)
qed

lemma same_reads_get: "same_reads h s (handle_db_get_request call cl c s)"
proof -
  obtain d s' where g: "get_loop call cl c (co_participants s) False s = (d, s')" by fastforce
  from same_reads_get_loop [OF g refl, of h] show ?thesis
    by (simp add: handle_db_get_request_def g send_error_def same_reads_send_result)
qed

lemma same_reads_dispatch: "same_reads h s (dispatch_request call cl c s)"
  by (simp add: dispatch_request_def same_reads_get same_reads_set same_reads_del send_error_def
      same_reads_send_result)

lemma same_reads_dispatches: "same_reads h s (fold (dispatch_request call cl) cs s)"
proof (induction cs arbitrary: s)
  case Nil
  then show ?case by (simp add: same_reads_def)
next
  case (Cons c cs)
  show ?case using same_reads_trans [OF same_reads_dispatch Cons] by simp
qed

section \<open>A stream that arrives in pieces\<close>

lemma parse_loop_start: "parse_loop (p\<lparr>p_start_idx := k\<rparr>) n = parse_loop p n"
  by (subst (1 2) parse_loop.simps) (simp add: is_done_def read_command_def)

lemma parse_loop_cong:
  "p_data p = p_data q \<Longrightarrow> p_idx p = p_idx q \<Longrightarrow> parse_loop p n = parse_loop q n"
  using parse_loop_start [where p = p and k = "p_start_idx q" and n = n]
  by (cases p, cases q) simp

lemma parse_loop_done: "is_done p \<Longrightarrow> parse_loop p n = ([], n, None)"
  by (subst parse_loop.simps) simp

lemma parse_loop_stuck:
  "\<not> is_done p \<Longrightarrow> read_command p = Inl e \<Longrightarrow> parse_loop p n = ([], n, Some e)"
  by (subst parse_loop.simps) simp

lemma parse_loop_reads:
  "\<not> is_done p \<Longrightarrow> read_command p = Inr (c, q) \<Longrightarrow>
   parse_loop p n = (case parse_loop q (p_idx q) of (cs, m, e) \<Rightarrow> (c # cs, m, e))"
  by (subst parse_loop.simps) (simp add: bytes_parsed_def)

text \<open>A run of the loop from a parser within its buffer, by the three ways it can go on.\<close>

lemma parse_loop_induct [consumes 1, case_names finished stuck reads]:
  assumes wf: "p_wf p"
    and 1: "\<And>p. p_wf p \<Longrightarrow> is_done p \<Longrightarrow> P p"
    and 2: "\<And>p e. p_wf p \<Longrightarrow> \<not> is_done p \<Longrightarrow> read_command p = Inl e \<Longrightarrow> P p"
    and 3: "\<And>p c q. p_wf p \<Longrightarrow> \<not> is_done p \<Longrightarrow> read_command p = Inr (c, q) \<Longrightarrow> p_wf q \<Longrightarrow>
              p_data q = p_data p \<Longrightarrow> p_idx p \<le> p_idx q \<Longrightarrow> P q \<Longrightarrow> P p"
  shows "P p"
  using wf
proof (induction "length (p_data p) - p_idx p" arbitrary: p rule: less_induct)
  case less
  show ?case
  proof (cases "is_done p")
    case True
    with 1 less.prems show ?thesis .
  next
    case False
    show ?thesis
    proof (cases "read_command p")
      case (Inl e)
      with 2 less.prems False show ?thesis .
    next
      case (Inr cq)
      then obtain c q where r: "read_command p = Inr (c, q)" by (cases cq) auto
      note b = cmd.read_bounds [OF less.prems r]
      have "P q" using less.hyps [OF read_command_shrinks [OF r]] b by simp
      with 3 less.prems False r b show ?thesis by blast
    qed
  qed
qed

lemma parse_loop_bounds:
  assumes "p_wf p" "parse_loop p (p_idx p) = (cs, m, e)"
  shows "p_idx p \<le> m \<and> m \<le> length (p_data p) \<and> (e = None \<longrightarrow> m = length (p_data p))"
  using assms
proof (induction p arbitrary: cs rule: parse_loop_induct)
  case (finished p)
  then show ?case by (auto simp: parse_loop_done is_done_def p_wf_def)
next
  case (stuck p e)
  then show ?case by (auto simp: parse_loop_stuck p_wf_def)
next
  case (reads p c q)
  then show ?case by (auto simp: parse_loop_reads split: prod.splits)
qed

definition resumable :: "exn option \<Rightarrow> bool" where
  "resumable e = (case e of None \<Rightarrow> True | Some x \<Rightarrow> is_incomplete_error x)"

definition same_class_opt :: "exn option \<Rightarrow> exn option \<Rightarrow> bool" where
  "same_class_opt e e' = (case (e, e') of (None, None) \<Rightarrow> True | (Some x, Some y) \<Rightarrow> same_class x y | _ \<Rightarrow> False)"

lemma not_done_extend: "p_wf p \<Longrightarrow> \<not> is_done p \<Longrightarrow> \<not> is_done (p_extend ex p)"
  by (auto simp: is_done_def p_extend_def p_wf_def)

lemma parse_loop_extend:
  assumes "p_wf p" "parse_loop p (p_idx p) = (cs, m, e)" "resumable e"
  shows "parse_loop (p_extend ex p) (p_idx p) =
     (case parse_loop ((p_extend ex p)\<lparr>p_idx := m\<rparr>) m of (cs2, m2, e2) \<Rightarrow> (cs @ cs2, m2, e2))"
  using assms
proof (induction p arbitrary: cs rule: parse_loop_induct)
  case (finished p)
  then show ?case by (auto simp: parse_loop_done p_extend_def split: prod.splits)
next
  case (stuck p e')
  then show ?case by (auto simp: parse_loop_stuck p_extend_def split: prod.splits)
next
  case (reads p c q)
  then obtain cs' where cs': "parse_loop q (p_idx q) = (cs', m, e)" "cs = c # cs'"
    by (auto simp: parse_loop_reads split: prod.splits)
  have "parse_loop (p_extend ex p) (p_idx p) =
      (case parse_loop (p_extend ex q) (p_idx q) of (cs, m, e) \<Rightarrow> (c # cs, m, e))"
    using parse_loop_reads [OF not_done_extend [OF reads(1,2)] cmd.read_extend [OF reads(1,3)]]
    by (simp add: p_extend_def)
  also have "parse_loop ((p_extend ex q)\<lparr>p_idx := m\<rparr>) m = parse_loop ((p_extend ex p)\<lparr>p_idx := m\<rparr>) m"
    using reads(5) by (intro parse_loop_cong) (simp_all add: p_extend_def)
  ultimately show ?case
    using reads(7) [OF cs'(1) reads(9)] cs'(2) by (simp split: prod.splits)
qed

lemma parse_loop_final:
  assumes "p_wf p" "parse_loop p (p_idx p) = (cs, m, e)" "\<not> resumable e"
  shows "parse_loop (p_extend ex p) (p_idx p) = (cs, m, e)"
  using assms
proof (induction p arbitrary: cs rule: parse_loop_induct)
  case (finished p)
  then show ?case by (simp add: parse_loop_done resumable_def)
next
  case (stuck p e')
  then have e: "e = Some e'" "\<not> is_incomplete_error e'" "cs = []" "m = p_idx p"
    by (auto simp: parse_loop_stuck resumable_def)
  then show ?case
    using parse_loop_stuck [OF not_done_extend [OF stuck(1,2)] cmd.error_extend [OF stuck(1,3)]] by simp
next
  case (reads p c q)
  then obtain cs' where cs': "parse_loop q (p_idx q) = (cs', m, e)" "cs = c # cs'"
    by (auto simp: parse_loop_reads split: prod.splits)
  show ?case
    using parse_loop_reads [OF not_done_extend [OF reads(1,2)] cmd.read_extend [OF reads(1,3)]]
      reads(7) [OF cs'(1) reads(9)] cs'(2)
    by (simp add: p_extend_def)
qed

lemma parse_loop_shift:
  assumes "p_wf p" "k \<le> p_idx p" "parse_loop p (p_idx p) = (cs, m, e)"
  shows "\<exists>e'. parse_loop (p_shift k p) (p_idx p - k) = (cs, m - k, e') \<and> same_class_opt e e'"
  using assms
proof (induction p arbitrary: cs rule: parse_loop_induct)
  case (finished p)
  then have "is_done (p_shift k p)" by (simp add: is_done_def p_shift_def)
  with finished show ?case by (auto simp: parse_loop_done same_class_opt_def)
next
  case (stuck p e')
  then have "\<not> is_done (p_shift k p)" by (auto simp: is_done_def p_shift_def p_wf_def)
  moreover obtain e2 where "read_command (p_shift k p) = Inl e2" "same_class e' e2"
    using cmd.error_shift [OF stuck(1,4,3)] by blast
  ultimately show ?case using stuck by (auto simp: parse_loop_stuck same_class_opt_def)
next
  case (reads p c q)
  then obtain cs' where cs': "parse_loop q (p_idx q) = (cs', m, e)" "cs = c # cs'"
    by (auto simp: parse_loop_reads split: prod.splits)
  have "\<not> is_done (p_shift k p)" using reads by (auto simp: is_done_def p_shift_def p_wf_def)
  from parse_loop_reads [OF this cmd.read_shift [OF reads(1,8,3)]] reads(6-8) reads(7) [OF _ cs'(1)] cs'(2)
  show ?case by (auto simp: p_shift_def)
qed

text \<open>Parsing a stream in two pieces: the rest of the first piece goes in front of the second.\<close>

lemma parse_append:
  assumes 1: "parse_db_requests d1 = (cs1, m1, e1)" and r: "resumable e1"
    and 2: "parse_db_requests (drop m1 d1 @ d2) = (cs2, m2, e2)"
  shows "\<exists>e. parse_db_requests (d1 @ d2) = (cs1 @ cs2, m1 + m2, e) \<and> same_class_opt e e2"
proof -
  let ?p = "new_parser d1"
  have wf: "p_wf ?p" and run: "parse_loop ?p (p_idx ?p) = (cs1, m1, e1)"
    using 1 by (simp_all add: new_parser_ahead parse_db_requests_def) (simp add: new_parser_def)
  from parse_loop_bounds [OF wf run] have m1: "m1 \<le> length d1" by (simp add: new_parser_def)
  let ?q = "(p_extend d2 ?p)\<lparr>p_idx := m1\<rparr>"
  have q: "p_wf ?q" using m1 by (simp add: p_wf_def p_extend_def new_parser_def)
  obtain cs m e where l: "parse_loop ?q (p_idx ?q) = (cs, m, e)" by (metis prod_cases3)
  obtain e' where s: "parse_loop (p_shift m1 ?q) 0 = (cs, m - m1, e')" "same_class_opt e e'"
    using parse_loop_shift [OF q _ l, of m1] by auto
  have "parse_loop (p_shift m1 ?q) 0 = parse_db_requests (drop m1 d1 @ d2)"
    unfolding parse_db_requests_def
    by (rule parse_loop_cong) (use m1 in \<open>simp_all add: p_shift_def p_extend_def new_parser_def\<close>)
  with s 2 have eq: "cs = cs2" "m - m1 = m2" "e' = e2" by auto
  have "m1 \<le> m" using parse_loop_bounds [OF q l] by simp
  moreover have "parse_db_requests (d1 @ d2) = parse_loop (p_extend d2 ?p) (p_idx ?p)"
    by (simp add: parse_db_requests_def p_extend_def new_parser_def)
  ultimately show ?thesis
    using parse_loop_extend [OF wf run r, of d2] l s(2) eq by auto
qed

lemma same_class_resumable: "same_class_opt e e' \<Longrightarrow> resumable e = resumable e'"
  by (auto simp: same_class_opt_def resumable_def same_class_def split: option.splits)

text \<open>A client whose next read carries the bytes \<open>prev\<close> over from the last one.\<close>

definition waits_with :: "nat \<Rightarrow> string \<Rightarrow> 'w coordinator \<Rightarrow> bool" where
  "waits_with cl prev s \<longleftrightarrow>
     tc_connected (n_clients (co_net s) cl)
     \<and> (\<exists>p. tc_reads (n_clients (co_net s) cl) = [(1024, p)] \<and> (case p of None \<Rightarrow> [] | Some d \<Rightarrow> d) = prev)"

lemma read_again_waits:
  assumes "tc_connected (n_clients (co_net s) cl)" "tc_reads (n_clients (co_net s) cl) = []"
  shows "waits_with cl (case p of None \<Rightarrow> [] | Some d \<Rightarrow> d) (read_again cl p s) \<and> same_core s (read_again cl p s)"
  using assms by (auto simp: read_again_def async_read_def waits_with_def Let_def)

text \<open>
  One read of a client that delivers \<open>d\<close>: the commands that are complete are dispatched, and the
  next read carries the rest over.
\<close>

lemma client_readable_runs:
  assumes w: "waits_with cl prev s" and p: "parse_db_requests (prev @ d) = (cs, n, e)"
    and r: "resumable e"
  obtains net pd where
    "client_readable call cl (\<lambda>_. Some d) junk s =
       read_again cl pd (fold (dispatch_request call cl) cs (s\<lparr>co_net := net\<rparr>))"
    "tc_connected (n_clients net cl)" "tc_reads (n_clients net cl) = []"
    "tc_writes (n_clients net cl) = tc_writes (n_clients (co_net s) cl)"
    "(case pd of None \<Rightarrow> [] | Some x \<Rightarrow> x) = drop n (prev @ d)"
proof -
  obtain pv where c: "tc_connected (n_clients (co_net s) cl)"
    and rd: "tc_reads (n_clients (co_net s) cl) = [(1024, pv)]"
    and pv: "(case pv of None \<Rightarrow> [] | Some d \<Rightarrow> d) = prev"
    using w by (auto simp: waits_with_def)
  obtain net where net: "on_read_available cl (\<lambda>_. Some d) junk (co_net s) = (Some (pv, Some d), net)"
    "tc_connected (n_clients net cl)" "tc_reads (n_clients net cl) = []"
    "tc_writes (n_clients net cl) = tc_writes (n_clients (co_net s) cl)"
    using rd c by (simp add: on_read_available_def do_read_def Let_def)
  let ?pd = "if e = None then None else Some (drop n (prev @ d))"
  have "e = None \<Longrightarrow> drop n (prev @ d) = []"
    using parse_loop_bounds [of "new_parser (prev @ d)" cs n e] p new_parser_ahead(1)
    by (simp add: parse_db_requests_def new_parser_def)
  then have "(case ?pd of None \<Rightarrow> [] | Some x \<Rightarrow> x) = drop n (prev @ d)" by simp
  moreover have "client_readable call cl (\<lambda>_. Some d) junk s =
      read_again cl ?pd (fold (dispatch_request call cl) cs (s\<lparr>co_net := net\<rparr>))"
    using net p pv r
    by (auto simp: client_readable_def handle_db_requests_def handle_command_error_def resumable_def
        split: option.splits)
  ultimately show thesis using that net(2-4) by blast
qed

lemma client_readable_step:
  assumes "waits_with cl prev s" "parse_db_requests (prev @ d) = (cs, n, e)" "resumable e"
  shows "same_core (fold (dispatch_request call cl) cs s) (client_readable call cl (\<lambda>_. Some d) junk s)
    \<and> waits_with cl (drop n (prev @ d)) (client_readable call cl (\<lambda>_. Some d) junk s)"
proof -
  obtain net pd where run: "client_readable call cl (\<lambda>_. Some d) junk s =
       read_again cl pd (fold (dispatch_request call cl) cs (s\<lparr>co_net := net\<rparr>))"
    "tc_connected (n_clients net cl)" "tc_reads (n_clients net cl) = []"
    "(case pd of None \<Rightarrow> [] | Some x \<Rightarrow> x) = drop n (prev @ d)"
    using client_readable_runs [OF assms] by metis
  let ?t = "fold (dispatch_request call cl) cs (s\<lparr>co_net := net\<rparr>)"
  have t: "same_core (fold (dispatch_request call cl) cs s) ?t" by (rule same_core_dispatches) simp
  have "same_reads cl (s\<lparr>co_net := net\<rparr>) ?t" by (rule same_reads_dispatches)
  then have "tc_connected (n_clients (co_net ?t) cl)" "tc_reads (n_clients (co_net ?t) cl) = []"
    using run by (simp_all add: same_reads_def)
  from read_again_waits [OF this, of pd] run same_core_trans [OF t] show ?thesis by simp
qed

text \<open>A stream without an error is parsed piece by piece.\<close>

lemma parse_pieces:
  assumes "parse_db_requests (prev @ d @ ex) = (cs, n, e)" "resumable e"
  obtains cs1 n1 e1 cs2 n2 e2 where "parse_db_requests (prev @ d) = (cs1, n1, e1)" "resumable e1"
    "parse_db_requests (drop n1 (prev @ d) @ ex) = (cs2, n2, e2)" "resumable e2" "cs = cs1 @ cs2"
proof -
  obtain cs1 n1 e1 where 1: "parse_db_requests (prev @ d) = (cs1, n1, e1)" by (metis prod_cases3)
  have r1: "resumable e1"
  proof (rule ccontr)
    assume nr: "\<not> resumable e1"
    from parse_loop_final [OF new_parser_ahead(1), of "prev @ d" cs1 n1 e1 ex] 1 nr
    have "parse_db_requests (prev @ d @ ex) = (cs1, n1, e1)"
      by (simp add: parse_db_requests_def p_extend_def new_parser_def)
    with assms nr show False by simp
  qed
  obtain cs2 n2 e2 where 2: "parse_db_requests (drop n1 (prev @ d) @ ex) = (cs2, n2, e2)"
    by (metis prod_cases3)
  obtain e' where "parse_db_requests ((prev @ d) @ ex) = (cs1 @ cs2, n1 + n2, e')" "same_class_opt e' e2"
    using parse_append [OF 1 r1 2] by blast
  with assms have "cs = cs1 @ cs2" "resumable e2" using same_class_resumable by auto
  with that 1 r1 2 show thesis by blast
qed

lemma client_stream:
  "waits_with cl prev s \<Longrightarrow> parse_db_requests (prev @ concat ds) = (cs, n, e) \<Longrightarrow> resumable e \<Longrightarrow>
   same_core (fold (dispatch_request call cl) cs s)
     (fold (\<lambda>d. client_readable call cl (\<lambda>_. Some d) junk) ds s)
     \<or> ds = []"
proof (induction ds arbitrary: prev s cs n e)
  case (Cons d ds)
  obtain cs1 n1 e1 cs2 n2 e2 where 1: "parse_db_requests (prev @ d) = (cs1, n1, e1)" "resumable e1"
    and 2: "parse_db_requests (drop n1 (prev @ d) @ concat ds) = (cs2, n2, e2)" "resumable e2"
    and cs: "cs = cs1 @ cs2"
    by (rule parse_pieces [OF _ Cons.prems(3), of prev d "concat ds"]) (use Cons.prems(2) in simp)
  note step = client_readable_step [OF Cons.prems(1) 1, of call junk]
  show ?case
  proof (cases "ds = []")
    case True
    with 1 step Cons.prems(2) show ?thesis by simp
  next
    case False
    let ?s = "client_readable call cl (\<lambda>_. Some d) junk s"
    have "same_core (fold (dispatch_request call cl) cs2 ?s)
        (fold (\<lambda>d. client_readable call cl (\<lambda>_. Some d) junk) ds ?s)"
      using Cons.IH [OF conjunct2 [OF step] 2] False by simp
    moreover have "same_core (fold (dispatch_request call cl) cs s) (fold (dispatch_request call cl) cs2 ?s)"
      using same_core_dispatches [OF conjunct1 [OF step], of call cl cs2] cs by simp
    ultimately show ?thesis using same_core_trans by auto
  qed
qed simp

text \<open>What a stream of well-formed requests is parsed to.\<close>

lemma parse_requests_from:
  "list_all (\<lambda>ws. resp_sized ws \<and> command_of_words ws \<noteq> None) wss \<Longrightarrow> p_wf p \<Longrightarrow>
   ahead p = concat (map resp_array wss) \<Longrightarrow>
   parse_loop p (p_idx p) = (map (the \<circ> command_of_words) wss, length (p_data p), None)"
proof (induction wss arbitrary: p)
  case Nil
  then have "is_done p" by (simp add: is_done_def ahead_def p_wf_def)
  then show ?case by (simp add: parse_loop_done is_done_def)
next
  case (Cons ws wss)
  then obtain c where c: "command_of_words ws = Some c" and sz: "resp_sized ws" by auto
  have a: "ahead p = resp_array ws @ concat (map resp_array wss)" using Cons.prems by simp
  let ?q = "p\<lparr>p_start_idx := p_idx p, p_idx := p_idx p + length (resp_array ws)\<rparr>"
  note r = read_command_resp_array [OF sz c Cons.prems(2) a]
  have "resp_array ws \<noteq> []" by (simp add: resp_array_def)
  then have nd: "\<not> is_done p" using a by (auto simp: is_done_def ahead_def)
  have q: "p_wf ?q" "ahead ?q = concat (map resp_array wss)"
    using ahead_advance [OF Cons.prems(2) a] by (simp_all add: p_wf_def ahead_def)
  show ?case
    using Cons.IH [OF _ q] Cons.prems(1) parse_loop_reads [OF nd r] c by simp
qed

section \<open>Decisions are logged before they are sent\<close>

text \<open>
  A check on the events of a run. \<open>cs\<close> and \<open>as\<close> are the ids whose COMMIT and ABORT decision
  has been logged so far, \<open>refused\<close> tells whether a participant has refused a PREPARE. COMMIT
  and ABORT are sent only for an id whose decision is logged, COMMIT only if nobody has
  refused, and no id gets both decisions.
\<close>

fun decisions_ok :: "u32 list \<Rightarrow> u32 list \<Rightarrow> bool \<Rightarrow> event list \<Rightarrow> bool" where
  "decisions_ok cs as refused [] = True"
| "decisions_ok cs as refused (Ev_Log r # es) =
     (if r_status r = RECORD_COMMIT
      then r_id r \<notin> set as \<and> \<not> refused \<and> decisions_ok (r_id r # cs) as refused es
      else if r_status r = RECORD_ABORT
      then r_id r \<notin> set cs \<and> decisions_ok cs (r_id r # as) refused es
      else decisions_ok cs as refused es)"
| "decisions_ok cs as refused (Ev_Call a req res # es) =
     (case req of
        Rpc_PREPARE_SET c \<Rightarrow> decisions_ok cs as (refused \<or> as_bool res = Some False) es
      | Rpc_PREPARE_DEL c \<Rightarrow> decisions_ok cs as (refused \<or> as_bool res = Some False) es
      | Rpc_COMMIT i \<Rightarrow> i \<in> set cs \<and> \<not> refused \<and> decisions_ok cs as refused es
      | Rpc_ABORT i \<Rightarrow> i \<in> set as \<and> decisions_ok cs as refused es
      | _ \<Rightarrow> decisions_ok cs as refused es)"
| "decisions_ok cs as refused (Ev_Notify # es) = decisions_ok cs as refused es"

text \<open>\<open>extends s t cs as rf cs' as' rf'\<close>: from \<open>s\<close> to \<open>t\<close> events happen that take the check from
  one of its states to another.\<close>

definition extends :: "'w coordinator \<Rightarrow> 'w coordinator
    \<Rightarrow> u32 list \<times> u32 list \<times> bool \<Rightarrow> u32 list \<times> u32 list \<times> bool \<Rightarrow> bool" where
  "extends s t c c' \<longleftrightarrow>
     (\<exists>evs. co_trace t = co_trace s @ evs \<and>
        (\<forall>rest. (case c of (cs, as, rf) \<Rightarrow> decisions_ok cs as rf (evs @ rest)) =
                (case c' of (cs, as, rf) \<Rightarrow> decisions_ok cs as rf rest)))"

lemma extends_trans: "extends s t c c' \<Longrightarrow> extends t u c' c'' \<Longrightarrow> extends s u c c''"
proof -
  assume "extends s t c c'" "extends t u c' c''"
  then obtain e1 e2 where
    e: "co_trace t = co_trace s @ e1" "co_trace u = co_trace t @ e2"
    and 1: "\<And>rest. (case c of (cs, as, rf) \<Rightarrow> decisions_ok cs as rf (e1 @ rest)) =
                (case c' of (cs, as, rf) \<Rightarrow> decisions_ok cs as rf rest)"
    and 2: "\<And>rest. (case c' of (cs, as, rf) \<Rightarrow> decisions_ok cs as rf (e2 @ rest)) =
                (case c'' of (cs, as, rf) \<Rightarrow> decisions_ok cs as rf rest)"
    unfolding extends_def by blast
  show "extends s u c c''"
    unfolding extends_def
    by (rule exI [of _ "e1 @ e2"]) (simp only: e append_assoc 1 2 simp_thms)
qed

lemma extends_same: "co_trace t = co_trace s \<Longrightarrow> extends s t c c"
  by (auto simp: extends_def intro!: exI [of _ "[]"])

lemma trace_steps [simp]:
  "co_trace (drop_participant a s) = co_trace s"
  "co_trace (send_result c msg cb s) = co_trace s"
  "co_trace (send_error c s) = co_trace s"
  "co_trace (remember_deleted cmd s) = co_trace s"
  "co_trace (take_id s) = co_trace s"
  "co_trace (log_status st i s) = co_trace s @ [Ev_Log (make_record st i (co_next_id s))]"
  by (simp_all add: drop_participant_def send_error_def send_result_def remember_deleted_def
      take_id_def log_status_def emit_def Let_def split: sum.splits)

lemma trace_rpc: "rpc_call call a req s = (res, s') \<Longrightarrow> co_trace s' = co_trace s @ [Ev_Call a req res]"
  by (auto simp: rpc_call_def emit_def split: prod.splits)

definition is_prepare :: "rpc_request \<Rightarrow> bool" where
  "is_prepare req \<longleftrightarrow> (\<exists>c. req = Rpc_PREPARE_SET c \<or> req = Rpc_PREPARE_DEL c)"

lemma extends_prepare_call:
  assumes "rpc_call call a req s = (res, s')" "is_prepare req"
  shows "extends s s' (cs, as, rf) (cs, as, rf \<or> as_bool res = Some False)"
  using trace_rpc [OF assms(1)] assms(2)
  by (auto simp: extends_def is_prepare_def intro!: exI [of _ "[Ev_Call a req res]"])

lemma extends_drop: "extends s t c c' \<Longrightarrow> extends s (drop_participant a t) c c'"
  by (simp add: extends_def)

lemma extends_prepare:
  "is_prepare req \<Longrightarrow> prepare_loop call req as dead s = (ok, d, s') \<Longrightarrow>
   extends s s' (cs, bs, False) (cs, bs, \<not> ok)"
proof (induction as arbitrary: dead s)
  case Nil
  then show ?case by (simp add: extends_same)
next
  case (Cons a as)
  obtain res s1 where c: "rpc_call call a req s = (res, s1)" by fastforce
  note e = extends_prepare_call [OF c Cons.prems(1), of cs bs False]
  show ?case
  proof (cases "as_bool res")
    case None
    with Cons.prems c have "prepare_loop call req as True (drop_participant a s1) = (ok, d, s')" by simp
    from Cons.IH [OF Cons.prems(1) this] extends_drop [OF e, of a] None show ?thesis
      using extends_trans by fastforce
  next
    case (Some b)
    with Cons.prems c Cons.IH [OF Cons.prems(1), of dead s1] e show ?thesis
      by (cases b) (auto intro: extends_trans)
  qed
qed

lemma extends_commit_loop:
  "i \<in> set cs \<Longrightarrow> commit_loop call i as ret dead s = (x, d, s') \<Longrightarrow> extends s s' (cs, bs, False) (cs, bs, False)"
proof (induction as arbitrary: ret dead s)
  case Nil
  then show ?case by (simp add: extends_same)
next
  case (Cons a as)
  obtain res s1 where c: "rpc_call call a (Rpc_COMMIT i) s = (res, s1)" by fastforce
  have e: "extends s s1 (cs, bs, False) (cs, bs, False)"
    using trace_rpc [OF c] Cons.prems(1)
    by (auto simp: extends_def intro!: exI [of _ "[Ev_Call a (Rpc_COMMIT i) res]"])
  from Cons.prems(2) c Cons.IH [OF Cons.prems(1)] show ?case
    by (auto split: option.splits intro: extends_trans [OF e] extends_trans [OF extends_drop [OF e]])
qed

lemma extends_abort_loop:
  "i \<in> set bs \<Longrightarrow> abort_loop call i as dead s = (d, s') \<Longrightarrow> extends s s' (cs, bs, rf) (cs, bs, rf)"
proof (induction as arbitrary: dead s)
  case Nil
  then show ?case by (simp add: extends_same)
next
  case (Cons a as)
  obtain res s1 where c: "rpc_call call a (Rpc_ABORT i) s = (res, s1)" by fastforce
  have e: "extends s s1 (cs, bs, rf) (cs, bs, rf)"
    using trace_rpc [OF c] Cons.prems(1)
    by (auto simp: extends_def intro!: exI [of _ "[Ev_Call a (Rpc_ABORT i) res]"])
  from Cons.prems(2) c Cons.IH [OF Cons.prems(1)] show ?case
    by (auto split: if_splits intro: extends_trans [OF e] extends_trans [OF extends_drop [OF e]])
qed

lemma record_distinct [simp]:
  "RECORD_UNRESOLVED \<noteq> RECORD_COMMIT" "RECORD_UNRESOLVED \<noteq> RECORD_ABORT" "RECORD_ABORT \<noteq> RECORD_COMMIT"
  "RECORD_COMMIT_DONE \<noteq> RECORD_COMMIT" "RECORD_COMMIT_DONE \<noteq> RECORD_ABORT"
  "RECORD_ABORT_DONE \<noteq> RECORD_COMMIT" "RECORD_ABORT_DONE \<noteq> RECORD_ABORT"
  by (simp_all add: record_statuses)

lemma extends_log:
  "st \<noteq> RECORD_COMMIT \<Longrightarrow> st \<noteq> RECORD_ABORT \<Longrightarrow> extends s (log_status st i s) c c"
  "i \<notin> set bs \<Longrightarrow> extends s (log_status RECORD_COMMIT i s) (cs, bs, False) (i # cs, bs, False)"
  "i \<notin> set cs \<Longrightarrow> extends s (log_status RECORD_ABORT i s) (cs, bs, rf) (cs, i # bs, rf)"
  by (auto simp: extends_def make_record_def intro!: exI [of _ "[Ev_Log (make_record _ i (co_next_id s))]"])

lemma extends_commit_request:
  assumes "i \<notin> set bs" "commit_db_request call cl i dead s = (d, s')"
  shows "extends s s' (cs, bs, False) (i # cs, bs, False)"
proof -
  obtain ret d2 s2 where l: "commit_loop call i (co_participants (log_status RECORD_COMMIT i s)) [] dead
      (log_status RECORD_COMMIT i s) = (ret, d2, s2)" by (metis prod_cases3)
  let ?s3 = "if co_participants s2 \<noteq> [] then log_status RECORD_COMMIT_DONE i s2 else s2"
  have "extends (log_status RECORD_COMMIT i s) s2 (i # cs, bs, False) (i # cs, bs, False)"
    by (rule extends_commit_loop [OF _ l]) simp
  with extends_log(2) [OF assms(1)] have "extends s s2 (cs, bs, False) (i # cs, bs, False)"
    by (rule extends_trans)
  moreover have "extends s2 ?s3 (i # cs, bs, False) (i # cs, bs, False)"
    by (simp add: extends_log(1) extends_same)
  moreover have "extends ?s3 s' c c" for c
    using assms(2) l by (auto simp: commit_db_request_def Let_def intro!: extends_same split: option.splits)
  ultimately show ?thesis by (meson extends_trans)
qed

lemma extends_abort_request:
  assumes "i \<notin> set cs" "abort_db_request call cl i dead s = (d, s')"
  shows "extends s s' (cs, bs, rf) (cs, i # bs, rf)"
proof -
  obtain d2 s2 where l: "abort_loop call i (co_participants (log_status RECORD_ABORT i s)) dead
      (log_status RECORD_ABORT i s) = (d2, s2)" by fastforce
  let ?s3 = "if co_participants s2 \<noteq> [] then log_status RECORD_ABORT_DONE i s2 else s2"
  have "extends (log_status RECORD_ABORT i s) s2 (cs, i # bs, rf) (cs, i # bs, rf)"
    by (rule extends_abort_loop [OF _ l]) simp
  with extends_log(3) [OF assms(1)] have "extends s s2 (cs, bs, rf) (cs, i # bs, rf)"
    by (rule extends_trans)
  moreover have "extends s2 ?s3 (cs, i # bs, rf) (cs, i # bs, rf)"
    by (simp add: extends_log(1) extends_same)
  moreover have "extends ?s3 s' c c" for c
    using assms(2) l by (auto simp: abort_db_request_def Let_def intro!: extends_same split: option.splits)
  ultimately show ?thesis by (meson extends_trans)
qed

lemma extends_start:
  assumes "is_prepare (mk (set_id (co_next_id s) c))" "start_update call mk c s = (ok, d, cmd, s')"
  shows "extends s s' ([], [], False) ([], [], \<not> ok)"
proof -
  let ?s2 = "log_status RECORD_UNRESOLVED (cmd_id (set_id (co_next_id s) c)) (take_id s)"
  have "prepare_loop call (mk (set_id (co_next_id s) c)) (co_participants ?s2) False ?s2 = (ok, d, s')"
    using assms(2) by (simp add: start_update_def Let_def split: prod.splits)
  from extends_prepare [OF assms(1) this]
  have "extends ?s2 s' ([], [], False) ([], [], \<not> ok)" .
  moreover have "extends s ?s2 c c" for c
    by (rule extends_trans [OF extends_same extends_log(1)]) simp_all
  ultimately show ?thesis using extends_trans by blast
qed

definition safe_run :: "'w coordinator \<Rightarrow> 'w coordinator \<Rightarrow> bool" where
  "safe_run s t \<longleftrightarrow> (\<exists>evs. co_trace t = co_trace s @ evs \<and> decisions_ok [] [] False evs)"

lemma extends_safe:
  assumes "extends s t ([], [], False) c"
  shows "safe_run s t"
proof -
  obtain cs as rf where c: "c = (cs, as, rf)" by (metis prod_cases3)
  from assms obtain evs where e: "co_trace t = co_trace s @ evs"
    and "\<And>rest. decisions_ok [] [] False (evs @ rest) = decisions_ok cs as rf rest"
    by (auto simp: extends_def c)
  from this(2) [of "[]"] have "decisions_ok [] [] False evs" by simp
  with e show ?thesis by (auto simp: safe_run_def)
qed

lemma extends_notify: "extends s t c c' \<Longrightarrow> extends s (notify_if dead t) c c'"
proof -
  assume e: "extends s t c c'"
  have "extends t (notify_if dead t) c' c'"
    by (cases c') (auto simp: notify_if_def emit_def extends_def
        intro: exI [of _ "[]"] exI [of _ "[Ev_Notify]"])
  with e show ?thesis by (rule extends_trans)
qed

lemma extends_remember: "extends s t c c' \<Longrightarrow> extends s (remember_deleted cmd t) c c'"
  by (simp add: extends_def)

text \<open>The two ways a started update ends.\<close>

lemma extends_decided:
  assumes "extends s s1 ([], [], False) ([], [], \<not> ok)"
  shows "ok \<Longrightarrow> extends s (snd (commit_db_request call cl i d s1)) ([], [], False) ([i], [], False)"
    and "\<not> ok \<Longrightarrow> extends s (snd (abort_db_request call cl i d s1)) ([], [], False) ([], [i], True)"
  using assms
    extends_commit_request [of i "[]" call cl d s1 "fst (commit_db_request call cl i d s1)"
      "snd (commit_db_request call cl i d s1)" "[]"]
    extends_abort_request [of i "[]" call cl d s1 "fst (abort_db_request call cl i d s1)"
      "snd (abort_db_request call cl i d s1)" "[]" True]
  by (auto intro: extends_trans)

lemma safe_run_set: "safe_run s (handle_db_set_request call cl c s)"
proof -
  obtain ok d cmd s1 where s1: "start_update call Rpc_PREPARE_SET c s = (ok, d, cmd, s1)"
    by (metis prod_cases4)
  have 1: "extends s s1 ([], [], False) ([], [], \<not> ok)"
    by (rule extends_start [OF _ s1]) (simp add: is_prepare_def)
  note dec = extends_decided [OF 1, of call "Some cl" "cmd_id cmd" d]
  show ?thesis
    using s1 extends_safe [OF 1] dec [THEN extends_notify, THEN extends_safe]
    by (cases ok) (auto simp: handle_db_set_request_def Let_def case_prod_beta safe_run_def)
qed

lemma safe_run_del: "safe_run s (handle_db_del_request call cl c s)"
proof -
  obtain ok d cmd s1 where s1: "start_update call Rpc_PREPARE_DEL c s = (ok, d, cmd, s1)"
    by (metis prod_cases4)
  have 1: "extends s s1 ([], [], False) ([], [], \<not> ok)"
    by (rule extends_start [OF _ s1]) (simp add: is_prepare_def)
  note dec = extends_decided [OF 1, of call "Some cl" "cmd_id cmd" d]
  show ?thesis
    using s1 extends_safe [OF 1] dec(1) [THEN extends_remember, THEN extends_notify, THEN extends_safe]
      dec(2) [THEN extends_notify, THEN extends_safe]
    by (cases ok) (auto simp: handle_db_del_request_def Let_def case_prod_beta safe_run_def)
qed

lemma extends_get_loop:
  "get_loop call cl c as dead s = (d, s') \<Longrightarrow> extends s s' k k"
proof (induction as arbitrary: dead s)
  case Nil
  then show ?case by (auto intro: extends_same)
next
  case (Cons a as)
  obtain res s1 where r: "rpc_call call a (Rpc_GET c) s = (res, s1)" by fastforce
  have e: "extends s s1 k k"
    using trace_rpc [OF r] by (auto simp: extends_def intro!: exI [of _ "[Ev_Call a (Rpc_GET c) res]"])
  have "extends s1 (send_result cl v False s1) k k" for v by (simp add: extends_same)
  with Cons r e show ?case
    by (auto split: option.splits intro: extends_trans [OF e] extends_trans [OF extends_drop [OF e]])
qed

lemma safe_run_get: "safe_run s (handle_db_get_request call cl c s)"
proof -
  obtain d s1 where g: "get_loop call cl c (co_participants s) False s = (d, s1)" by fastforce
  from extends_get_loop [OF this, THEN extends_notify, THEN extends_safe]
  show ?thesis by (auto simp: handle_db_get_request_def g safe_run_def)
qed

section \<open>Properties\<close>

text \<open>C5: however TCP cuts the bytes of a client into pieces, the coordinator executes the
  requests in them completely, once each and in order: after any sequence of reads whose
  pieces make up the requests, everything but the connections is as if the commands had
  been dispatched one after the other.\<close>

theorem requests_survive_chunking:
  assumes "waits_with cl [] s" "list_all (\<lambda>ws. resp_sized ws \<and> command_of_words ws \<noteq> None) wss"
    "concat ds = concat (map resp_array wss)"
  shows "same_core (fold (dispatch_request call cl) (map (the \<circ> command_of_words) wss) s)
           (fold (\<lambda>d. client_readable call cl (\<lambda>_. Some d) junk) ds s)"
proof -
  let ?d = "concat (map resp_array wss)"
  have "parse_db_requests ([] @ concat ds) = (map (the \<circ> command_of_words) wss, length ?d, None)"
    using parse_requests_from [OF assms(2) new_parser_ahead(1), of ?d] assms(3)
    by (simp add: parse_db_requests_def new_parser_ahead) (simp add: new_parser_def)
  from client_stream [OF assms(1) this, of call junk] show ?thesis
  proof
    assume "ds = []"
    then have "wss = []"
      using assms(3) by (cases wss) (simp_all add: resp_array_def)
    with \<open>ds = []\<close> show ?thesis by simp
  qed (simp add: resumable_def)
qed

definition sample_coordinator :: "unit coordinator" where
  "sample_coordinator =
     (new_coordinator new_coordinator_configuration fresh_log sample_net ())
       \<lparr>co_net := sample_net\<lparr>n_clients := (\<lambda>_. (new_client 5)\<lparr>tc_reads := [(1024, None)]\<rparr>)\<rparr>\<rparr>"

theorem requests_survive_chunking_witness:
  "same_core (dispatch_request (\<lambda>w a r. (w, None)) 0 (Get_Command ''a'') sample_coordinator)
     (client_readable (\<lambda>w a r. (w, None)) 0 (\<lambda>_. Some (drop 5 (resp_array [''GET'', ''a'']))) True
       (client_readable (\<lambda>w a r. (w, None)) 0 (\<lambda>_. Some (take 5 (resp_array [''GET'', ''a'']))) True
         sample_coordinator))"
proof -
  have "waits_with 0 [] sample_coordinator"
    by (simp add: waits_with_def sample_coordinator_def sample_net_def new_client_def)
  from requests_survive_chunking [OF this, of "[[''GET'', ''a'']]"
      "[take 5 (resp_array [''GET'', ''a'']), drop 5 (resp_array [''GET'', ''a''])]"
      "\<lambda>w a r. (w, None)" True]
  show ?thesis by (simp add: resp_sized_def command_of_words_def new_get_command_def)
qed

text \<open>C4: whatever the participants answer or fail to answer, the execution of one request, under
  the lock, sends COMMIT
  only after the COMMIT decision for that id is in the log and only if no participant has
  refused its PREPARE, sends ABORT only after the ABORT decision is in the log, and does not
  take both decisions for one id. This is about the handler alone: the recovery at start-up, which
  settles records without the lock, can take the other decision for the same id
  (\<open>recovery_aborts_running_update\<close>).\<close>

theorem decisions_are_logged_first:
  "\<exists>evs. co_trace (dispatch_request call cl c s) = co_trace s @ evs \<and> decisions_ok [] [] False evs"
proof -
  have "safe_run s (send_error cl s)" by (auto simp: safe_run_def)
  then have "safe_run s (dispatch_request call cl c s)"
    by (simp add: dispatch_request_def safe_run_get safe_run_set safe_run_del)
  then show ?thesis by (simp add: safe_run_def)
qed

end
