(* ===== verification/Replication.thy ===== *)
theory Replication
  imports Coordinator
begin

text \<open>
  What the coordinator's two-phase commit achieves. The locale \<open>rpc_participants\<close> states what
  it relies on: that a participant which answers a call has done what the call asks for, and
  that a call concerns nobody but its addressee. A call may fail at any point, also after it
  has taken effect. The lemmas show that the participants the coordinator keeps in its map
  stay replicas of one store.
\<close>

section \<open>The contract of a participant\<close>

definition prepare_request :: "command \<Rightarrow> rpc_request" where
  "prepare_request c = (if cmd_type c = CMD_SET then Rpc_PREPARE_SET c else Rpc_PREPARE_DEL c)"

text \<open>
  \<open>synced w a i m\<close>: the participant at \<open>a\<close> is idle, expects id \<open>i\<close> and stores \<open>m\<close>.
  \<open>prepared w a i m c\<close>: it has in addition queued the update \<open>c\<close> under that id.
\<close>

text \<open>What a client is answered, and what its connection still has to write.\<close>

definition answer :: "command \<Rightarrow> store \<Rightarrow> string" where
  "answer c m =
     (case c of
        Get_Command k \<Rightarrow> encode_result (case m k of None \<Rightarrow> ''nil'' | Some v \<Rightarrow> v)
      | _ \<Rightarrow> snd (apply_command c m))"

definition owed :: "nat \<Rightarrow> 'w coordinator \<Rightarrow> (string \<times> bool) list" where
  "owed cl s = tc_writes (n_clients (co_net s) cl)"

locale rpc_participants =
  fixes call :: "'w rpc"
    and synced :: "'w \<Rightarrow> string \<Rightarrow> u32 \<Rightarrow> store \<Rightarrow> bool"
    and prepared :: "'w \<Rightarrow> string \<Rightarrow> u32 \<Rightarrow> store \<Rightarrow> command \<Rightarrow> bool"
  assumes prepare_law:
      "synced w a i m \<Longrightarrow> is_update c \<Longrightarrow> cmd_id c = i \<Longrightarrow>
       call w a (prepare_request c) = (w', res) \<Longrightarrow> as_bool res = Some b \<Longrightarrow>
       b \<and> prepared w' a i m c"
    and commit_law:
      "prepared w a i m c \<Longrightarrow> call w a (Rpc_COMMIT i) = (w', res) \<Longrightarrow> as_string res = Some x \<Longrightarrow>
       x = snd (apply_command c m) \<and> synced w' a (i + 1) (fst (apply_command c m))"
    and abort_law:
      "synced w a i m \<or> prepared w a i m c \<Longrightarrow> call w a (Rpc_ABORT i) = (w', res) \<Longrightarrow>
       as_bool res = Some b \<Longrightarrow> b \<and> synced w' a (i + 1) m"
    and get_law:
      "synced w a i m \<Longrightarrow> call w a (Rpc_GET (Get_Command k)) = (w', res) \<Longrightarrow> as_string res = Some x \<Longrightarrow>
       x = encode_result (case m k of None \<Rightarrow> ''nil'' | Some v \<Rightarrow> v) \<and> synced w' a i m"
    and frame_law:
      "call w a req = (w', res) \<Longrightarrow> a' \<noteq> a \<Longrightarrow>
       synced w' a' = synced w a' \<and> prepared w' a' = prepared w a'"
begin

text \<open>All participants in the map are replicas: idle, at the coordinator's next id, with store \<open>m\<close>.\<close>

definition replicas :: "'w coordinator \<Rightarrow> store \<Rightarrow> bool" where
  "replicas s m \<longleftrightarrow>
     distinct (co_participants s)
     \<and> (\<forall>a \<in> set (co_participants s). synced (co_world s) a (co_next_id s) m)"

lemma call_frame:
  assumes "rpc_call call a req s = (res, s')" "b \<noteq> a"
  shows "synced (co_world s') b = synced (co_world s) b"
    "prepared (co_world s') b = prepared (co_world s) b"
  using frame_law [OF _ assms(2)] assms(1) by (auto simp: rpc_call_def emit_def split: prod.splits)

lemma rpc_call_world:
  "rpc_call call a req s = (res, s') \<Longrightarrow> call (co_world s) a req = (co_world s', res)"
  by (auto simp: rpc_call_def emit_def split: prod.splits)

lemma rpc_call_same:
  "rpc_call call a req s = (res, s') \<Longrightarrow>
   co_participants s' = co_participants s \<and> co_next_id s' = co_next_id s \<and> co_log s' = co_log s"
  by (auto simp: rpc_call_def emit_def split: prod.splits)

lemma drop_same:
  "co_participants (drop_participant a s) = filter (\<lambda>b. b \<noteq> a) (co_participants s)"
  "co_world (drop_participant a s) = co_world s" "co_next_id (drop_participant a s) = co_next_id s"
  by (simp_all add: drop_participant_def os_erase_def)

text \<open>
  A loop over the participants: those in \<open>as\<close> are still to be called and satisfy \<open>F\<close>, those
  in the map that have been called satisfy \<open>G\<close>.
\<close>

definition half ::
    "((u32 \<Rightarrow> store \<Rightarrow> bool) \<Rightarrow> (u32 \<Rightarrow> store \<Rightarrow> command \<Rightarrow> bool) \<Rightarrow> bool)
     \<Rightarrow> ((u32 \<Rightarrow> store \<Rightarrow> bool) \<Rightarrow> (u32 \<Rightarrow> store \<Rightarrow> command \<Rightarrow> bool) \<Rightarrow> bool)
     \<Rightarrow> string list \<Rightarrow> 'w coordinator \<Rightarrow> bool" where
  "half F G as s \<longleftrightarrow>
     distinct as \<and> distinct (co_participants s) \<and> set as \<subseteq> set (co_participants s)
     \<and> (\<forall>a \<in> set as. F (synced (co_world s) a) (prepared (co_world s) a))
     \<and> (\<forall>a \<in> set (co_participants s) - set as. G (synced (co_world s) a) (prepared (co_world s) a))"

lemma half_head: "half F G (a # as) s \<Longrightarrow> F (synced (co_world s) a) (prepared (co_world s) a)"
  by (simp add: half_def)

lemma half_drop:
  assumes h: "half F G (a # as) s" and r: "rpc_call call a req s = (res, s1)"
  shows "half F G as (drop_participant a s1)"
proof -
  have "synced (co_world s1) b = synced (co_world s) b \<and> prepared (co_world s1) b = prepared (co_world s) b"
    if "b \<noteq> a" for b using call_frame [OF r that] by blast
  moreover have "b \<noteq> a" if "b \<in> set as" for b using h that by (auto simp: half_def)
  ultimately show ?thesis
    using h rpc_call_same [OF r] by (auto simp: half_def drop_same)
qed

lemma half_next:
  assumes h: "half F G (a # as) s" and r: "rpc_call call a req s = (res, s1)"
    and g: "G (synced (co_world s1) a) (prepared (co_world s1) a)"
  shows "half F G as s1"
proof -
  have "synced (co_world s1) b = synced (co_world s) b \<and> prepared (co_world s1) b = prepared (co_world s) b"
    if "b \<noteq> a" for b using call_frame [OF r that] by blast
  moreover have "b \<noteq> a" if "b \<in> set as" for b using h that by (auto simp: half_def)
  moreover have "G (synced (co_world s1) b) (prepared (co_world s1) b)"
    if "b \<in> set (co_participants s) - set as" for b
    using h g that call_frame [OF r, of b] by (cases "b = a") (auto simp: half_def)
  ultimately show ?thesis
    using h rpc_call_same [OF r] by (auto simp: half_def)
qed

text \<open>PREPARE goes around: those still in the map at the end have prepared, and nobody refuses.\<close>

lemma prepare_loop_prepared:
  assumes c: "is_update c" "cmd_id c = i"
  shows "prepare_loop call (prepare_request c) as dead s = (ok, d, s') \<Longrightarrow>
    half (\<lambda>sy pr. sy i m) (\<lambda>sy pr. pr i m c) as s \<Longrightarrow>
    ok \<and> half F (\<lambda>sy pr. pr i m c) [] s' \<and> co_next_id s' = co_next_id s"
proof (induction as arbitrary: dead s)
  case Nil
  then show ?case by (auto simp: half_def)
next
  case (Cons a as)
  obtain res s1 where r: "rpc_call call a (prepare_request c) s = (res, s1)" by fastforce
  note same = rpc_call_same [OF r]
  show ?case
  proof (cases "as_bool res")
    case None
    with Cons.prems(1) r have "prepare_loop call (prepare_request c) as True (drop_participant a s1) = (ok, d, s')"
      by simp
    from Cons.IH [OF this half_drop [OF Cons.prems(2) r]] same show ?thesis
      by (simp add: drop_same)
  next
    case (Some b)
    have b: b and p: "prepared (co_world s1) a i m c"
      using prepare_law [OF half_head [OF Cons.prems(2)] c rpc_call_world [OF r] Some] by auto
    from Cons.prems(1) r Some b have "prepare_loop call (prepare_request c) as dead s1 = (ok, d, s')"
      by simp
    from Cons.IH [OF this half_next [OF Cons.prems(2) r p]] same show ?thesis by simp
  qed
qed

text \<open>COMMIT goes around: those still in the map have applied the update, and the answer
  collected is that of the command as soon as one participant is left.\<close>

lemma commit_loop_committed:
  "commit_loop call i as ret dead s = (x, d, s') \<Longrightarrow>
   half (\<lambda>sy pr. pr i m c) (\<lambda>sy pr. sy (i + 1) (fst (apply_command c m))) as s \<Longrightarrow>
   ret = [] \<or> ret = snd (apply_command c m) \<Longrightarrow>
   ret = snd (apply_command c m) \<or> set (co_participants s) \<subseteq> set as \<Longrightarrow>
    half F (\<lambda>sy pr. sy (i + 1) (fst (apply_command c m))) [] s' \<and> co_next_id s' = co_next_id s
    \<and> (x = [] \<or> x = snd (apply_command c m)) \<and> (co_participants s' \<noteq> [] \<longrightarrow> x = snd (apply_command c m))"
proof (induction as arbitrary: ret dead s)
  case Nil
  then show ?case by (auto simp: half_def)
next
  case (Cons a as)
  obtain res s1 where r: "rpc_call call a (Rpc_COMMIT i) s = (res, s1)" by fastforce
  note same = rpc_call_same [OF r]
  show ?case
  proof (cases "as_string res")
    case None
    with Cons.prems(1) r have l: "commit_loop call i as ret True (drop_participant a s1) = (x, d, s')" by simp
    have "ret = snd (apply_command c m) \<or> set (co_participants (drop_participant a s1)) \<subseteq> set as"
      using Cons.prems(4) same by (auto simp: drop_same)
    from Cons.IH [OF l half_drop [OF Cons.prems(2) r] Cons.prems(3) this] same show ?thesis
      by (simp add: drop_same)
  next
    case (Some y)
    have y: "y = snd (apply_command c m)" and p: "synced (co_world s1) a (i + 1) (fst (apply_command c m))"
      using commit_law [OF half_head [OF Cons.prems(2)] rpc_call_world [OF r] Some] by auto
    have l: "commit_loop call i as (if ret = [] then y else ret) dead s1 = (x, d, s')"
      using Cons.prems(1) r Some by simp
    have "(if ret = [] then y else ret) = snd (apply_command c m)" using y Cons.prems(3) by auto
    with Cons.IH [OF l half_next [OF Cons.prems(2) r p]] same show ?thesis by simp
  qed
qed

text \<open>ABORT goes around: those still in the map have dropped the update.\<close>

lemma abort_loop_aborted:
  "abort_loop call i as dead s = (d, s') \<Longrightarrow>
   half (\<lambda>sy pr. sy i m \<or> pr i m c) (\<lambda>sy pr. sy (i + 1) m) as s \<Longrightarrow>
    half F (\<lambda>sy pr. sy (i + 1) m) [] s' \<and> co_next_id s' = co_next_id s"
proof (induction as arbitrary: dead s)
  case Nil
  then show ?case by (auto simp: half_def)
next
  case (Cons a as)
  obtain res s1 where r: "rpc_call call a (Rpc_ABORT i) s = (res, s1)" by fastforce
  note same = rpc_call_same [OF r]
  show ?case
  proof (cases "as_bool res = Some True")
    case False
    with Cons.prems(1) r have "abort_loop call i as True (drop_participant a s1) = (d, s')" by simp
    from Cons.IH [OF this half_drop [OF Cons.prems(2) r]] same show ?thesis by (simp add: drop_same)
  next
    case True
    have p: "synced (co_world s1) a (i + 1) m"
      using abort_law [OF half_head [OF Cons.prems(2)] rpc_call_world [OF r] True] by simp
    from Cons.prems(1) r True have "abort_loop call i as dead s1 = (d, s')" by simp
    from Cons.IH [OF this half_next [OF Cons.prems(2) r p]] same show ?thesis by simp
  qed
qed

lemma half_steps [simp]:
  "half F G as (log_status st i s) = half F G as s"
  "half F G as (take_id s) = half F G as s"
  "half F G as (send_result c msg cb s) = half F G as s"
  "half F G as (notify_if dead s) = half F G as s"
  "half F G as (remember_deleted cmd s) = half F G as s"
  by (auto simp: half_def log_status_def emit_def take_id_def send_result_def notify_if_def
      remember_deleted_def Let_def split: sum.splits)

lemma next_id_steps [simp]:
  "co_next_id (log_status st i s) = co_next_id s"
  "co_next_id (take_id s) = co_next_id s + 1"
  "co_next_id (send_result c msg cb s) = co_next_id s"
  "co_next_id (notify_if dead s) = co_next_id s"
  "co_next_id (remember_deleted cmd s) = co_next_id s"
  by (auto simp: log_status_def emit_def take_id_def send_result_def notify_if_def
      remember_deleted_def Let_def split: sum.splits)

lemma participants_steps [simp]:
  "co_participants (log_status st i s) = co_participants s"
  "co_participants (take_id s) = co_participants s"
  "co_participants (send_result c msg cb s) = co_participants s"
  "co_participants (notify_if dead s) = co_participants s"
  "co_participants (remember_deleted cmd s) = co_participants s"
  by (auto simp: log_status_def emit_def take_id_def send_result_def notify_if_def
      remember_deleted_def Let_def split: sum.splits)

lemma replicas_half:
  "replicas s m \<longleftrightarrow> half (\<lambda>sy pr. sy (co_next_id s) m) (\<lambda>sy pr. sy (co_next_id s) m) [] s"
  by (auto simp: replicas_def half_def)

lemma start_update_prepared:
  assumes r: "replicas s m" and c: "is_update c0"
    and mk: "mk (set_id (co_next_id s) c0) = prepare_request (set_id (co_next_id s) c0)"
    and st: "start_update call mk c0 s = (ok, d, cmd, s')"
  shows "ok \<and> cmd = set_id (co_next_id s) c0 \<and> co_next_id s' = co_next_id s + 1
    \<and> half F (\<lambda>sy pr. pr (co_next_id s) m cmd) [] s'"
proof -
  let ?cmd = "set_id (co_next_id s) c0"
  let ?s2 = "log_status RECORD_UNRESOLVED (cmd_id ?cmd) (take_id s)"
  have cmd: "cmd = ?cmd"
    and l: "prepare_loop call (prepare_request ?cmd) (co_participants ?s2) False ?s2 = (ok, d, s')"
    using st mk by (auto simp: start_update_def Let_def split: prod.splits)
  have "half (\<lambda>sy pr. sy (co_next_id s) m) (\<lambda>sy pr. pr (co_next_id s) m ?cmd) (co_participants ?s2) ?s2"
    using r by (simp add: replicas_def half_def log_status_def emit_def take_id_def Let_def)
  from prepare_loop_prepared [OF _ _ l this] c cmd show ?thesis by simp
qed

text \<open>The text a client is owed for an update, and what it gets when no participant survives.\<close>

lemma commit_request_committed:
  assumes p: "half F0 (\<lambda>sy pr. pr i m c) [] s" and ne: "co_participants s \<noteq> []"
    and cr: "commit_db_request call (Some cl) i dead s = (d, s')"
  shows "half F (\<lambda>sy pr. sy (i + 1) (fst (apply_command c m))) [] s' \<and> co_next_id s' = co_next_id s
    \<and> (\<exists>x t. s' = send_result cl x False t \<and> co_net t = co_net s
         \<and> (x = [] \<or> x = snd (apply_command c m))
         \<and> (co_participants s' \<noteq> [] \<longrightarrow> x = snd (apply_command c m)))"
proof -
  let ?s1 = "log_status RECORD_COMMIT i s"
  obtain ret d2 s2 where l: "commit_loop call i (co_participants ?s1) [] dead ?s1 = (ret, d2, s2)"
    by (metis prod_cases3)
  have "half (\<lambda>sy pr. pr i m c) (\<lambda>sy pr. sy (i + 1) (fst (apply_command c m))) (co_participants ?s1) ?s1"
    using p by (auto simp: half_def log_status_def emit_def Let_def)
  note c = commit_loop_committed [OF l this, of F]
  let ?s3 = "if co_participants s2 \<noteq> [] then log_status RECORD_COMMIT_DONE i s2 else s2"
  have s': "s' = send_result cl ret False ?s3"
    using cr l by (auto simp: commit_db_request_def Let_def)
  moreover have "co_net ?s3 = co_net s" using net_commit [OF l] by simp
  ultimately show ?thesis using c by fastforce
qed

lemma update_request_replicas:
  assumes r: "replicas s m" and c: "is_update c0" and ne: "co_participants s \<noteq> []"
    and mk: "mk (set_id (co_next_id s) c0) = prepare_request (set_id (co_next_id s) c0)"
    and st: "start_update call mk c0 s = (ok, d, cmd, s1)"
    and ne1: "co_participants s1 \<noteq> []"
    and cr: "commit_db_request call (Some cl) (cmd_id cmd) d s1 = (d2, s2)"
  shows "replicas s2 (fst (apply_command c0 m))
    \<and> (\<exists>x t. s2 = send_result cl x False t \<and> co_net t = co_net s
         \<and> (x = [] \<or> x = snd (apply_command c0 m))
         \<and> (co_participants s2 \<noteq> [] \<longrightarrow> x = snd (apply_command c0 m)))"
proof -
  note sp = start_update_prepared [OF r c mk st]
  let ?i = "co_next_id s"
  have cmd: "cmd = set_id ?i c0" "cmd_id cmd = ?i" using sp c by auto
  have h: "half (\<lambda>sy pr. True) (\<lambda>sy pr. pr ?i m cmd) [] s1"
    using start_update_prepared [OF r c mk st, of "\<lambda>sy pr. True"] by blast
  have "commit_db_request call (Some cl) ?i d s1 = (d2, s2)" using cr cmd by simp
  note cc = commit_request_committed [OF h ne1 this]
  have "co_next_id s2 = ?i + 1" using cc sp by simp
  then have "replicas s2 (fst (apply_command c0 m))"
    using cc cmd by (simp add: replicas_half)
  moreover have "co_net s1 = co_net s" by (rule net_start [OF st])
  ultimately show ?thesis using cc cmd by auto
qed

text \<open>A request answered: the store it leaves, and the text added to the client's writes.\<close>

definition served :: "nat \<Rightarrow> command \<Rightarrow> store \<Rightarrow> 'w coordinator \<Rightarrow> 'w coordinator \<Rightarrow> bool" where
  "served cl c m s s' \<longleftrightarrow>
     replicas s' (fst (apply_command c m))
     \<and> (tc_connected (n_clients (co_net s) cl) \<longrightarrow>
          (\<exists>x cb. owed cl s' = owed cl s @ [(x, cb)]
             \<and> (co_participants s' \<noteq> [] \<longrightarrow> x = answer c m \<and> \<not> cb)
             \<and> (x = answer c m \<or> x = [] \<or> x = error_string)))"

lemma owed_send_result:
  "tc_connected (n_clients (co_net s) cl) \<Longrightarrow> co_net t = co_net s \<Longrightarrow>
   owed cl (send_result cl x cb t) = owed cl s @ [(x, cb)]"
  by (simp add: owed_def send_result_def async_write_def Let_def)

lemma replicas_none: "co_participants s = [] \<Longrightarrow> replicas s m"
  by (simp add: replicas_def)

lemma served_error:
  "co_participants t = [] \<Longrightarrow> co_net t = co_net s \<Longrightarrow> served cl c m s (send_error cl t)"
  using owed_send_result [of s cl t error_string True]
  by (auto simp: served_def send_error_def intro!: replicas_none)

lemma served_notify:
  "served cl c m s (notify_if dead t) = served cl c m s t"
  "served cl c m s (remember_deleted cmd t) = served cl c m s t"
  by (auto simp: served_def replicas_half owed_def)

lemma served_update:
  assumes "replicas s m" "is_update c0" "co_participants s \<noteq> []"
    "mk (set_id (co_next_id s) c0) = prepare_request (set_id (co_next_id s) c0)"
    "start_update call mk c0 s = (ok, d, cmd, s1)" "co_participants s1 \<noteq> []"
  shows "served cl c0 m s (snd (commit_db_request call (Some cl) (cmd_id cmd) d s1))"
proof -
  obtain d2 s2 where cr: "commit_db_request call (Some cl) (cmd_id cmd) d s1 = (d2, s2)" by fastforce
  have ans: "answer c0 m = snd (apply_command c0 m)" using assms(2) by (cases c0) (simp_all add: answer_def)
  from update_request_replicas [OF assms cr] ans cr show ?thesis
    by (auto simp: served_def owed_send_result)
qed

lemma update_prepared_ok:
  assumes "replicas s m" "is_update c0"
    "mk (set_id (co_next_id s) c0) = prepare_request (set_id (co_next_id s) c0)"
    "start_update call mk c0 s = (ok, d, cmd, s1)"
  shows ok
  using start_update_prepared [OF assms, of "\<lambda>sy pr. True"] by blast

lemma served_set:
  assumes "replicas s m"
  shows "served cl (Set_Command i k v) m s (handle_db_set_request call cl (Set_Command i k v) s)"
proof -
  let ?c = "Set_Command i k v"
  have mk: "Rpc_PREPARE_SET (set_id j ?c) = prepare_request (set_id j ?c)" for j
    by (simp add: prepare_request_def)
  obtain ok d cmd s1 where st: "start_update call Rpc_PREPARE_SET ?c s = (ok, d, cmd, s1)"
    by (metis prod_cases4)
  have ok using update_prepared_ok [where mk = Rpc_PREPARE_SET, OF assms _ mk st] by simp
  with st served_update [where mk = Rpc_PREPARE_SET, OF assms _ _ mk st, of cl] net_start [OF st] show ?thesis
    by (auto simp: handle_db_set_request_def Let_def case_prod_beta served_notify intro!: served_error)
qed

lemma served_del:
  assumes "replicas s m"
  shows "served cl (Del_Command i ks) m s (handle_db_del_request call cl (Del_Command i ks) s)"
proof -
  let ?c = "Del_Command i ks"
  have mk: "Rpc_PREPARE_DEL (set_id j ?c) = prepare_request (set_id j ?c)" for j
    by (simp add: prepare_request_def cmd_tags)
  obtain ok d cmd s1 where st: "start_update call Rpc_PREPARE_DEL ?c s = (ok, d, cmd, s1)"
    by (metis prod_cases4)
  have ok using update_prepared_ok [where mk = Rpc_PREPARE_DEL, OF assms _ mk st] by simp
  with st served_update [where mk = Rpc_PREPARE_DEL, OF assms _ _ mk st, of cl] net_start [OF st] show ?thesis
    by (auto simp: handle_db_del_request_def Let_def case_prod_beta served_notify intro!: served_error)
qed

lemma served_get_loop:
  "get_loop call cl (Get_Command k) as dead s = (d, s') \<Longrightarrow> co_net s = co_net s0 \<Longrightarrow>
   half (\<lambda>sy pr. sy i m) (\<lambda>sy pr. sy i m) as s \<Longrightarrow> set (co_participants s) \<subseteq> set as \<Longrightarrow> co_next_id s = i \<Longrightarrow>
   served cl (Get_Command k) m s0 s'"
proof (induction as arbitrary: dead s)
  case Nil
  then show ?case by (auto intro: served_error)
next
  case (Cons a as)
  obtain res s1 where r: "rpc_call call a (Rpc_GET (Get_Command k)) s = (res, s1)" by fastforce
  note same = rpc_call_same [OF r] net_rpc_call [OF r]
  show ?case
  proof (cases "as_string res")
    case None
    with Cons.prems r have l: "get_loop call cl (Get_Command k) as True (drop_participant a s1) = (d, s')" by simp
    from Cons.IH [OF l _ half_drop [OF Cons.prems(3) r]] Cons.prems(2,4,5) same show ?thesis
      by (auto simp: drop_same)
  next
    case (Some x)
    have x: "x = answer (Get_Command k) m" and p: "synced (co_world s1) a i m"
      using get_law [OF half_head [OF Cons.prems(3)] rpc_call_world [OF r] Some] by (auto simp: answer_def)
    note h = half_next [OF Cons.prems(3) r p]
    have "replicas s1 m"
      using h Cons.prems(4,5) same by (auto simp: half_def replicas_def)
    moreover have "s' = send_result cl x False s1" using Cons.prems(1) r Some by simp
    ultimately show ?thesis
      using x Cons.prems(2) same owed_send_result [of s0 cl s1 x False]
      by (auto simp: served_def replicas_half)
  qed
qed

lemma served_get:
  assumes "replicas s m"
  shows "served cl (Get_Command k) m s (handle_db_get_request call cl (Get_Command k) s)"
proof -
  obtain d s1 where g: "get_loop call cl (Get_Command k) (co_participants s) False s = (d, s1)" by fastforce
  have "served cl (Get_Command k) m s s1"
    by (rule served_get_loop [OF g]) (use assms in \<open>auto simp: half_def replicas_def\<close>)
  then show ?thesis
    using g by (auto simp: handle_db_get_request_def served_notify intro: served_error)
qed

lemma served_dispatch:
  assumes "replicas s m"
  shows "served cl c m s (dispatch_request call cl c s)"
  using served_get [OF assms] served_set [OF assms] served_del [OF assms]
  by (cases c) (simp_all add: dispatch_request_def cmd_tags)

lemma replicas_dispatches:
  "replicas s m \<Longrightarrow>
   replicas (fold (dispatch_request call cl) cs s) (fold (\<lambda>c m. fst (apply_command c m)) cs m)"
proof (induction cs arbitrary: s m)
  case (Cons c cs)
  from served_dispatch [OF Cons.prems, of cl c] have "replicas (dispatch_request call cl c s) (fst (apply_command c m))"
    by (simp add: served_def)
  from Cons.IH [OF this] show ?case by simp
qed simp

end

section \<open>Bringing a participant back\<close>

definition small_store :: "store \<Rightarrow> bool" where
  "small_store m \<longleftrightarrow> (\<forall>(k, v) \<in> Map.graph m. pair_small (k, v))"

text \<open>
  The calls of the recovery. \<open>encodes dat m\<close>: the bytes \<open>dat\<close> are a snapshot of the store \<open>m\<close>.
  A snapshot is only promised to be read back when its keys and values are short enough.
\<close>

locale rpc_recoverable = rpc_participants call synced prepared
  for call :: "'w rpc"
    and synced :: "'w \<Rightarrow> string \<Rightarrow> u32 \<Rightarrow> store \<Rightarrow> bool"
    and prepared :: "'w \<Rightarrow> string \<Rightarrow> u32 \<Rightarrow> store \<Rightarrow> command \<Rightarrow> bool" +
  fixes encodes :: "string \<Rightarrow> store \<Rightarrow> bool"
  assumes heartbeat_law:
      "synced w a i m \<Longrightarrow> call w a Rpc_HEARTBEAT = (w', Some res0) \<Longrightarrow> synced w' a i m"
    and next_id_law:
      "synced w a i m \<Longrightarrow> call w a Rpc_NEXT_ID = (w', res) \<Longrightarrow> as_u32 res = Some n \<Longrightarrow>
       n = i \<and> synced w' a i m"
    and set_next_id_law:
      "synced w a i m \<Longrightarrow> call w a (Rpc_SET_NEXT_ID n) = (w', Some res0) \<Longrightarrow> synced w' a n m"
    and snapshot_law:
      "synced w a i m \<Longrightarrow> call w a Rpc_GET_SNAPSHOT = (w', res) \<Longrightarrow> as_bytes res = Some dat \<Longrightarrow>
       encodes dat m \<and> synced w' a i m"
    and recover_law:
      "synced w a i m \<Longrightarrow> encodes dat m' \<Longrightarrow> small_store m' \<Longrightarrow>
       call w a (Rpc_RECOVER dat ks) = (w', Some res0) \<Longrightarrow> synced w' a i ((m |` (- set ks)) ++ m')"
begin

lemma half_call_outside:
  assumes h: "half F G as s" and r: "rpc_call call a req s = (res, s1)" and a: "a \<notin> set (co_participants s)"
  shows "half F G as s1"
proof -
  have "synced (co_world s1) b = synced (co_world s) b \<and> prepared (co_world s1) b = prepared (co_world s) b"
    if "b \<in> set (co_participants s)" for b using call_frame [OF r, of b] that a by blast
  moreover have "set as \<subseteq> set (co_participants s)" using h by (simp add: half_def)
  ultimately show ?thesis
    using h rpc_call_same [OF r] by (auto simp: half_def subset_iff)
qed

lemma del_keys_rpc: "rpc_call call a req s = (res, s') \<Longrightarrow> co_del_keys s' = co_del_keys s"
  by (auto simp: rpc_call_def emit_def split: prod.splits)

lemma recovered_store:
  "dom ma \<subseteq> dom m \<union> set ks \<Longrightarrow> (ma |` (- set ks)) ++ m = m"
  by (auto simp: map_add_def restrict_map_def fun_eq_iff split: option.splits)

text \<open>
  A snapshot of the first participant that answers is installed at the address, which has
  nothing but keys of the common store and keys that are noted as deleted.
\<close>

lemma snapshot_loop_installs:
  assumes sm: "small_store m"
  shows "snapshot_loop call addr as s = (ok, s') \<Longrightarrow>
    half (\<lambda>sy pr. sy i m) (\<lambda>sy pr. sy i m) as s \<Longrightarrow> set (co_participants s) \<subseteq> set as \<Longrightarrow>
    co_next_id s = i \<Longrightarrow> addr \<notin> set (co_participants s) \<Longrightarrow> synced (co_world s) addr n ma \<Longrightarrow>
    dom ma \<subseteq> dom m \<union> set (co_del_keys s) \<Longrightarrow>
    half (\<lambda>sy pr. sy i m) (\<lambda>sy pr. sy i m) [] s' \<and> addr \<notin> set (co_participants s')
    \<and> co_next_id s' = i \<and> co_log s' = co_log s \<and> (ok \<longrightarrow> synced (co_world s') addr i m)"
proof (induction as arbitrary: s)
  case Nil
  then show ?case by auto
next
  case (Cons a as)
  obtain res s1 where r: "rpc_call call a Rpc_GET_SNAPSHOT s = (res, s1)" by fastforce
  note same = rpc_call_same [OF r] del_keys_rpc [OF r]
  have ne: "addr \<noteq> a" using Cons.prems(2,5) by (auto simp: half_def)
  then have addr: "synced (co_world s1) addr n ma" using call_frame [OF r ne] Cons.prems(6) by simp
  show ?case
  proof (cases "as_bytes res")
    case None
    with Cons.prems(1) r have l: "snapshot_loop call addr as (drop_participant a s1) = (ok, s')" by simp
    have "co_log (drop_participant a s1) = co_log s" "co_del_keys (drop_participant a s1) = co_del_keys s"
      using same by (simp_all add: drop_participant_def)
    with Cons.IH [OF l half_drop [OF Cons.prems(2) r]] Cons.prems(3-7) same addr show ?thesis
      by (auto simp: drop_same)
  next
    case (Some dat)
    have e: "encodes dat m" and p: "synced (co_world s1) a i m"
      using snapshot_law [OF half_head [OF Cons.prems(2)] rpc_call_world [OF r] Some] by auto
    have h1: "half (\<lambda>sy pr. sy i m) (\<lambda>sy pr. sy i m) [] s1"
      using half_next [OF Cons.prems(2) r p] Cons.prems(3) by (auto simp: half_def)
    obtain res2 s2 where r2: "rpc_call call addr (Rpc_RECOVER dat (co_del_keys s1)) s1 = (res2, s2)" by fastforce
    note same2 = rpc_call_same [OF r2]
    have out1: "addr \<notin> set (co_participants s1)" using Cons.prems(5) same by simp
    note h2 = half_call_outside [OF h1 r2 out1]
    show ?thesis
    proof (cases res2)
      case None
      with Cons.prems r Some r2 h2 out1 same same2 show ?thesis by auto
    next
      case (Some x2)
      have s2: "synced (co_world s2) addr n m"
        using recover_law [OF addr e sm] rpc_call_world [OF r2] Some
          recovered_store [OF Cons.prems(7)] same by metis
      obtain res3 s3 where r3: "rpc_call call addr (Rpc_SET_NEXT_ID (co_next_id s1)) s2 = (res3, s3)" by fastforce
      note same3 = rpc_call_same [OF r3]
      have h3: "half (\<lambda>sy pr. sy i m) (\<lambda>sy pr. sy i m) [] s3"
        using half_call_outside [OF h2 r3] out1 same2 by simp
      have "res3 = Some x3 \<Longrightarrow> synced (co_world s3) addr i m" for x3
        using set_next_id_law [OF s2] rpc_call_world [OF r3] Cons.prems(4) same by simp
      with Cons.prems r \<open>as_bytes res = Some dat\<close> r2 r3 Some h3 out1 same same2 same3 show ?thesis
        by (auto split: option.splits)
    qed
  qed
qed

lemma replicas_drop: "replicas s m \<Longrightarrow> replicas (drop_participant a s) m"
  by (simp add: replicas_def drop_same)

lemma replicas_call_outside:
  "replicas s m \<Longrightarrow> rpc_call call a req s = (res, s1) \<Longrightarrow> a \<notin> set (co_participants s) \<Longrightarrow> replicas s1 m"
  using half_call_outside rpc_call_same unfolding replicas_half by metis

lemma replicas_add:
  "replicas s m \<Longrightarrow> addr \<notin> set (co_participants s) \<Longrightarrow> synced (co_world s) addr (co_next_id s) m \<Longrightarrow>
   replicas (add_participant addr s) m"
  by (auto simp: replicas_def add_participant_def os_put_def)

text \<open>An address outside the map that can be brought back to the common store.\<close>

definition restorable :: "string \<Rightarrow> u32 \<Rightarrow> store \<Rightarrow> 'w coordinator \<Rightarrow> bool" where
  "restorable addr n m s \<longleftrightarrow>
     (\<exists>ma. synced (co_world s) addr n ma \<and> dom ma \<subseteq> dom m \<union> set (co_del_keys s)
        \<and> (n = co_next_id s \<longrightarrow> ma = m))"

lemma recover_participant_restores:
  assumes r: "replicas s m" and sm: "small_store m" and rec: "co_recovered s"
    and out: "addr \<notin> set (co_participants s)" and a: "restorable addr n m s"
    and nu: "rm_records (co_log s) = []"
    and rp: "recover_participant call addr s = (b, s')"
  shows "replicas s' m \<and> addr \<notin> set (co_participants s') \<and> co_next_id s' = co_next_id s
    \<and> co_log s' = co_log s \<and> (b = Some True \<longrightarrow> synced (co_world s') addr (co_next_id s) m)"
proof -
  obtain ma where ma: "synced (co_world s) addr n ma" "dom ma \<subseteq> dom m \<union> set (co_del_keys s)"
    "n = co_next_id s \<longrightarrow> ma = m" using a by (auto simp: restorable_def)
  obtain res s1 where c: "rpc_call call addr Rpc_NEXT_ID s = (res, s1)" by fastforce
  note same = rpc_call_same [OF c] del_keys_rpc [OF c]
  note r1 = replicas_call_outside [OF r c out]
  show ?thesis
  proof (cases "as_u32 res")
    case None
    with rp rec c r1 same out show ?thesis by (auto simp: recover_participant_def)
  next
    case (Some k)
    have k: "k = n" and s1: "synced (co_world s1) addr n ma"
      using next_id_law [OF ma(1) rpc_call_world [OF c] Some] by auto
    show ?thesis
    proof (cases "n = co_next_id s")
      case True
      with rp rec c Some k r1 same out s1 ma(3) show ?thesis by (auto simp: recover_participant_def)
    next
      case False
      obtain ok s2 where l: "snapshot_loop call addr (co_participants s1) s1 = (ok, s2)" by fastforce
      have "half (\<lambda>sy pr. sy (co_next_id s) m) (\<lambda>sy pr. sy (co_next_id s) m) (co_participants s1) s1"
        using r1 same by (auto simp: half_def replicas_def)
      note inst = snapshot_loop_installs [OF sm l this _ _ _ s1]
      have "\<not> record_is n RECORD_UNRESOLVED s1" using nu same by (simp add: record_is_def)
      then have "b = Some ok" "s' = s2"
        using rp rec c Some k False same l by (auto simp: recover_participant_def)
      with inst same out ma(2) show ?thesis by (auto simp: replicas_half)
    qed
  qed
qed

text \<open>A heartbeat for any address: in the map, or restorable.\<close>

lemma heartbeat_keeps_replicas:
  assumes r: "replicas s m" and sm: "small_store m" and rec: "co_recovered s"
    and nu: "rm_records (co_log s) = []"
    and a: "addr \<notin> set (co_participants s) \<Longrightarrow> restorable addr n m s"
    and hb: "heartbeat_participant call addr s = Inr s'"
  shows "replicas s' m \<and> co_next_id s' = co_next_id s"
proof -
  obtain res s1 where c: "rpc_call call addr Rpc_HEARTBEAT s = (res, s1)" by fastforce
  note same = rpc_call_same [OF c] del_keys_rpc [OF c]
  have rec1: "co_recovered s1" using rec c by (auto simp: rpc_call_def emit_def split: prod.splits)
  show ?thesis
  proof (cases res)
    case None
    have "half (\<lambda>sy pr. sy (co_next_id s) m) (\<lambda>sy pr. sy (co_next_id s) m) [] (drop_participant addr s1)"
      using r same call_frame [OF c] by (auto simp: replicas_def half_def drop_same)
    moreover have "co_next_id (drop_participant addr s1) = co_next_id s" using same by (simp add: drop_same)
    ultimately show ?thesis using None hb c by (auto simp: heartbeat_participant_def replicas_half)
  next
    case (Some x)
    show ?thesis
    proof (cases "addr \<in> set (co_participants s)")
      case True
      have "synced (co_world s1) b (co_next_id s) m" if "b \<in> set (co_participants s)" for b
        using heartbeat_law [of "co_world s" addr] rpc_call_world [OF c] Some r that call_frame [OF c, of b]
        by (cases "b = addr") (auto simp: replicas_def)
      then have "replicas s1 m" using r same by (simp add: replicas_def)
      with True Some hb c same show ?thesis by (simp add: heartbeat_participant_def)
    next
      case False
      obtain b s2 where rp: "recover_participant call addr s1 = (b, s2)" by fastforce
      have "restorable addr n m s1"
        using a [OF False] heartbeat_law rpc_call_world [OF c] Some same
        by (fastforce simp: restorable_def)
      from recover_participant_restores [OF replicas_call_outside [OF r c False] sm rec1 _ this _ rp]
      have p: "replicas s2 m" "addr \<notin> set (co_participants s2)" "co_next_id s2 = co_next_id s"
        "co_log s2 = co_log s" "b = Some True \<Longrightarrow> synced (co_world s2) addr (co_next_id s) m"
        using False nu same by auto
      have add: "b = Some True \<Longrightarrow> replicas (add_participant addr s2) m"
        using replicas_add [OF p(1,2)] p(3,5) by simp
      have dk: "replicas (t\<lparr>co_del_keys := ks\<rparr>) m = replicas t m" for t ks by (simp add: replicas_def)
      have lg: "co_log (add_participant addr s2) = co_log s" "co_next_id (add_participant addr s2) = co_next_id s"
        using p by (simp_all add: add_participant_def)
      show ?thesis
      proof (cases b)
        case None
        with False Some hb c rp same p show ?thesis
          by (auto simp: heartbeat_participant_def replicas_drop drop_same)
      next
        case (Some ok)
        with False \<open>res = Some x\<close> hb c rp same p(1,3) add dk lg nu show ?thesis
          by (cases ok) (auto simp: heartbeat_participant_def handle_unfinished_records_def Let_def
              split: if_splits)
      qed
    qed
  qed
qed

end

section \<open>When nothing fails\<close>

text \<open>A quiet network: every call to a participant that can serve it is answered.\<close>

locale rpc_responsive = rpc_participants call synced prepared
  for call :: "'w rpc"
    and synced :: "'w \<Rightarrow> string \<Rightarrow> u32 \<Rightarrow> store \<Rightarrow> bool"
    and prepared :: "'w \<Rightarrow> string \<Rightarrow> u32 \<Rightarrow> store \<Rightarrow> command \<Rightarrow> bool" +
  fixes calm :: "'w \<Rightarrow> bool"
  assumes prepare_live:
      "calm w \<Longrightarrow> synced w a i m \<Longrightarrow> is_update c \<Longrightarrow> cmd_id c = i \<Longrightarrow>
       \<exists>w' b. call w a (prepare_request c) = (w', Some (Res_Bool b)) \<and> calm w'"
    and commit_live:
      "calm w \<Longrightarrow> prepared w a i m c \<Longrightarrow> \<exists>w' x. call w a (Rpc_COMMIT i) = (w', Some (Res_String x)) \<and> calm w'"
    and get_live:
      "calm w \<Longrightarrow> synced w a i m \<Longrightarrow>
       \<exists>w' x. call w a (Rpc_GET (Get_Command k)) = (w', Some (Res_String x)) \<and> calm w'"
begin

lemma rpc_call_calm:
  assumes "call (co_world s) a req = (w', res)" "calm w'"
  shows "\<exists>s1. rpc_call call a req s = (res, s1) \<and> calm (co_world s1)"
  using assms by (simp add: rpc_call_def emit_def)

lemma prepare_loop_live:
  assumes c: "is_update c" "cmd_id c = i"
  shows "prepare_loop call (prepare_request c) as dead s = (ok, d, s') \<Longrightarrow>
    half (\<lambda>sy pr. sy i m) (\<lambda>sy pr. pr i m c) as s \<Longrightarrow> calm (co_world s) \<Longrightarrow>
    calm (co_world s') \<and> co_participants s' = co_participants s \<and> d = dead"
proof (induction as arbitrary: s)
  case Nil
  then show ?case by auto
next
  case (Cons a as)
  note sy = half_head [OF Cons.prems(2)]
  obtain w' b where "call (co_world s) a (prepare_request c) = (w', Some (Res_Bool b))" "calm w'"
    using prepare_live [OF Cons.prems(3) sy c] by blast
  then obtain s1 where r: "rpc_call call a (prepare_request c) s = (Some (Res_Bool b), s1)" "calm (co_world s1)"
    using rpc_call_calm by blast
  have b: b and p: "prepared (co_world s1) a i m c"
    using prepare_law [OF sy c rpc_call_world [OF r(1)], of b] by (auto simp: as_bool_def)
  from Cons.prems(1) r b have "prepare_loop call (prepare_request c) as dead s1 = (ok, d, s')"
    by (simp add: as_bool_def)
  from Cons.IH [OF this half_next [OF Cons.prems(2) r(1) p] r(2)] rpc_call_same [OF r(1)] show ?case
    by simp
qed

lemma commit_loop_live:
  "commit_loop call i as ret dead s = (x, d, s') \<Longrightarrow>
   half (\<lambda>sy pr. pr i m c) (\<lambda>sy pr. sy (i + 1) (fst (apply_command c m))) as s \<Longrightarrow> calm (co_world s) \<Longrightarrow>
    calm (co_world s') \<and> co_participants s' = co_participants s \<and> d = dead"
proof (induction as arbitrary: ret s)
  case Nil
  then show ?case by auto
next
  case (Cons a as)
  note pr = half_head [OF Cons.prems(2)]
  obtain w' y where "call (co_world s) a (Rpc_COMMIT i) = (w', Some (Res_String y))" "calm w'"
    using commit_live [OF Cons.prems(3) pr] by blast
  then obtain s1 where r: "rpc_call call a (Rpc_COMMIT i) s = (Some (Res_String y), s1)" "calm (co_world s1)"
    using rpc_call_calm by blast
  have p: "synced (co_world s1) a (i + 1) (fst (apply_command c m))"
    using commit_law [OF pr rpc_call_world [OF r(1)], of y] by (simp add: as_string_def)
  from Cons.prems(1) r have "commit_loop call i as (if ret = [] then y else ret) dead s1 = (x, d, s')"
    by (simp add: as_string_def)
  from Cons.IH [OF this half_next [OF Cons.prems(2) r(1) p] r(2)] rpc_call_same [OF r(1)] show ?case
    by simp
qed

lemma world_steps [simp]:
  "co_world (log_status st i s) = co_world s" "co_world (take_id s) = co_world s"
  "co_world (send_result c msg cb s) = co_world s" "co_world (notify_if dead s) = co_world s"
  "co_world (remember_deleted cmd s) = co_world s"
  by (auto simp: log_status_def emit_def take_id_def send_result_def notify_if_def
      remember_deleted_def Let_def split: sum.splits)

lemma start_live:
  assumes r: "replicas s m" and c: "is_update c0" and q: "calm (co_world s)"
    and mk: "mk (set_id (co_next_id s) c0) = prepare_request (set_id (co_next_id s) c0)"
    and st: "start_update call mk c0 s = (ok, d, cmd, s1)"
  shows "calm (co_world s1)" "co_participants s1 = co_participants s"
proof -
  let ?i = "co_next_id s" and ?cmd = "set_id (co_next_id s) c0"
  let ?s2 = "log_status RECORD_UNRESOLVED (cmd_id ?cmd) (take_id s)"
  have l: "prepare_loop call (prepare_request ?cmd) (co_participants ?s2) False ?s2 = (ok, d, s1)"
    using st mk by (auto simp: start_update_def Let_def split: prod.splits)
  have h: "half (\<lambda>sy pr. sy ?i m) (\<lambda>sy pr. pr ?i m ?cmd) (co_participants ?s2) ?s2"
    using r by (simp add: replicas_def half_def)
  show "calm (co_world s1)" "co_participants s1 = co_participants s"
    using prepare_loop_live [OF _ _ l h] c q by auto
qed

lemma update_live:
  assumes r: "replicas s m" and c: "is_update c0" and q: "calm (co_world s)"
    and mk: "mk (set_id (co_next_id s) c0) = prepare_request (set_id (co_next_id s) c0)"
    and st: "start_update call mk c0 s = (ok, d, cmd, s1)"
  shows "co_participants s1 = co_participants s
    \<and> co_participants (snd (commit_db_request call (Some cl) (cmd_id cmd) d s1)) = co_participants s
    \<and> calm (co_world (snd (commit_db_request call (Some cl) (cmd_id cmd) d s1)))"
proof -
  let ?t = "log_status RECORD_COMMIT (cmd_id cmd) s1"
  note 1 = start_live [OF r c q mk st]
  obtain x d2 s2 where k: "commit_loop call (cmd_id cmd) (co_participants ?t) [] d ?t = (x, d2, s2)"
    by (metis prod_cases3)
  have "half (\<lambda>sy pr. pr (cmd_id cmd) m cmd) (\<lambda>sy pr. sy (cmd_id cmd + 1) (fst (apply_command cmd m))) (co_participants ?t) ?t"
    using start_update_prepared [OF r c mk st, of "\<lambda>sy pr. True"] c by (auto simp: half_def)
  from commit_loop_live [OF k this] 1 k show ?thesis
    by (simp add: commit_db_request_def Let_def case_prod_beta)
qed

lemma dispatch_live:
  assumes r: "replicas s m" and ne: "co_participants s \<noteq> []" and q: "calm (co_world s)"
  shows "co_participants (dispatch_request call cl c s) = co_participants s
    \<and> calm (co_world (dispatch_request call cl c s))"
proof (cases c)
  case (Get_Command k)
  obtain a as where as: "co_participants s = a # as" using ne by (cases "co_participants s") auto
  have "synced (co_world s) a (co_next_id s) m" using r as by (simp add: replicas_def)
  from get_live [OF q this, of k] rpc_call_calm obtain x s1 where
    g: "rpc_call call a (Rpc_GET (Get_Command k)) s = (Some (Res_String x), s1)" "calm (co_world s1)" by blast
  then show ?thesis
    using as rpc_call_same [OF g(1)] Get_Command
    by (simp add: dispatch_request_def handle_db_get_request_def as_string_def)
next
  case (Set_Command i k v)
  have mk: "Rpc_PREPARE_SET (set_id j c) = prepare_request (set_id j c)" for j
    by (simp add: prepare_request_def Set_Command)
  obtain ok d cmd s1 where st: "start_update call Rpc_PREPARE_SET c s = (ok, d, cmd, s1)"
    by (metis prod_cases4)
  have ok using update_prepared_ok [where mk = Rpc_PREPARE_SET, OF r _ mk st] Set_Command by simp
  with st update_live [where mk = Rpc_PREPARE_SET, OF r _ q mk st, of cl] ne Set_Command show ?thesis
    by (simp add: dispatch_request_def handle_db_set_request_def Let_def case_prod_beta cmd_tags)
next
  case (Del_Command i ks)
  have mk: "Rpc_PREPARE_DEL (set_id j c) = prepare_request (set_id j c)" for j
    by (simp add: prepare_request_def Del_Command cmd_tags)
  obtain ok d cmd s1 where st: "start_update call Rpc_PREPARE_DEL c s = (ok, d, cmd, s1)"
    by (metis prod_cases4)
  have ok using update_prepared_ok [where mk = Rpc_PREPARE_DEL, OF r _ mk st] Del_Command by simp
  with st update_live [where mk = Rpc_PREPARE_DEL, OF r _ q mk st, of cl] ne Del_Command show ?thesis
    by (simp add: dispatch_request_def handle_db_del_request_def Let_def case_prod_beta cmd_tags)
qed

end

end
