(* ===== verification/Cluster.thy ===== *)
theory Cluster
  imports Replication
begin

text \<open>
  The coordinator and its participants together. The RPC library is replaced by an explicit
  network: a participant is up or down, and a schedule says of each call whether it is
  delivered, lost on the way, answered in vain, or ends with the participant's process. On
  this network the participants of the model satisfy the contract \<open>rpc_participants\<close>, so the
  results about replicas hold for the whole system.

  A call is executed when it is made or never. The coordinator's timeout (\<^verbatim>\<open>RPC_TIMEOUT\<close>, 600 ms) does
  not stop a participant, so this is an assumption: a call that runs on after its timeout is
  done before the participant is called again. Then it is a call whose answer is lost
  (\<open>late_call_is_lost_answer\<close>). A participant with one worker, which executes its calls in the order
  in which they reach it, is like that as long as its machine receives them in the order in which
  they are made; one with several workers may let a later call overtake an
  earlier one, and then the replicas can differ (\<open>late_recover_breaks_replicas\<close>).
\<close>

section \<open>The network\<close>

datatype fault = Deliver | Lose_Request | Lose_Answer | Crash

text \<open>When the schedule is used up, every call is delivered.\<close>

record 'db cluster =
  cl_nodes :: "string \<Rightarrow> 'db participant option"
  cl_faults :: "fault list"

definition next_fault :: "'db cluster \<Rightarrow> fault \<times> 'db cluster" where
  "next_fault w =
     (case cl_faults w of [] \<Rightarrow> (Deliver, w) | f # fs \<Rightarrow> (f, w\<lparr>cl_faults := fs\<rparr>))"

text \<open>
  A handler that throws, or runs into undefined behaviour, ends the participant's process: the
  server is not asked to suppress exceptions, so rpclib rethrows what a handler throws
  (\<^verbatim>\<open>dispatcher.cc\<close>) on a thread that does not catch it.
\<close>

definition deliver :: "'db leveldb \<Rightarrow> bool \<Rightarrow> string \<Rightarrow> rpc_request \<Rightarrow> 'db cluster
    \<Rightarrow> 'db cluster \<times> rpc_response option" where
  "deliver ldb be a req w =
     (case cl_nodes w a of
        None \<Rightarrow> (w, None)
      | Some p \<Rightarrow>
          (case serve ldb be req p of
             Inl e \<Rightarrow> (w\<lparr>cl_nodes := (cl_nodes w)(a := None)\<rparr>, None)
           | Inr (res, p') \<Rightarrow> (w\<lparr>cl_nodes := (cl_nodes w)(a := Some p')\<rparr>, Some res)))"

definition cluster_call :: "'db leveldb \<Rightarrow> bool \<Rightarrow> 'db cluster rpc" where
  "cluster_call ldb be w a req =
     (case next_fault w of
        (f, w1) \<Rightarrow>
          (case f of
             Deliver \<Rightarrow> deliver ldb be a req w1
           | Lose_Request \<Rightarrow> (w1, None)
           | Lose_Answer \<Rightarrow> (fst (deliver ldb be a req w1), None)
           | Crash \<Rightarrow> (w1\<lparr>cl_nodes := (cl_nodes w1)(a := None)\<rparr>, None)))"

section \<open>The participants keep the contract\<close>

definition node_synced :: "('db \<Rightarrow> store) \<Rightarrow> 'db cluster \<Rightarrow> string \<Rightarrow> u32 \<Rightarrow> store \<Rightarrow> bool" where
  "node_synced view w a i m \<longleftrightarrow>
     (\<exists>p. cl_nodes w a = Some p \<and> pt_next_id p = i \<and> pt_requests p = [] \<and> view (pt_db p) = m)"

definition node_prepared ::
    "('db \<Rightarrow> store) \<Rightarrow> 'db cluster \<Rightarrow> string \<Rightarrow> u32 \<Rightarrow> store \<Rightarrow> command \<Rightarrow> bool" where
  "node_prepared view w a i m c \<longleftrightarrow>
     is_update c \<and> cmd_id c = i
     \<and> (\<exists>p. cl_nodes w a = Some p \<and> pt_next_id p = i \<and> pt_requests p = [Some c] \<and> view (pt_db p) = m)"

lemma nodes_next_fault: "next_fault w = (f, w1) \<Longrightarrow> cl_nodes w1 = cl_nodes w"
  by (auto simp: next_fault_def split: list.splits)

text \<open>A call that is answered has been served by a node that is up.\<close>

lemma cluster_call_answered:
  assumes "cluster_call ldb be w a req = (w', Some res)"
  obtains p p' where "cl_nodes w a = Some p" "serve ldb be req p = Inr (res, p')"
    "cl_nodes w' = (cl_nodes w)(a := Some p')"
  using assms nodes_next_fault [of w]
  by (auto simp: cluster_call_def deliver_def split: prod.splits fault.splits option.splits
      sum.splits if_splits)

lemma cluster_call_frame:
  assumes "cluster_call ldb be w a req = (w', res)" "b \<noteq> a"
  shows "cl_nodes w' b = cl_nodes w b"
  using assms nodes_next_fault [of w]
  by (auto simp: cluster_call_def deliver_def split: prod.splits fault.splits option.splits
      sum.splits if_splits)

lemma as_bool_Some: "as_bool res = Some b \<longleftrightarrow> res = Some (Res_Bool b)"
  by (auto simp: as_bool_def split: option.splits rpc_response.splits)

lemma as_string_Some: "as_string res = Some x \<longleftrightarrow> res = Some (Res_String x)"
  by (auto simp: as_string_def split: option.splits rpc_response.splits)

lemma as_u32_Some: "as_u32 res = Some n \<longleftrightarrow> res = Some (Res_U32 n)"
  by (auto simp: as_u32_def split: option.splits rpc_response.splits)

lemma as_bytes_Some: "as_bytes res = Some x \<longleftrightarrow> res = Some (Res_Bytes x)"
  by (auto simp: as_bytes_def split: option.splits rpc_response.splits)

lemma respond_Inr: "respond f m = Inr (res, p') \<longleftrightarrow> (\<exists>x. m = Inr (x, p') \<and> res = f x)"
  by (auto simp: respond_def)

lemma serve_prepare:
  assumes "is_update c" "pt_requests p = []"
  shows "\<exists>p'. serve ldb be (prepare_request c) p = Inr (Res_Bool True, p') \<and> pt_requests p' = [Some c]
      \<and> pt_db p' = pt_db p \<and> pt_next_id p' = pt_next_id p"
  using prepare_idle [OF assms] by (auto simp: prepare_request_def respond_Inr)

lemma cluster_rpc_participants:
  assumes st: "leveldb_store ldb view"
  shows "rpc_participants (cluster_call ldb be) (node_synced view) (node_prepared view)"
proof
  fix w w' :: "'a cluster" and a i m c res b
  assume s: "node_synced view w a i m" and c: "is_update c" "cmd_id c = i"
    and call: "cluster_call ldb be w a (prepare_request c) = (w', res)" and r: "as_bool res = Some b"
  from call r obtain p p' where p: "cl_nodes w a = Some p"
    "serve ldb be (prepare_request c) p = Inr (Res_Bool b, p')" "cl_nodes w' = (cl_nodes w)(a := Some p')"
    by (auto simp: as_bool_Some elim: cluster_call_answered)
  with s c serve_prepare [OF c(1), of p ldb be] show "b \<and> node_prepared view w' a i m c"
    by (auto simp: node_synced_def node_prepared_def)
next
  fix w w' :: "'a cluster" and a i m c res x
  assume s: "node_prepared view w a i m c"
    and call: "cluster_call ldb be w a (Rpc_COMMIT i) = (w', res)" and r: "as_string res = Some x"
  from call r obtain p p' where p: "cl_nodes w a = Some p"
    "serve ldb be (Rpc_COMMIT i) p = Inr (Res_String x, p')" "cl_nodes w' = (cl_nodes w)(a := Some p')"
    by (auto simp: as_string_Some elim: cluster_call_answered)
  with s leveldb_store.commit_next [OF st, of c p "[]"]
  show "x = snd (apply_command c m) \<and> node_synced view w' a (i + 1) (fst (apply_command c m))"
    by (auto simp: node_synced_def node_prepared_def respond_Inr)
next
  fix w w' :: "'a cluster" and a i m c res b
  assume s: "node_synced view w a i m \<or> node_prepared view w a i m c"
    and call: "cluster_call ldb be w a (Rpc_ABORT i) = (w', res)" and r: "as_bool res = Some b"
  from call r obtain p p' where p: "cl_nodes w a = Some p"
    "serve ldb be (Rpc_ABORT i) p = Inr (Res_Bool b, p')" "cl_nodes w' = (cl_nodes w)(a := Some p')"
    by (auto simp: as_bool_Some elim: cluster_call_answered)
  with s abort_current [of p] show "b \<and> node_synced view w' a (i + 1) m"
    by (auto simp: node_synced_def node_prepared_def respond_Inr)
next
  fix w w' :: "'a cluster" and a i m k res x
  assume s: "node_synced view w a i m"
    and call: "cluster_call ldb be w a (Rpc_GET (Get_Command k)) = (w', res)" and r: "as_string res = Some x"
  from call r obtain p p' where p: "cl_nodes w a = Some p"
    "serve ldb be (Rpc_GET (Get_Command k)) p = Inr (Res_String x, p')" "cl_nodes w' = (cl_nodes w)(a := Some p')"
    by (auto simp: as_string_Some elim: cluster_call_answered)
  with s leveldb_store.get_view [OF st]
  show "x = encode_result (case m k of None \<Rightarrow> ''nil'' | Some v \<Rightarrow> v) \<and> node_synced view w' a i m"
    by (auto simp: node_synced_def respond_Inr get_handler_def split: option.splits)
next
  fix w w' :: "'a cluster" and a req res a'
  assume "cluster_call ldb be w a req = (w', res)" "a' \<noteq> a"
  then have "cl_nodes w' a' = cl_nodes w a'" by (rule cluster_call_frame)
  then show "node_synced view w' a' = node_synced view w a' \<and> node_prepared view w' a' = node_prepared view w a'"
    by (auto simp: node_synced_def node_prepared_def fun_eq_iff)
qed

section \<open>Recovery on the network\<close>

definition node_encodes :: "'db leveldb \<Rightarrow> ('db \<Rightarrow> store) \<Rightarrow> string \<Rightarrow> store \<Rightarrow> bool" where
  "node_encodes ldb view dat m \<longleftrightarrow>
     (\<exists>db. view db = m \<and> dat = foldl encode_pair [] (ldb_entries ldb db))"

lemma small_entries:
  assumes st: "leveldb_store ldb view" and sm: "small_store (view db)"
  shows "list_all pair_small (ldb_entries ldb db)"
proof -
  have d: "distinct (map fst (ldb_entries ldb db))" "map_of (ldb_entries ldb db) = view db"
    using leveldb_laws.entries_distinct leveldb_laws.entries_view st by (auto simp: leveldb_store_def)
  have "pair_small (k, v)" if "(k, v) \<in> set (ldb_entries ldb db)" for k v
    using map_of_is_SomeI [OF d(1) that] sm d(2) by (auto simp: small_store_def Map.graph_def)
  then show ?thesis by (auto simp: list_all_iff)
qed

lemma cluster_rpc_recoverable:
  assumes st: "leveldb_store ldb view"
  shows "rpc_recoverable (cluster_call ldb be) (node_synced view) (node_prepared view) (node_encodes ldb view)"
proof (rule rpc_recoverable.intro [OF cluster_rpc_participants [OF st]], unfold_locales)
  fix w w' :: "'a cluster" and a i m res0
  assume s: "node_synced view w a i m"
  show "node_synced view w' a i m" if "cluster_call ldb be w a Rpc_HEARTBEAT = (w', Some res0)"
    using that s
    by (auto simp: node_synced_def respond_Inr heartbeat_def elim!: cluster_call_answered)
  show "n = i \<and> node_synced view w' a i m"
    if "cluster_call ldb be w a Rpc_NEXT_ID = (w', res)" "as_u32 res = Some n" for res n
    using that s
    by (auto simp: node_synced_def respond_Inr next_id_handler_def as_u32_Some elim!: cluster_call_answered)
  show "node_synced view w' a n m" if "cluster_call ldb be w a (Rpc_SET_NEXT_ID n) = (w', Some res0)" for n
    using that s
    by (auto simp: node_synced_def respond_Inr set_next_id_handler_def elim!: cluster_call_answered)
  show "node_encodes ldb view dat m \<and> node_synced view w' a i m"
    if "cluster_call ldb be w a Rpc_GET_SNAPSHOT = (w', res)" "as_bytes res = Some dat" for res dat
    using that s
    by (auto simp: node_synced_def node_encodes_def respond_Inr get_snapshot_def as_bytes_Some
        elim!: cluster_call_answered)
  show "node_synced view w' a i ((m |` (- set ks)) ++ m')"
    if e: "node_encodes ldb view dat m'" and sm: "small_store m'"
      and call: "cluster_call ldb be w a (Rpc_RECOVER dat ks) = (w', Some res0)" for dat m' ks
  proof -
    obtain db where db: "view db = m'" "dat = foldl encode_pair [] (ldb_entries ldb db)"
      using e by (auto simp: node_encodes_def)
    from call obtain p p' where p: "cl_nodes w a = Some p"
      "serve ldb be (Rpc_RECOVER dat ks) p = Inr (res0, p')" "cl_nodes w' = (cl_nodes w)(a := Some p')"
      by (rule cluster_call_answered)
    have "list_all pair_small (ldb_entries ldb db)" using small_entries [OF st] sm db by simp
    from leveldb_store.recover_handler_spec [OF st this, of be ks p] p s db show ?thesis
      by (auto simp: node_synced_def respond_Inr)
  qed
qed

interpretation memnet: rpc_recoverable "cluster_call memtable False" "node_synced map_of"
    "node_prepared map_of" "node_encodes memtable map_of"
  by (rule cluster_rpc_recoverable [OF mem.leveldb_store_axioms])

text \<open>Without participants the coordinator only answers with an error.\<close>

lemma request_without_participants:
  assumes "co_participants s = []"
  shows "dispatch_request call cl c s = send_error cl s"
  using assms
  by (cases c) (simp_all add: dispatch_request_def handle_db_get_request_def handle_db_set_request_def
      handle_db_del_request_def cmd_tags)

section \<open>A quiet network\<close>

definition quiet :: "'db cluster \<Rightarrow> bool" where
  "quiet w \<longleftrightarrow> cl_faults w = []"

lemma quiet_call:
  assumes "quiet w" "cl_nodes w a = Some p" "serve ldb be req p = Inr (res, p')"
  shows "cluster_call ldb be w a req = (w\<lparr>cl_nodes := (cl_nodes w)(a := Some p')\<rparr>, Some res)"
  using assms by (simp add: cluster_call_def quiet_def next_fault_def deliver_def)

lemma quiet_nodes [simp]: "quiet (w\<lparr>cl_nodes := f\<rparr>) = quiet w"
  by (simp add: quiet_def)

lemma cluster_rpc_responsive:
  assumes st: "leveldb_store ldb view"
  shows "rpc_responsive (cluster_call ldb be) (node_synced view) (node_prepared view) quiet"
proof (rule rpc_responsive.intro [OF cluster_rpc_participants [OF st]], unfold_locales)
  fix w :: "'a cluster" and a i m c
  assume q: "quiet w"
  show "\<exists>w' b. cluster_call ldb be w a (prepare_request c) = (w', Some (Res_Bool b)) \<and> quiet w'"
    if s: "node_synced view w a i m" and c: "is_update c"
  proof -
    obtain p where p: "cl_nodes w a = Some p" "pt_requests p = []" using s by (auto simp: node_synced_def)
    from serve_prepare [OF c p(2)] quiet_call [OF q p(1)] q show ?thesis by fastforce
  qed
  show "\<exists>w' x. cluster_call ldb be w a (Rpc_COMMIT i) = (w', Some (Res_String x)) \<and> quiet w'"
    if s: "node_prepared view w a i m c"
  proof -
    obtain p where p: "cl_nodes w a = Some p" "pt_requests p = [Some c]" "pt_next_id p = i"
      "is_update c" "cmd_id c = i" using s by (auto simp: node_prepared_def)
    obtain p' x where "commit_handler ldb i p = Inr (x, p')"
      using leveldb_store.commit_next [OF st p(4,2)] p by auto
    then have "serve ldb be (Rpc_COMMIT i) p = Inr (Res_String x, p')" by (simp add: respond_Inr)
    from quiet_call [OF q p(1) this] q show ?thesis by auto
  qed
  show "\<exists>w' x. cluster_call ldb be w a (Rpc_GET (Get_Command k)) = (w', Some (Res_String x)) \<and> quiet w'"
    if s: "node_synced view w a i m" for k
  proof -
    obtain p where p: "cl_nodes w a = Some p" using s by (auto simp: node_synced_def)
    obtain x where "serve ldb be (Rpc_GET (Get_Command k)) p = Inr (Res_String x, p)"
      by (simp add: respond_Inr get_handler_def)
    from quiet_call [OF q p this] q show ?thesis by auto
  qed
qed

interpretation memnet: rpc_responsive "cluster_call memtable False" "node_synced map_of" "node_prepared map_of" quiet
  by (rule cluster_rpc_responsive [OF mem.leveldb_store_axioms])

section \<open>Agreement\<close>

text \<open>The participants in the coordinator's map are up, idle, at its next id, and store \<open>m\<close>.\<close>

definition in_agreement :: "('db \<Rightarrow> store) \<Rightarrow> 'db cluster coordinator \<Rightarrow> store \<Rightarrow> bool" where
  "in_agreement view s m \<longleftrightarrow>
     distinct (co_participants s)
     \<and> (\<forall>a \<in> set (co_participants s). node_synced view (co_world s) a (co_next_id s) m)"

lemma agreement_replicas:
  "leveldb_store ldb view \<Longrightarrow> rpc_participants.replicas (node_synced view) s m = in_agreement view s m"
  using rpc_participants.replicas_def [OF cluster_rpc_participants] by (simp add: in_agreement_def) blast

text \<open>A system of two idle, empty participants, used in the witnesses.\<close>

definition idle_node :: "(string, string) omap participant" where
  "idle_node = \<lparr>pt_db = [], pt_log = fresh_log, pt_requests = [], pt_next_id = 1, pt_started = True\<rparr>"

definition sample_system :: "fault list \<Rightarrow> (string, string) omap cluster coordinator" where
  "sample_system fs =
     \<lparr>co_conf = new_coordinator_configuration
        \<lparr>participant_addrs := [''a'', ''b''], participant_ports := [1, 1]\<rparr>,
      co_net = co_net sample_coordinator, co_log = fresh_log, co_participants = [''a:1'', ''b:1''],
      co_del_keys = [], co_next_id = 1, co_started = True, co_recovered = True,
      co_world = \<lparr>cl_nodes = (\<lambda>a. if a = ''a:1'' \<or> a = ''b:1'' then Some idle_node else None),
                  cl_faults = fs\<rparr>,
      co_trace = []\<rparr>"

lemma sample_agreement: "in_agreement map_of (sample_system fs) Map.empty"
  by (simp add: in_agreement_def sample_system_def node_synced_def idle_node_def)

lemma sample_waits: "waits_with 0 [] (sample_system fs)"
  by (simp add: waits_with_def sample_system_def sample_coordinator_def sample_net_def new_client_def)

text \<open>Heartbeats on a quiet network, step by step.\<close>

definition after_call :: "string \<Rightarrow> rpc_request \<Rightarrow> rpc_response \<Rightarrow> 'db participant
    \<Rightarrow> 'db cluster coordinator \<Rightarrow> 'db cluster coordinator" where
  "after_call a req res p s =
     emit (Ev_Call a req (Some res)) (s\<lparr>co_world := (co_world s)\<lparr>cl_nodes := (cl_nodes (co_world s))(a := Some p)\<rparr>\<rparr>)"

lemma quiet_rpc:
  assumes "quiet (co_world s)" "cl_nodes (co_world s) a = Some p" "serve ldb be req p = Inr (res, p')"
  shows "rpc_call (cluster_call ldb be) a req s = (Some res, after_call a req res p' s)"
  by (simp add: rpc_call_def quiet_call [OF assms] after_call_def)

lemma after_call_sel [simp]:
  "co_participants (after_call a req res p s) = co_participants s"
  "co_next_id (after_call a req res p s) = co_next_id s"
  "co_log (after_call a req res p s) = co_log s"
  "co_conf (after_call a req res p s) = co_conf s"
  "co_del_keys (after_call a req res p s) = co_del_keys s"
  "co_recovered (after_call a req res p s) = co_recovered s"
  "cl_nodes (co_world (after_call a req res p s)) = (cl_nodes (co_world s))(a := Some p)"
  "quiet (co_world (after_call a req res p s)) = quiet (co_world s)"
  by (simp_all add: after_call_def emit_def)

text \<open>
  What joins the map has the node's store; the others are as before. The noted keys are
  forgotten only when the map is complete.
\<close>

definition joined :: "string \<Rightarrow> 'db participant \<Rightarrow> 'db cluster coordinator \<Rightarrow> 'db cluster coordinator \<Rightarrow> bool" where
  "joined addr p s s' \<longleftrightarrow>
     co_participants s' = os_put addr (co_participants s) \<and> co_next_id s' = co_next_id s
     \<and> cl_nodes (co_world s') addr = Some p
     \<and> (\<forall>b. b \<noteq> addr \<longrightarrow> cl_nodes (co_world s') b = cl_nodes (co_world s) b)
     \<and> co_conf s' = co_conf s \<and> co_log s' = co_log s \<and> co_recovered s'
     \<and> quiet (co_world s') = quiet (co_world s)
     \<and> (co_del_keys s' = co_del_keys s
        \<or> length (co_participants s') = length (participant_addrs (co_conf s')))"

lemma finish_join:
  assumes "rm_records (co_log s) = []" "joined addr p s0 (add_participant addr s)"
  shows "\<exists>s'. (let s3 = add_participant addr s;
                 s4 = (if length (co_participants s3) = length (participant_addrs (co_conf s3))
                       then s3\<lparr>co_del_keys := []\<rparr> else s3)
             in handle_unfinished_records call s4) = Inr s' \<and> joined addr p s0 s'"
  using assms by (auto simp: handle_unfinished_records_def Let_def joined_def add_participant_def)

lemma fresh_heartbeat_joins:
  assumes q: "quiet (co_world s)" and f: "\<not> co_recovered s" and out: "addr \<notin> set (co_participants s)"
    and p: "cl_nodes (co_world s) addr = Some p" and nu: "rm_records (co_log s) = []"
  shows "\<exists>s'. heartbeat_participant (cluster_call ldb be) addr s = Inr s'
           \<and> joined addr (p\<lparr>pt_next_id := co_next_id s\<rparr>) s s'"
proof -
  let ?call = "cluster_call ldb be"
  have "serve ldb be Rpc_HEARTBEAT p = Inr (Res_Unit, p)" by (simp add: respond_Inr heartbeat_def)
  note 1 = quiet_rpc [OF q p this]
  let ?s1 = "after_call addr Rpc_HEARTBEAT Res_Unit p s"
  let ?req = "Rpc_SET_NEXT_ID (co_next_id ?s1)" and ?p = "p\<lparr>pt_next_id := co_next_id s\<rparr>"
  have "serve ldb be ?req p = Inr (Res_Unit, ?p)" by (simp add: respond_Inr set_next_id_handler_def)
  note 2 = quiet_rpc [OF _ _ this, of ?s1 addr]
  let ?s2 = "(after_call addr ?req Res_Unit ?p ?s1)\<lparr>co_recovered := True\<rparr>"
  have "recover_participant ?call addr ?s1 = (Some True, ?s2)"
    using f 2 q by (simp add: recover_participant_def)
  with 1 out have "heartbeat_participant ?call addr s =
      (let s3 = add_participant addr ?s2;
           s4 = (if length (co_participants s3) = length (participant_addrs (co_conf s3))
                 then s3\<lparr>co_del_keys := []\<rparr> else s3)
       in handle_unfinished_records ?call s4)"
    by (simp add: heartbeat_participant_def)
  with finish_join [of ?s2 addr ?p s ?call] nu show ?thesis
    by (simp add: joined_def add_participant_def)
qed

text \<open>The coordinator goes on whatever RECOVER answers.\<close>

lemma snapshot_heartbeat_steps:
  assumes q: "quiet (co_world s)" and f: "co_recovered s"
    and out: "addr \<notin> set (co_participants s)" and p: "cl_nodes (co_world s) addr = Some p"
    and n: "pt_next_id p \<noteq> co_next_id s" and nu: "rm_records (co_log s) = []"
    and as: "co_participants s = a # as" and pa: "cl_nodes (co_world s) a = Some pa"
    and rec: "recover_handler ldb be (foldl encode_pair [] (ldb_entries ldb (pt_db pa))) (co_del_keys s) p = Inr (b, p1)"
  shows "\<exists>s'. heartbeat_participant (cluster_call ldb be) addr s = Inr s'
    \<and> joined addr (p1\<lparr>pt_next_id := co_next_id s\<rparr>) s s'"
proof -
  let ?call = "cluster_call ldb be"
  have "serve ldb be Rpc_HEARTBEAT p = Inr (Res_Unit, p)" by (simp add: respond_Inr heartbeat_def)
  note 1 = quiet_rpc [OF q p this]
  let ?s1 = "after_call addr Rpc_HEARTBEAT Res_Unit p s"
  have "serve ldb be Rpc_NEXT_ID p = Inr (Res_U32 (pt_next_id p), p)"
    by (simp add: respond_Inr next_id_handler_def)
  note 2 = quiet_rpc [OF _ _ this, of ?s1 addr]
  let ?s2 = "after_call addr Rpc_NEXT_ID (Res_U32 (pt_next_id p)) p ?s1"
  have ne: "a \<noteq> addr" using out as by auto
  let ?dat = "foldl encode_pair [] (ldb_entries ldb (pt_db pa))"
  have "serve ldb be Rpc_GET_SNAPSHOT pa = Inr (Res_Bytes ?dat, pa)"
    by (simp add: respond_Inr get_snapshot_def)
  note 3 = quiet_rpc [OF _ _ this, of ?s2 a]
  let ?s3 = "after_call a Rpc_GET_SNAPSHOT (Res_Bytes ?dat) pa ?s2"
  let ?rec = "Rpc_RECOVER ?dat (co_del_keys s)"
  have "serve ldb be ?rec p = Inr (Res_Bool b, p1)" using rec by (simp add: respond_def)
  note 4 = quiet_rpc [OF _ _ this, of ?s3 addr]
  let ?s4 = "after_call addr ?rec (Res_Bool b) p1 ?s3"
  let ?req = "Rpc_SET_NEXT_ID (co_next_id s)" and ?p = "p1\<lparr>pt_next_id := co_next_id s\<rparr>"
  have "serve ldb be ?req p1 = Inr (Res_Unit, ?p)" by (simp add: respond_Inr set_next_id_handler_def)
  note 5 = quiet_rpc [OF _ _ this, of ?s4 addr]
  let ?s5 = "after_call addr ?req Res_Unit ?p ?s4"
  have "\<not> record_is (pt_next_id p) RECORD_UNRESOLVED ?s2" using nu by (simp add: record_is_def)
  then have "recover_participant ?call addr ?s1 = (Some True, ?s5)"
    using f q p pa n ne as 2 3 4 5 by (simp add: recover_participant_def as_u32_def as_bytes_def)
  with 1 out have hb: "heartbeat_participant ?call addr s =
      (let s3 = add_participant addr ?s5;
           s4 = (if length (co_participants s3) = length (participant_addrs (co_conf s3))
                 then s3\<lparr>co_del_keys := []\<rparr> else s3)
       in handle_unfinished_records ?call s4)"
    by (simp add: heartbeat_participant_def)
  have "joined addr ?p s (add_participant addr ?s5)"
    using pa f by (auto simp: joined_def add_participant_def)
  with finish_join [of ?s5 addr ?p s ?call] nu show ?thesis unfolding hb by auto
qed

lemma snapshot_heartbeat_joins:
  assumes st: "leveldb_store ldb view" and q: "quiet (co_world s)" and f: "co_recovered s"
    and out: "addr \<notin> set (co_participants s)" and p: "cl_nodes (co_world s) addr = Some p"
    and n: "pt_next_id p \<noteq> co_next_id s" and nu: "rm_records (co_log s) = []"
    and as: "co_participants s = a # as" and pa: "cl_nodes (co_world s) a = Some pa"
    and sm: "small_store (view (pt_db pa))"
  shows "\<exists>s' p'. heartbeat_participant (cluster_call ldb be) addr s = Inr s' \<and> joined addr p' s s'
           \<and> view (pt_db p') = (view (pt_db p) |` (- set (co_del_keys s))) ++ view (pt_db pa)"
proof -
  obtain p1 where p1: "recover_handler ldb be (foldl encode_pair [] (ldb_entries ldb (pt_db pa))) (co_del_keys s) p = Inr (True, p1)"
    "view (pt_db p1) = (view (pt_db p) |` (- set (co_del_keys s))) ++ view (pt_db pa)"
    using leveldb_store.recover_handler_spec [OF st small_entries [OF st sm]] by blast
  from snapshot_heartbeat_steps [OF q f out p n nu as pa p1(1)] obtain s' where
    "heartbeat_participant (cluster_call ldb be) addr s = Inr s'" "joined addr (p1\<lparr>pt_next_id := co_next_id s\<rparr>) s s'"
    by blast
  with p1(2) show ?thesis by (intro exI [of _ s'] exI [of _ "p1\<lparr>pt_next_id := co_next_id s\<rparr>"]) simp
qed

lemma joined_disagrees:
  assumes a: "in_agreement view s m" "co_participants s \<noteq> []" "addr \<notin> set (co_participants s)"
    and j: "joined addr p s s'" and ne: "view (pt_db p) \<noteq> m"
  shows "\<not> in_agreement view s' m'"
proof
  assume "in_agreement view s' m'"
  then have i: "\<forall>a \<in> insert addr (set (co_participants s)). node_synced view (co_world s') a (co_next_id s) m'"
    using j by (auto simp: in_agreement_def joined_def)
  obtain b where b: "b \<in> set (co_participants s)" using a(2) by (cases "co_participants s") auto
  then have "cl_nodes (co_world s') b = cl_nodes (co_world s) b" using a(3) j by (auto simp: joined_def)
  with a(1) b i have "m' = m" by (fastforce simp: in_agreement_def node_synced_def)
  moreover have "m' = view (pt_db p)" using i j by (auto simp: node_synced_def joined_def)
  ultimately show False using ne by simp
qed

lemma heartbeat_agreement:
  assumes "leveldb_store ldb view" "in_agreement view s m" "small_store m" "co_recovered s"
    "rm_records (co_log s) = []"
    "addr \<notin> set (co_participants s) \<Longrightarrow> node_synced view (co_world s) addr n ma"
    "dom ma \<subseteq> dom m \<union> set (co_del_keys s)" "n = co_next_id s \<longrightarrow> ma = m"
    "heartbeat_participant (cluster_call ldb be) addr s = Inr s'"
  shows "in_agreement view s' m \<and> co_next_id s' = co_next_id s"
proof -
  note loc = cluster_rpc_recoverable [OF assms(1), of be]
  have "rpc_recoverable.restorable (node_synced view) addr n m s" if "addr \<notin> set (co_participants s)"
    using assms(6) [OF that] assms(7,8) by (auto simp: rpc_recoverable.restorable_def [OF loc])
  from rpc_recoverable.heartbeat_keeps_replicas [OF loc, of s m addr n s'] assms this show ?thesis
    by (simp add: agreement_replicas [OF assms(1)])
qed

section \<open>The answers to a stream of requests\<close>

fun answers :: "command list \<Rightarrow> store \<Rightarrow> string list" where
  "answers [] m = []"
| "answers (c # cs) m = answer c m # answers cs (fst (apply_command c m))"

definition store_after :: "command list \<Rightarrow> store \<Rightarrow> store" where
  "store_after cs m = fold (\<lambda>c m. fst (apply_command c m)) cs m"

lemma store_after_simps [simp]:
  "store_after [] m = m" "store_after (c # cs) m = store_after cs (fst (apply_command c m))"
  "store_after (cs @ cs') m = store_after cs' (store_after cs m)"
  by (simp_all add: store_after_def)

lemma answers_append [simp]: "answers (cs @ cs') m = answers cs m @ answers cs' (store_after cs m)"
  by (induction cs arbitrary: m) simp_all

text \<open>While a participant is left, the client has been answered with what the commands mean.\<close>

definition answered :: "('db \<Rightarrow> store) \<Rightarrow> nat \<Rightarrow> command list \<Rightarrow> store
    \<Rightarrow> 'db cluster coordinator \<Rightarrow> 'db cluster coordinator \<Rightarrow> bool" where
  "answered view cl cs m s s' \<longleftrightarrow>
     in_agreement view s' (store_after cs m)
     \<and> (co_participants s' \<noteq> [] \<longrightarrow>
          co_participants s \<noteq> [] \<and> owed cl s' = owed cl s @ map (\<lambda>x. (x, False)) (answers cs m))"

lemma answered_append:
  "answered view cl cs m s t \<Longrightarrow> answered view cl cs' (store_after cs m) t u \<Longrightarrow> answered view cl (cs @ cs') m s u"
  by (auto simp: answered_def)

lemma answered_dispatch:
  assumes st: "leveldb_store ldb view" and "in_agreement view s m" "tc_connected (n_clients (co_net s) cl)"
  shows "answered view cl [c] m s (dispatch_request (cluster_call ldb be) cl c s)"
proof -
  note loc = cluster_rpc_participants [OF st, of be]
  have "co_participants s = [] \<Longrightarrow> co_participants (dispatch_request (cluster_call ldb be) cl c s) = []"
    by (auto simp: request_without_participants send_error_def send_result_def split: sum.splits)
  with rpc_participants.served_dispatch [OF loc, of s m cl c] assms show ?thesis
    by (auto simp: answered_def rpc_participants.served_def [OF loc] agreement_replicas [OF st])
qed

lemma answered_dispatches:
  assumes st: "leveldb_store ldb view"
  shows "in_agreement view s m \<Longrightarrow> tc_connected (n_clients (co_net s) cl) \<Longrightarrow>
    answered view cl cs m s (fold (dispatch_request (cluster_call ldb be) cl) cs s)"
proof (induction cs arbitrary: s m)
  case (Cons c cs)
  let ?s1 = "dispatch_request (cluster_call ldb be) cl c s"
  note 1 = answered_dispatch [OF st Cons.prems, of c be]
  have "tc_connected (n_clients (co_net ?s1) cl)"
    using same_reads_dispatch [of cl s "cluster_call ldb be" cl c] Cons.prems(2) by (simp add: same_reads_def)
  with 1 Cons.IH [of ?s1 "fst (apply_command c m)"]
  have "answered view cl cs (store_after [c] m) ?s1 (fold (dispatch_request (cluster_call ldb be) cl) cs ?s1)"
    by (simp add: answered_def)
  from answered_append [OF 1 this] show ?case by simp
qed (simp add: answered_def)

lemma answered_read:
  assumes st: "leveldb_store ldb view" and "in_agreement view s m"
    and "waits_with cl prev s" "parse_db_requests (prev @ d) = (cs, n, e)" "resumable e"
  shows "answered view cl cs m s (client_readable (cluster_call ldb be) cl (\<lambda>_. Some d) junk s)"
proof -
  obtain net pd where run: "client_readable (cluster_call ldb be) cl (\<lambda>_. Some d) junk s =
       read_again cl pd (fold (dispatch_request (cluster_call ldb be) cl) cs (s\<lparr>co_net := net\<rparr>))"
    "tc_connected (n_clients net cl)" "tc_writes (n_clients net cl) = tc_writes (n_clients (co_net s) cl)"
    using client_readable_runs [OF assms(3-5)] by metis
  have again: "owed cl (read_again cl pd t) = owed cl t" "co_participants (read_again cl pd t) = co_participants t"
    "in_agreement view (read_again cl pd t) m' = in_agreement view t m'" for t :: "'a cluster coordinator" and m'
    by (auto simp: read_again_def owed_def async_read_def in_agreement_def Let_def split: sum.splits)
  have "in_agreement view (s\<lparr>co_net := net\<rparr>) m" using assms(2) by (simp add: in_agreement_def)
  from answered_dispatches [OF st this, of cl cs be] run(2,3) show ?thesis
    unfolding run(1) by (simp add: answered_def again) (simp add: owed_def)
qed

lemma answered_stream:
  assumes st: "leveldb_store ldb view"
  shows "in_agreement view s m \<Longrightarrow> waits_with cl prev s \<Longrightarrow> parse_db_requests (prev @ concat ds) = (cs, n, e) \<Longrightarrow>
    resumable e \<Longrightarrow> ds \<noteq> [] \<Longrightarrow>
    answered view cl cs m s (fold (\<lambda>d. client_readable (cluster_call ldb be) cl (\<lambda>_. Some d) junk) ds s)"
proof (induction ds arbitrary: prev s m cs n e)
  case (Cons d ds)
  obtain cs1 n1 e1 cs2 n2 e2 where 1: "parse_db_requests (prev @ d) = (cs1, n1, e1)" "resumable e1"
    and 2: "parse_db_requests (drop n1 (prev @ d) @ concat ds) = (cs2, n2, e2)" "resumable e2"
    and cs: "cs = cs1 @ cs2"
    by (rule parse_pieces [OF _ Cons.prems(4), of prev d "concat ds"]) (use Cons.prems(3) in simp)
  let ?s1 = "client_readable (cluster_call ldb be) cl (\<lambda>_. Some d) junk s"
  note a = answered_read [OF st Cons.prems(1,2) 1, of be junk]
  show ?case
  proof (cases "ds = []")
    case True
    with Cons.prems(3) 1 a show ?thesis by simp
  next
    case False
    have "in_agreement view ?s1 (store_after cs1 m)" using a by (simp add: answered_def)
    from Cons.IH [OF this conjunct2 [OF client_readable_step [OF Cons.prems(2) 1]] 2 False] cs
      answered_append [OF a] show ?thesis by simp
  qed
qed simp

section \<open>Properties\<close>

text \<open>C2: the whole system is a sequential key-value store, seen from the bytes of a client. Its
  requests, cut into pieces by TCP in any way and served while any calls to participants are
  lost, answered in vain or end with a crash, leave every participant the coordinator still
  keeps with the store that executing the requests one after the other gives, at the
  coordinator's next id and with nothing queued; and if one is left at the end, the client is
  owed exactly the answers these requests mean on that store, in their order.\<close>

theorem client_stream_keeps_replicas:
  assumes "leveldb_store ldb view" "in_agreement view s m" "waits_with cl [] s"
    "list_all (\<lambda>ws. resp_sized ws \<and> command_of_words ws \<noteq> None) wss"
    "concat ds = concat (map resp_array wss)" "cs = map (the \<circ> command_of_words) wss"
    "s' = fold (\<lambda>d. client_readable (cluster_call ldb be) cl (\<lambda>_. Some d) junk) ds s"
  shows "in_agreement view s' (store_after cs m)
    \<and> (co_participants s' \<noteq> [] \<longrightarrow> owed cl s' = owed cl s @ map (\<lambda>x. (x, False)) (answers cs m))"
proof (cases "ds = []")
  case True
  then have "wss = []" using assms(5) by (cases wss) (simp_all add: resp_array_def)
  with True assms(2,6,7) show ?thesis by simp
next
  case False
  have "parse_db_requests ([] @ concat ds) = (cs, length (concat ds), None)"
    using parse_requests_from [OF assms(4) new_parser_ahead(1), of "concat ds"] assms(5,6)
    by (simp add: parse_db_requests_def new_parser_ahead) (simp add: new_parser_def)
  from answered_stream [OF assms(1,2,3) this _ False, of be junk] show ?thesis
    by (simp add: answered_def resumable_def assms(7))
qed

theorem client_stream_keeps_replicas_witness:
  "let s' = client_readable (cluster_call memtable False) 0 (\<lambda>_. Some (drop 7 (resp_array [''SET'', ''k'', ''v'']))) True
       (client_readable (cluster_call memtable False) 0 (\<lambda>_. Some (take 7 (resp_array [''SET'', ''k'', ''v'']))) True
         (sample_system [Lose_Request]))
   in in_agreement map_of s' [''k'' \<mapsto> ''v'']
      \<and> (co_participants s' \<noteq> [] \<longrightarrow> owed 0 s' = owed 0 (sample_system [Lose_Request]) @ [(update_ok_string, False)])"
  using client_stream_keeps_replicas [OF mem.leveldb_store_axioms sample_agreement [of "[Lose_Request]"]
      sample_waits _ _ refl refl, of "[[''SET'', ''k'', ''v'']]"
      "[take 7 (resp_array [''SET'', ''k'', ''v'']), drop 7 (resp_array [''SET'', ''k'', ''v''])]"
      False True]
  by (simp add: resp_sized_def command_of_words_def new_set_command_def answer_def Let_def)

text \<open>C3: every request of a connected client is answered with exactly one text. As long as one
  participant is left when it is served, the text is the one the command means on the
  common store: the value for GET, the acknowledgement for SET and DEL. When none is left
  it is that text, the error text, or, after a COMMIT nobody answered, the empty string.\<close>

theorem request_answered_once:
  assumes "leveldb_store ldb view" "in_agreement view s m" "tc_connected (n_clients (co_net s) cl)"
    "s' = dispatch_request (cluster_call ldb be) cl c s"
  shows "in_agreement view s' (fst (apply_command c m))
    \<and> (\<exists>x cb. owed cl s' = owed cl s @ [(x, cb)]
         \<and> (co_participants s' \<noteq> [] \<longrightarrow> x = answer c m \<and> \<not> cb)
         \<and> (x = answer c m \<or> x = [] \<or> x = error_string))"
proof -
  note loc = cluster_rpc_participants [OF assms(1), of be]
  from rpc_participants.served_dispatch [OF loc, of s m cl c] assms
  have "rpc_participants.served (node_synced view) cl c m s s'"
    by (simp add: agreement_replicas [OF assms(1)])
  then show ?thesis
    using assms(3)
    by (simp add: rpc_participants.served_def [OF loc] agreement_replicas [OF assms(1)])
qed

theorem request_answered_once_witness:
  "\<exists>x cb. owed 0 (dispatch_request (cluster_call memtable False) 0 (Get_Command ''k'') (sample_system [Crash]))
      = owed 0 (sample_system [Crash]) @ [(x, cb)]
    \<and> (x = answer (Get_Command ''k'') Map.empty \<or> x = [] \<or> x = error_string)"
proof -
  have "tc_connected (n_clients (co_net (sample_system [Crash])) 0)"
    using sample_waits by (simp add: waits_with_def)
  from request_answered_once [OF mem.leveldb_store_axioms sample_agreement this refl, of False "Get_Command ''k''"]
  show ?thesis by blast
qed

text \<open>C14: when no call fails, serving a request loses no participant, so the client gets the
  text the command means, and all of them end with the updated store.\<close>

theorem quiet_request_succeeds:
  assumes "leveldb_store ldb view" "in_agreement view s m" "co_participants s \<noteq> []"
    "tc_connected (n_clients (co_net s) cl)" "quiet (co_world s)"
    "s' = dispatch_request (cluster_call ldb be) cl c s"
  shows "co_participants s' = co_participants s \<and> in_agreement view s' (fst (apply_command c m))
    \<and> owed cl s' = owed cl s @ [(answer c m, False)] \<and> quiet (co_world s')"
proof -
  note loc = cluster_rpc_participants [OF assms(1), of be]
  have "co_participants s' = co_participants s \<and> quiet (co_world s')"
    using rpc_responsive.dispatch_live [OF cluster_rpc_responsive [OF assms(1)]] assms
    by (simp add: agreement_replicas [OF assms(1)])
  moreover from rpc_participants.served_dispatch [OF loc, of s m cl c] assms
  have "rpc_participants.served (node_synced view) cl c m s s'"
    by (simp add: agreement_replicas [OF assms(1)])
  ultimately show ?thesis
    using assms(3,4)
    by (auto simp: rpc_participants.served_def [OF loc] agreement_replicas [OF assms(1)])
qed

theorem quiet_request_succeeds_witness:
  "owed 0 (dispatch_request (cluster_call memtable False) 0 (Set_Command 0 ''k'' ''v'') (sample_system []))
     = owed 0 (sample_system []) @ [(update_ok_string, False)]"
proof -
  have "tc_connected (n_clients (co_net (sample_system [])) 0)"
    using sample_waits by (simp add: waits_with_def)
  moreover have "co_participants (sample_system []) \<noteq> []" "quiet (co_world (sample_system []))"
    by (simp_all add: sample_system_def quiet_def)
  ultimately show ?thesis
    using quiet_request_succeeds [OF mem.leveldb_store_axioms sample_agreement _ _ _ refl,
        of "[]" 0 False "Set_Command 0 ''k'' ''v''"]
    by (simp add: answer_def)
qed

text \<open>A heartbeat keeps the participants in agreement, whichever calls fail: it drops a
  participant that does not answer, and brings one back only with the common store. This
  needs a coordinator that knows it is not a fresh one, no unfinished request, keys and
  values short enough for a snapshot, and an idle node that holds no key besides those of
  the common store and those noted as deleted.\<close>

theorem heartbeat_restores_participant:
  assumes "leveldb_store ldb view" "in_agreement view s m" "small_store m" "co_recovered s"
    "rm_records (co_log s) = []"
    "addr \<notin> set (co_participants s) \<Longrightarrow> node_synced view (co_world s) addr n ma"
    "dom ma \<subseteq> dom m \<union> set (co_del_keys s)" "n = co_next_id s \<longrightarrow> ma = m"
    "heartbeat_participant (cluster_call ldb be) addr s = Inr s'"
  shows "in_agreement view s' m \<and> co_next_id s' = co_next_id s"
  by (rule heartbeat_agreement [OF assms])

theorem heartbeat_restores_participant_witness:
  "\<exists>s'. heartbeat_participant (cluster_call memtable False) ''b:1''
         ((sample_system [])\<lparr>co_participants := [''a:1'']\<rparr>) = Inr s' \<and> in_agreement map_of s' Map.empty"
proof -
  let ?s = "(sample_system [])\<lparr>co_participants := [''a:1'']\<rparr>"
  obtain s' where s': "heartbeat_participant (cluster_call memtable False) ''b:1'' ?s = Inr s'"
  proof (cases "heartbeat_participant (cluster_call memtable False) ''b:1'' ?s")
    case (Inl e)
    then show ?thesis
      by (auto simp: heartbeat_participant_def handle_unfinished_records_def Let_def rpc_call_def
          emit_def sample_system_def fresh_log_def recover_participant_def cluster_call_def
          next_fault_def deliver_def idle_node_def respond_def heartbeat_def next_id_handler_def
          as_u32_def add_participant_def os_put_def new_coordinator_configuration_def)
  qed
  have "in_agreement map_of ?s Map.empty"
    using sample_agreement [of "[]"] by (simp add: in_agreement_def sample_system_def)
  from heartbeat_restores_participant [OF mem.leveldb_store_axioms this _ _ _ _ _ _ s', of 1 Map.empty]
  have "in_agreement map_of s' Map.empty"
    by (simp add: small_store_def sample_system_def fresh_log_def node_synced_def idle_node_def
        Map.graph_def)
  with s' show ?thesis by blast
qed

text \<open>C28: a coordinator that started fresh and found all its participants keeps taking itself
  for a fresh one: the first participant that fails later and comes back is told the next id
  and nothing else. It joins with whatever it stores, and the replicas disagree.\<close>

theorem fresh_coordinator_readmits_stale_store:
  assumes "in_agreement view s m" "co_participants s \<noteq> []" "\<not> co_recovered s"
    "quiet (co_world s)" "rm_records (co_log s) = []" "addr \<notin> set (co_participants s)"
    "node_synced view (co_world s) addr n ma" "ma \<noteq> m"
  shows "\<exists>s'. heartbeat_participant (cluster_call ldb be) addr s = Inr s'
           \<and> addr \<in> set (co_participants s') \<and> (\<forall>m'. \<not> in_agreement view s' m')"
proof -
  obtain p where p: "cl_nodes (co_world s) addr = Some p" "view (pt_db p) = ma"
    using assms(7) by (auto simp: node_synced_def)
  obtain s' where s': "heartbeat_participant (cluster_call ldb be) addr s = Inr s'"
    "joined addr (p\<lparr>pt_next_id := co_next_id s\<rparr>) s s'"
    using fresh_heartbeat_joins [OF assms(4,3,6) p(1) assms(5)] by blast
  from joined_disagrees [OF assms(1,2,6) s'(2)] s' p(2) assms(8) show ?thesis
    by (auto simp: joined_def)
qed

theorem fresh_coordinator_readmits_stale_store_witness:
  "\<exists>s'. heartbeat_participant (cluster_call memtable False) ''b:1''
      ((sample_system [])\<lparr>co_participants := [''a:1''], co_recovered := False,
        co_world := \<lparr>cl_nodes = [''a:1'' \<mapsto> idle_node\<lparr>pt_db := [(''k'', ''v'')]\<rparr>, ''b:1'' \<mapsto> idle_node], cl_faults = []\<rparr>\<rparr>)
      = Inr s' \<and> ''b:1'' \<in> set (co_participants s') \<and> (\<forall>m'. \<not> in_agreement map_of s' m')"
  by (rule fresh_coordinator_readmits_stale_store [where m = "[''k'' \<mapsto> ''v'']" and n = 1 and ma = Map.empty])
    (simp_all add: in_agreement_def sample_system_def node_synced_def idle_node_def quiet_def
      fresh_log_def map_upd_nonempty [THEN not_sym])

text \<open>The set of deleted keys is kept in memory only. After a restart of the coordinator a
  participant that missed a deletion is brought back with the key still in its store, while
  the others have lost it.\<close>

theorem restart_resurrects_deleted_key:
  assumes "leveldb_store ldb view" "in_agreement view s m" "co_participants s \<noteq> []" "co_recovered s"
    "co_del_keys s = []" "quiet (co_world s)" "rm_records (co_log s) = []" "small_store m"
    "addr \<notin> set (co_participants s)" "node_synced view (co_world s) addr n ma" "n \<noteq> co_next_id s"
    "k \<in> dom ma" "k \<notin> dom m"
  shows "\<exists>s'. heartbeat_participant (cluster_call ldb be) addr s = Inr s'
           \<and> addr \<in> set (co_participants s') \<and> (\<forall>m'. \<not> in_agreement view s' m')"
proof -
  obtain p where p: "cl_nodes (co_world s) addr = Some p" "view (pt_db p) = ma" "pt_next_id p = n"
    using assms(10) by (auto simp: node_synced_def)
  obtain a as where as: "co_participants s = a # as" using assms(3) by (cases "co_participants s") auto
  then obtain pa where pa: "cl_nodes (co_world s) a = Some pa" "view (pt_db pa) = m"
    using assms(2) by (auto simp: in_agreement_def node_synced_def)
  have "pt_next_id p \<noteq> co_next_id s" "small_store (view (pt_db pa))" using assms(8,11) p pa by auto
  then obtain s' p' where s': "heartbeat_participant (cluster_call ldb be) addr s = Inr s'" "joined addr p' s s'"
    "view (pt_db p') = (ma |` (- set (co_del_keys s))) ++ m"
    using snapshot_heartbeat_joins [OF assms(1,6,4,9) p(1) _ assms(7) as pa(1), of be] p(2) pa(2) by blast
  have "view (pt_db p') k \<noteq> m k" using s'(3) assms(5,12,13) by (auto simp: map_add_def)
  then have "view (pt_db p') \<noteq> m" by auto
  from joined_disagrees [OF assms(2,3,9) s'(2) this] s' show ?thesis
    by (auto simp: joined_def)
qed

theorem restart_resurrects_deleted_key_witness:
  "\<exists>s'. heartbeat_participant (cluster_call memtable False) ''b:1''
      ((sample_system [])\<lparr>co_participants := [''a:1''], co_next_id := 2,
        co_world := \<lparr>cl_nodes = [''a:1'' \<mapsto> idle_node\<lparr>pt_next_id := 2\<rparr>, ''b:1'' \<mapsto> idle_node\<lparr>pt_db := [(''k'', ''v'')]\<rparr>],
                     cl_faults = []\<rparr>\<rparr>)
      = Inr s' \<and> ''b:1'' \<in> set (co_participants s') \<and> (\<forall>m'. \<not> in_agreement map_of s' m')"
  by (rule restart_resurrects_deleted_key [OF mem.leveldb_store_axioms, where m = Map.empty and n = 1
        and ma = "[''k'' \<mapsto> ''v'']" and k = "''k''"])
    (simp_all add: in_agreement_def sample_system_def node_synced_def idle_node_def quiet_def
      fresh_log_def small_store_def Map.graph_def)

end
