(* ===== verification/Healing.thy ===== *)
theory Healing
  imports Cluster
begin

text \<open>
  The system when calls stop failing: a pass of the heartbeat brings every participant back,
  and a coordinator restarted with no request under way takes its participants over.
\<close>

section \<open>A heartbeat on a quiet network\<close>

lemma known_heartbeat:
  assumes q: "quiet (co_world s)" and a: "addr \<in> set (co_participants s)"
    and p: "cl_nodes (co_world s) addr = Some p"
  shows "heartbeat_participant (cluster_call ldb be) addr s = Inr (after_call addr Rpc_HEARTBEAT Res_Unit p s)"
proof -
  have "serve ldb be Rpc_HEARTBEAT p = Inr (Res_Unit, p)" by (simp add: respond_Inr heartbeat_def)
  from quiet_rpc [OF q p this] a show ?thesis by (simp add: heartbeat_participant_def)
qed

text \<open>A participant at the coordinator's id joins as it is.\<close>

lemma level_heartbeat_joins:
  assumes q: "quiet (co_world s)" and f: "co_recovered s" and out: "addr \<notin> set (co_participants s)"
    and p: "cl_nodes (co_world s) addr = Some p" and n: "pt_next_id p = co_next_id s"
    and nu: "rm_records (co_log s) = []"
  shows "\<exists>s'. heartbeat_participant (cluster_call ldb be) addr s = Inr s' \<and> joined addr p s s'"
proof -
  let ?call = "cluster_call ldb be"
  have "serve ldb be Rpc_HEARTBEAT p = Inr (Res_Unit, p)" by (simp add: respond_Inr heartbeat_def)
  note 1 = quiet_rpc [OF q p this]
  let ?s1 = "after_call addr Rpc_HEARTBEAT Res_Unit p s"
  have "serve ldb be Rpc_NEXT_ID p = Inr (Res_U32 (pt_next_id p), p)"
    by (simp add: respond_Inr next_id_handler_def)
  note 2 = quiet_rpc [OF _ _ this, of ?s1 addr]
  let ?s2 = "after_call addr Rpc_NEXT_ID (Res_U32 (pt_next_id p)) p ?s1"
  have "recover_participant ?call addr ?s1 = (Some True, ?s2)"
    using f q n 2 by (simp add: recover_participant_def as_u32_def)
  with 1 out have hb: "heartbeat_participant ?call addr s =
      (let s3 = add_participant addr ?s2;
           s4 = (if length (co_participants s3) = length (participant_addrs (co_conf s3))
                 then s3\<lparr>co_del_keys := []\<rparr> else s3)
       in handle_unfinished_records ?call s4)"
    by (simp add: heartbeat_participant_def)
  have "joined addr p s (add_participant addr ?s2)"
    using p f by (auto simp: joined_def add_participant_def)
  with finish_join [of ?s2 addr p s ?call] nu show ?thesis unfolding hb by simp
qed

text \<open>
  One that is away and idle, with no key in its store besides those of the common store and
  those noted as deleted, joins with the common store.
\<close>

lemma absent_heartbeat:
  assumes st: "leveldb_store ldb view" and sm: "small_store m" and ag: "in_agreement view s m"
    and q: "quiet (co_world s)" and f: "co_recovered s" and nu: "rm_records (co_log s) = []"
    and ne: "co_participants s \<noteq> []" and out: "addr \<notin> set (co_participants s)"
    and na: "node_synced view (co_world s) addr n ma" "dom ma \<subseteq> dom m \<union> set (co_del_keys s)"
      "n = co_next_id s \<longrightarrow> ma = m"
  shows "\<exists>s' p'. heartbeat_participant (cluster_call ldb be) addr s = Inr s' \<and> joined addr p' s s'
    \<and> in_agreement view s' m"
proof -
  obtain p where p: "cl_nodes (co_world s) addr = Some p" using na(1) by (auto simp: node_synced_def)
  obtain b bs where b: "co_participants s = b # bs" using ne by (cases "co_participants s") auto
  then obtain pb where pb: "cl_nodes (co_world s) b = Some pb" "view (pt_db pb) = m"
    using ag by (auto simp: in_agreement_def node_synced_def)
  have "small_store (view (pt_db pb))" using pb(2) sm by simp
  then obtain s' p' where s': "heartbeat_participant (cluster_call ldb be) addr s = Inr s'" "joined addr p' s s'"
    using level_heartbeat_joins [OF q f out p _ nu]
      snapshot_heartbeat_joins [OF st q f out p _ nu b pb(1)] by blast
  with heartbeat_agreement [OF st ag sm f nu na(1) na(2,3) s'(1)] show ?thesis by blast
qed

section \<open>A pass of the heartbeat\<close>

text \<open>
  The absent participants are up and idle, hold no key besides those of the common store and
  those noted as deleted, and the common store if they are at the coordinator's id.
\<close>

definition curable :: "('db \<Rightarrow> store) \<Rightarrow> store \<Rightarrow> 'db cluster coordinator \<Rightarrow> string \<Rightarrow> bool" where
  "curable view m s a \<longleftrightarrow>
     (\<exists>n ma. node_synced view (co_world s) a n ma \<and> dom ma \<subseteq> dom m \<union> set (co_del_keys s)
        \<and> (n = co_next_id s \<longrightarrow> ma = m))"

definition healing :: "('db \<Rightarrow> store) \<Rightarrow> store \<Rightarrow> 'db cluster coordinator \<Rightarrow> bool" where
  "healing view m s \<longleftrightarrow>
     in_agreement view s m \<and> quiet (co_world s) \<and> co_recovered s \<and> rm_records (co_log s) = []
     \<and> co_participants s \<noteq> [] \<and> set (co_participants s) \<subseteq> set (conf_addresses (co_conf s))
     \<and> (\<forall>a \<in> set (conf_addresses (co_conf s)) - set (co_participants s). curable view m s a)"

text \<open>Every participant has a port, and no two have the same address.\<close>

definition sound_addresses :: "coordinator_configuration \<Rightarrow> bool" where
  "sound_addresses conf \<longleftrightarrow>
     distinct (conf_addresses conf) \<and> length (participant_ports conf) = length (participant_addrs conf)"

lemma complete_map:
  assumes "sound_addresses conf" "distinct ps" "set ps \<subseteq> set (conf_addresses conf)"
    "length ps = length (participant_addrs conf)"
  shows "set ps = set (conf_addresses conf)"
proof (rule card_subset_eq)
  show "card (set ps) = card (set (conf_addresses conf))"
    using assms by (simp add: sound_addresses_def distinct_card) (simp add: conf_addresses_def)
qed (use assms(3) in simp_all)

lemma healing_join:
  assumes h: "healing view m s" and conf: "sound_addresses (co_conf s)"
    and a: "addr \<in> set (conf_addresses (co_conf s))" "addr \<notin> set (co_participants s)"
    and j: "joined addr p s s'" and ag: "in_agreement view s' m"
  shows "healing view m s' \<and> co_conf s' = co_conf s \<and> co_next_id s' = co_next_id s
    \<and> set (co_participants s') = insert addr (set (co_participants s))"
proof -
  note js = j [unfolded joined_def]
  have ps: "set (co_participants s') = insert addr (set (co_participants s))" using js by simp
  have sub: "set (co_participants s') \<subseteq> set (conf_addresses (co_conf s))"
    using h a(1) ps by (auto simp: healing_def)
  have "curable view m s' b" if b: "b \<in> set (conf_addresses (co_conf s)) - set (co_participants s')" for b
  proof -
    have del: "co_del_keys s' = co_del_keys s"
    proof (rule ccontr)
      assume "co_del_keys s' \<noteq> co_del_keys s"
      then have "length (co_participants s') = length (participant_addrs (co_conf s))" using js by auto
      with complete_map [OF conf _ sub] ag b show False by (auto simp: in_agreement_def)
    qed
    have "b \<noteq> addr" "b \<notin> set (co_participants s)" using b ps by auto
    with h b have "curable view m s b" by (simp add: healing_def)
    with \<open>b \<noteq> addr\<close> del js show ?thesis by (auto simp: curable_def node_synced_def)
  qed
  moreover have "co_participants s' \<noteq> []" using ps by (cases "co_participants s'") auto
  ultimately show ?thesis using h ag js sub ps by (simp add: healing_def)
qed

lemma healing_heartbeat:
  assumes st: "leveldb_store ldb view" and sm: "small_store m" and conf: "sound_addresses (co_conf s)"
    and h: "healing view m s" and a: "addr \<in> set (conf_addresses (co_conf s))"
  shows "\<exists>s'. heartbeat_participant (cluster_call ldb be) addr s = Inr s' \<and> healing view m s'
    \<and> co_conf s' = co_conf s \<and> co_next_id s' = co_next_id s
    \<and> set (co_participants s') = insert addr (set (co_participants s))"
proof (cases "addr \<in> set (co_participants s)")
  case True
  then obtain p where p: "cl_nodes (co_world s) addr = Some p"
    using h by (auto simp: healing_def in_agreement_def node_synced_def)
  have same: "node_synced view (co_world (after_call addr req res p s)) b = node_synced view (co_world s) b"
    for req res b
    using p by (auto simp: node_synced_def fun_eq_iff)
  have "healing view m (after_call addr Rpc_HEARTBEAT Res_Unit p s)"
    using h by (simp add: healing_def in_agreement_def curable_def same)
  moreover have "insert addr (set (co_participants s)) = set (co_participants s)" using True by auto
  ultimately show ?thesis using known_heartbeat [OF _ True p] h by (simp add: healing_def)
next
  case False
  have hs: "in_agreement view s m" "quiet (co_world s)" "co_recovered s" "rm_records (co_log s) = []"
    "co_participants s \<noteq> []" using h by (simp_all add: healing_def)
  have "curable view m s addr" using h a False by (simp add: healing_def)
  then obtain n ma where na: "node_synced view (co_world s) addr n ma"
    "dom ma \<subseteq> dom m \<union> set (co_del_keys s)" "n = co_next_id s \<longrightarrow> ma = m"
    by (auto simp: curable_def)
  from absent_heartbeat [OF st sm hs(1-5) False na] obtain s' p' where
    s': "heartbeat_participant (cluster_call ldb be) addr s = Inr s'" "joined addr p' s s'" "in_agreement view s' m" by blast
  from healing_join [OF h conf a False s'(2,3)] s'(1) show ?thesis by blast
qed

lemma healing_round:
  assumes st: "leveldb_store ldb view" and sm: "small_store m"
  shows "sound_addresses (co_conf s) \<Longrightarrow> healing view m s \<Longrightarrow> set as \<subseteq> set (conf_addresses (co_conf s)) \<Longrightarrow>
    \<exists>s'. heartbeat_round (cluster_call ldb be) as s = Inr s' \<and> healing view m s' \<and> co_conf s' = co_conf s
      \<and> co_next_id s' = co_next_id s \<and> set (co_participants s') = set as \<union> set (co_participants s)"
proof (induction as arbitrary: s)
  case (Cons a as)
  from healing_heartbeat [OF st sm Cons.prems(1,2), of a be] Cons.prems(3) obtain s1 where
    s1: "heartbeat_participant (cluster_call ldb be) a s = Inr s1" "healing view m s1" "co_conf s1 = co_conf s"
      "co_next_id s1 = co_next_id s" "set (co_participants s1) = insert a (set (co_participants s))" by auto
  with Cons.IH [of s1] Cons.prems show ?case by auto
qed simp

section \<open>Starting on a log without unfinished requests\<close>

text \<open>The participants found at the coordinator's id are kept, the others dropped.\<close>

definition at_id :: "'db cluster \<Rightarrow> u32 \<Rightarrow> string \<Rightarrow> bool" where
  "at_id w i a \<longleftrightarrow> (case cl_nodes w a of None \<Rightarrow> False | Some p \<Rightarrow> pt_next_id p = i)"

text \<open>What \<open>init_participants\<close> does not touch on a quiet network.\<close>

definition same_system :: "'db cluster coordinator \<Rightarrow> 'db cluster coordinator \<Rightarrow> bool" where
  "same_system s s' \<longleftrightarrow>
     cl_nodes (co_world s') = cl_nodes (co_world s) \<and> quiet (co_world s') = quiet (co_world s)
     \<and> co_conf s' = co_conf s \<and> co_log s' = co_log s \<and> co_next_id s' = co_next_id s
     \<and> co_recovered s' = co_recovered s \<and> co_del_keys s' = co_del_keys s"

lemma distinct_os_put: "distinct xs \<Longrightarrow> distinct (os_put x xs)"
  by (auto simp: os_put_def)

lemma quiet_init:
  assumes q: "quiet (co_world s)" and r: "co_recovered s" and nu: "rm_records (co_log s) = []"
    and a: "a \<notin> set (co_participants s)" and d: "distinct (co_participants s)"
    and s': "s' = init_participant (cluster_call ldb be) a s"
  shows "same_system s s' \<and> distinct (co_participants s')
    \<and> set (co_participants s') = (if at_id (co_world s) (co_next_id s) a then {a} else {}) \<union> set (co_participants s)"
proof (cases "cl_nodes (co_world s) a")
  case None
  then have "s' = drop_participant a (emit (Ev_Call a Rpc_NEXT_ID None) (add_participant a s))"
    using q s' by (simp add: init_participant_def rpc_call_def cluster_call_def next_fault_def quiet_def
        deliver_def add_participant_def as_u32_def Let_def)
  with None a d show ?thesis
    by (auto simp: same_system_def at_id_def drop_participant_def add_participant_def emit_def os_erase_def
        distinct_os_put)
next
  case (Some p)
  let ?s1 = "add_participant a s"
  let ?s2 = "after_call a Rpc_NEXT_ID (Res_U32 (pt_next_id p)) p ?s1"
  have "serve ldb be Rpc_NEXT_ID p = Inr (Res_U32 (pt_next_id p), p)"
    by (simp add: respond_Inr next_id_handler_def)
  with Some q have "rpc_call (cluster_call ldb be) a Rpc_NEXT_ID ?s1 = (Some (Res_U32 (pt_next_id p)), ?s2)"
    by (intro quiet_rpc) (simp_all add: add_participant_def)
  then have "s' = (if pt_next_id p = co_next_id s then ?s2 else drop_participant a ?s2)"
    using s' r nu by (auto simp: init_participant_def as_u32_def record_is_def add_participant_def Let_def)
  with Some a d show ?thesis
    by (auto simp: same_system_def at_id_def drop_participant_def add_participant_def os_erase_def
        distinct_os_put fun_eq_iff)
qed

lemma quiet_init_all:
  "quiet (co_world s) \<Longrightarrow> co_recovered s \<Longrightarrow> rm_records (co_log s) = [] \<Longrightarrow> distinct (co_participants s) \<Longrightarrow>
   distinct as \<Longrightarrow> set as \<inter> set (co_participants s) = {} \<Longrightarrow> s' = fold (init_participant (cluster_call ldb be)) as s \<Longrightarrow>
   same_system s s' \<and> distinct (co_participants s')
    \<and> set (co_participants s') = {a \<in> set as. at_id (co_world s) (co_next_id s) a} \<union> set (co_participants s)"
proof (induction as arbitrary: s)
  case (Cons a as)
  let ?s1 = "init_participant (cluster_call ldb be) a s"
  from quiet_init [OF Cons.prems(1-3) _ Cons.prems(4) refl, of a ldb be] Cons.prems(6)
  have s1: "same_system s ?s1" "distinct (co_participants ?s1)"
    "set (co_participants ?s1) = (if at_id (co_world s) (co_next_id s) a then {a} else {}) \<union> set (co_participants s)"
    by auto
  have "same_system ?s1 s' \<and> distinct (co_participants s')
    \<and> set (co_participants s') = {b \<in> set as. at_id (co_world ?s1) (co_next_id ?s1) b} \<union> set (co_participants ?s1)"
    using Cons.prems s1 by (intro Cons.IH) (auto simp: same_system_def split: if_splits)
  moreover have "at_id (co_world ?s1) (co_next_id ?s1) = at_id (co_world s) (co_next_id s)"
    using s1(1) by (simp add: same_system_def at_id_def fun_eq_iff)
  ultimately show ?case using s1 by (auto simp: same_system_def)
qed (simp add: same_system_def)

lemma conf_addresses_move [simp]: "conf_addresses (move_coordinator_configuration conf) = conf_addresses conf"
  by (simp add: conf_addresses_def move_coordinator_configuration_def new_coordinator_configuration_def)

lemma idle_start:
  assumes "rm_records lg = []" "rm_next_id lg = i" "i \<noteq> 0" "\<not> n_running net" "quiet w"
    "distinct (conf_addresses conf)"
  shows "\<exists>s. start_coordinator (cluster_call ldb be) rnd (new_coordinator conf lg net w) = Inr s
    \<and> co_conf s = move_coordinator_configuration conf \<and> cl_nodes (co_world s) = cl_nodes w \<and> quiet (co_world s)
    \<and> co_recovered s \<and> co_log s = lg \<and> co_next_id s = i \<and> co_del_keys s = [] \<and> distinct (co_participants s)
    \<and> set (co_participants s) = {a \<in> set (conf_addresses conf). at_id w i a}"
proof -
  let ?call = "cluster_call ldb be"
  obtain net' where net': "server_start net = Inr net'" using assms(4) by (simp add: server_start_def)
  let ?s = "(new_coordinator conf lg net w)\<lparr>co_started := True, co_net := net', co_next_id := i\<rparr>"
  have start: "start_coordinator ?call rnd (new_coordinator conf lg net w) =
      handle_unfinished_records ?call (init_participants ?call ?s)"
    using net' assms(2,3) by (simp add: start_coordinator_def recovery_def new_coordinator_def Let_def)
  have "same_system ?s (init_participants ?call ?s) \<and> distinct (co_participants (init_participants ?call ?s))
    \<and> set (co_participants (init_participants ?call ?s)) =
       {a \<in> set (conf_addresses conf). at_id (co_world ?s) (co_next_id ?s) a} \<union> set (co_participants ?s)"
    using assms by (intro quiet_init_all) (simp_all add: init_participants_def new_coordinator_def)
  with assms(1,5) start show ?thesis
    by (simp add: same_system_def handle_unfinished_records_def new_coordinator_def)
qed

lemma conf_addresses_move_sound [simp]:
  "sound_addresses (move_coordinator_configuration conf) = sound_addresses conf"
  by (simp add: sound_addresses_def)
    (simp add: move_coordinator_configuration_def new_coordinator_configuration_def)

section \<open>Properties\<close>

text \<open>C8: once calls stop failing, one pass of the heartbeat brings the system back to full
  strength. The coordinator has been recovered or has readmitted a participant before
  (\<open>co_recovered\<close>) and its log has no unfinished record; at least one participant is left in the
  map, and those in the map agree; every other one is up, has no request queued, stores no key
  but those of the common store and those noted as deleted, and has the common store if it is at
  the coordinator's next id. Then all of them are back in the map, with the common store and the
  coordinator's next id. Without \<open>co_recovered\<close> this is false
  (\<open>fresh_coordinator_readmits_stale_store\<close>), and a participant that comes back with a queued request
  fails at the next COMMIT (\<open>stale_request_blocks_recovered_node\<close>).\<close>

theorem heartbeat_pass_heals:
  assumes "leveldb_store ldb view" "small_store m" "sound_addresses (co_conf s)" "healing view m s"
  shows "\<exists>s'. heartbeat_round (cluster_call ldb be) (conf_addresses (co_conf s)) s = Inr s'
    \<and> in_agreement view s' m \<and> set (co_participants s') = set (conf_addresses (co_conf s))
    \<and> co_next_id s' = co_next_id s"
proof -
  from healing_round [OF assms subset_refl] obtain s' where
    s': "heartbeat_round (cluster_call ldb be) (conf_addresses (co_conf s)) s = Inr s'" "healing view m s'"
      "co_next_id s' = co_next_id s"
      "set (co_participants s') = set (conf_addresses (co_conf s)) \<union> set (co_participants s)" by blast
  moreover have "set (co_participants s) \<subseteq> set (conf_addresses (co_conf s))" using assms(4) by (simp add: healing_def)
  ultimately show ?thesis by (auto simp: healing_def)
qed

lemma sample_addresses: "conf_addresses (co_conf (sample_system fs)) = [''a:1'', ''b:1'']"
proof -
  have "to_string (1 :: nat) = ''1''" by code_simp
  then show ?thesis by (simp add: conf_addresses_def sample_system_def new_coordinator_configuration_def)
qed

lemma sample_sound: "sound_addresses (co_conf (sample_system fs))"
  by (simp add: sound_addresses_def sample_addresses) (simp add: sample_system_def)

theorem heartbeat_pass_heals_witness:
  "\<exists>s'. heartbeat_round (cluster_call memtable False) [''a:1'', ''b:1'']
      ((sample_system [])\<lparr>co_participants := [''a:1''], co_next_id := 2, co_del_keys := [''k''],
        co_world := \<lparr>cl_nodes = [''a:1'' \<mapsto> idle_node\<lparr>pt_next_id := 2\<rparr>, ''b:1'' \<mapsto> idle_node\<lparr>pt_db := [(''k'', ''v'')]\<rparr>],
                     cl_faults = []\<rparr>\<rparr>)
      = Inr s' \<and> in_agreement map_of s' Map.empty \<and> set (co_participants s') = {''a:1'', ''b:1''}"
proof -
  let ?s = "(sample_system [])\<lparr>co_participants := [''a:1''], co_next_id := 2, co_del_keys := [''k''],
        co_world := \<lparr>cl_nodes = [''a:1'' \<mapsto> idle_node\<lparr>pt_next_id := 2\<rparr>, ''b:1'' \<mapsto> idle_node\<lparr>pt_db := [(''k'', ''v'')]\<rparr>],
                     cl_faults = []\<rparr>\<rparr>"
  have conf: "co_conf ?s = co_conf (sample_system [])" by simp
  have "curable map_of Map.empty ?s ''b:1''"
    unfolding curable_def
    by (rule exI [of _ 1], rule exI [of _ "[''k'' \<mapsto> ''v'']"]) (simp add: node_synced_def idle_node_def)
  moreover have "in_agreement map_of ?s Map.empty"
    by (simp add: in_agreement_def node_synced_def idle_node_def)
  ultimately have "healing map_of Map.empty ?s"
    unfolding healing_def conf sample_addresses by (simp add: quiet_def) (simp add: sample_system_def fresh_log_def)
  from heartbeat_pass_heals [OF mem.leveldb_store_axioms _ _ this, of False] show ?thesis
    unfolding conf sample_addresses
    by (simp add: sample_sound small_store_def Map.graph_def del: heartbeat_round.simps) blast
qed

text \<open>C9: a coordinator that is stopped while no request is under way can be restarted on a quiet
  network where every participant is up and has no request queued: on the log
  it left it takes over the participants that kept up, and one pass of the heartbeat brings
  back the others, provided at least one kept up, at the log's id with the common store, and
  none of the others missed a deletion. Without the first no participant is ever taken back;
  without the second the deleted key comes back (\<open>restart_resurrects_deleted_key\<close>).\<close>

theorem idle_restart_recovers:
  assumes "leveldb_store ldb view" "small_store m" "sound_addresses conf" "rm_records lg = []"
    "rm_next_id lg = i" "i \<noteq> 0" "\<not> n_running net" "quiet w"
    "\<forall>a \<in> set (conf_addresses conf). \<exists>n ma. node_synced view w a n ma \<and> dom ma \<subseteq> dom m \<and> (n = i \<longrightarrow> ma = m)"
    "\<exists>a \<in> set (conf_addresses conf). at_id w i a"
  shows "\<exists>s s'. start_coordinator (cluster_call ldb be) rnd (new_coordinator conf lg net w) = Inr s
    \<and> heartbeat_round (cluster_call ldb be) (conf_addresses conf) s = Inr s'
    \<and> in_agreement view s' m \<and> set (co_participants s') = set (conf_addresses conf) \<and> co_next_id s' = i"
proof -
  have "distinct (conf_addresses conf)" using assms(3) by (simp add: sound_addresses_def)
  from idle_start [OF assms(4-8) this, of ldb be rnd] obtain s where
    s: "start_coordinator (cluster_call ldb be) rnd (new_coordinator conf lg net w) = Inr s"
      "co_conf s = move_coordinator_configuration conf" "cl_nodes (co_world s) = cl_nodes w" "quiet (co_world s)"
      "co_recovered s" "co_log s = lg" "co_next_id s = i" "distinct (co_participants s)"
      "set (co_participants s) = {a \<in> set (conf_addresses conf). at_id w i a}" by blast
  have same: "node_synced view (co_world s) = node_synced view w"
    using s(3) by (simp add: node_synced_def fun_eq_iff)
  have cur: "curable view m s a" if "a \<in> set (conf_addresses conf)" for a
  proof -
    from assms(9) that obtain n ma where "node_synced view w a n ma" "dom ma \<subseteq> dom m" "n = i \<longrightarrow> ma = m" by blast
    with s(7) same show ?thesis unfolding curable_def by (intro exI [of _ n] exI [of _ ma]) auto
  qed
  have "node_synced view w a i m" if "a \<in> set (co_participants s)" for a
    using assms(9) that s(9) by (force simp: at_id_def node_synced_def split: option.splits)
  then have "in_agreement view s m" using s(7,8) same by (simp add: in_agreement_def)
  moreover have "co_participants s \<noteq> []" using s(9) assms(10) by force
  ultimately have "healing view m s"
    using s cur assms(4) by (auto simp: healing_def)
  from healing_round [OF assms(1,2) _ this, of "conf_addresses conf" be] s assms(3) obtain s' where
    s': "heartbeat_round (cluster_call ldb be) (conf_addresses conf) s = Inr s'" "healing view m s'" "co_next_id s' = i"
      "set (co_participants s') = set (conf_addresses conf) \<union> set (co_participants s)" by auto
  with s(1,9) show ?thesis by (auto simp: healing_def)
qed

theorem idle_restart_recovers_witness:
  "\<exists>s s'. start_coordinator (cluster_call memtable False) 0
       (new_coordinator (co_conf (sample_system [])) (fresh_log\<lparr>rm_next_id := 2\<rparr>) (sample_net\<lparr>n_running := False\<rparr>)
          \<lparr>cl_nodes = [''a:1'' \<mapsto> idle_node\<lparr>pt_next_id := 2, pt_db := [(''k'', ''v'')]\<rparr>, ''b:1'' \<mapsto> idle_node], cl_faults = []\<rparr>)
       = Inr s
    \<and> heartbeat_round (cluster_call memtable False) [''a:1'', ''b:1''] s = Inr s'
    \<and> in_agreement map_of s' [''k'' \<mapsto> ''v''] \<and> set (co_participants s') = {''a:1'', ''b:1''}"
proof -
  let ?conf = "co_conf (sample_system [])" and ?lg = "fresh_log\<lparr>rm_next_id := 2\<rparr>" and ?m = "[''k'' \<mapsto> ''v'']"
  let ?w = "\<lparr>cl_nodes = [''a:1'' \<mapsto> idle_node\<lparr>pt_next_id := 2, pt_db := [(''k'', ''v'')]\<rparr>, ''b:1'' \<mapsto> idle_node], cl_faults = []\<rparr>"
  have sm: "small_store ?m" by (simp add: small_store_def Map.graph_def pair_small_def)
  have lg: "rm_records ?lg = []" "rm_next_id ?lg = 2" "\<not> n_running (sample_net\<lparr>n_running := False\<rparr>)" "quiet ?w"
    by (simp_all add: fresh_log_def quiet_def)
  have nodes: "\<forall>a \<in> set (conf_addresses ?conf). \<exists>n ma. node_synced map_of ?w a n ma \<and> dom ma \<subseteq> dom ?m \<and> (n = 2 \<longrightarrow> ma = ?m)"
    by (simp add: sample_addresses node_synced_def idle_node_def)
  have up: "\<exists>a \<in> set (conf_addresses ?conf). at_id ?w 2 a"
    by (simp add: sample_addresses at_id_def)
  have "(2 :: u32) \<noteq> 0" by simp
  from idle_restart_recovers [OF mem.leveldb_store_axioms sm sample_sound lg(1,2) this lg(3,4) nodes up, of False 0]
  show ?thesis unfolding sample_addresses by auto
qed

end
