(* ===== verification/Absence.thy ===== *)
theory Absence
  imports Healing
begin

text \<open>
  A participant that is lost between two requests and comes back later: while it is away the
  coordinator leaves it alone and notes what the others delete, so that the next heartbeat
  gives it the store the others have by then.
\<close>

section \<open>What a request leaves as it is\<close>

definition elsewhere :: "string \<Rightarrow> 'db cluster coordinator \<Rightarrow> 'db cluster coordinator \<Rightarrow> bool" where
  "elsewhere a s s' \<longleftrightarrow>
     cl_nodes (co_world s') a = cl_nodes (co_world s) a
     \<and> set (co_participants s') \<subseteq> set (co_participants s)
     \<and> (distinct (co_participants s) \<longrightarrow> distinct (co_participants s'))
     \<and> co_conf s' = co_conf s \<and> co_recovered s' = co_recovered s"

text \<open>Calling the participants also leaves the log, the noted keys and the next id.\<close>

definition only_calls :: "string \<Rightarrow> 'db cluster coordinator \<Rightarrow> 'db cluster coordinator \<Rightarrow> bool" where
  "only_calls a s s' \<longleftrightarrow>
     elsewhere a s s' \<and> co_log s' = co_log s \<and> co_del_keys s' = co_del_keys s \<and> co_next_id s' = co_next_id s"

lemma only_calls_refl: "only_calls a s s"
  by (simp add: only_calls_def elsewhere_def)

lemma only_calls_trans: "only_calls a s t \<Longrightarrow> only_calls a t u \<Longrightarrow> only_calls a s u"
  unfolding only_calls_def elsewhere_def by (intro conjI; simp; blast)

lemma only_calls_drop: "only_calls a s t \<Longrightarrow> only_calls a s (drop_participant b t)"
  by (auto simp: only_calls_def elsewhere_def drop_participant_def os_erase_def)

lemma only_calls_send: "only_calls a s (send_result cl x cb t) = only_calls a s t"
  by (auto simp: only_calls_def elsewhere_def send_result_def split: sum.splits)

lemma only_calls_rpc:
  assumes "rpc_call (cluster_call ldb be) b req s = (res, s1)" "b \<noteq> a"
  shows "only_calls a s s1" "only_calls a s (drop_participant b s1)"
proof -
  obtain w where w: "cluster_call ldb be (co_world s) b req = (w, res)"
      "s1 = emit (Ev_Call b req res) (s\<lparr>co_world := w\<rparr>)"
    using assms(1) by (auto simp: rpc_call_def split: prod.splits)
  from cluster_call_frame [OF w(1), of a] assms(2) show "only_calls a s s1"
    by (auto simp: w(2) only_calls_def elsewhere_def emit_def)
  then show "only_calls a s (drop_participant b s1)" by (rule only_calls_drop)
qed

lemma prepare_loop_calls:
  "prepare_loop (cluster_call ldb be) req as dead s = (ok, d, s') \<Longrightarrow> a \<notin> set as \<Longrightarrow> only_calls a s s'"
proof (induction as arbitrary: dead s)
  case (Cons b as)
  obtain res s1 where r: "rpc_call (cluster_call ldb be) b req s = (res, s1)" by fastforce
  have "b \<noteq> a" "a \<notin> set as" using Cons.prems(2) by auto
  with Cons.IH [of True "drop_participant b s1"] Cons.IH [of dead s1] Cons.prems(1) r only_calls_rpc [OF r]
  show ?case by (auto split: option.splits if_splits intro: only_calls_trans)
qed (simp add: only_calls_refl)

lemma commit_loop_calls:
  "commit_loop (cluster_call ldb be) i as ret dead s = (x, d, s') \<Longrightarrow> a \<notin> set as \<Longrightarrow> only_calls a s s'"
proof (induction as arbitrary: ret dead s)
  case (Cons b as)
  obtain res s1 where r: "rpc_call (cluster_call ldb be) b (Rpc_COMMIT i) s = (res, s1)" by fastforce
  have "b \<noteq> a" "a \<notin> set as" using Cons.prems(2) by auto
  with Cons.IH [of ret True "drop_participant b s1"] Cons.IH [of _ dead s1] Cons.prems(1) r only_calls_rpc [OF r]
  show ?case by (auto split: option.splits if_splits intro: only_calls_trans)
qed (simp add: only_calls_refl)

lemma get_loop_calls:
  "get_loop (cluster_call ldb be) cl c as dead s = (d, s') \<Longrightarrow> a \<notin> set as \<Longrightarrow> only_calls a s s'"
proof (induction as arbitrary: dead s)
  case (Cons b as)
  obtain res s1 where r: "rpc_call (cluster_call ldb be) b (Rpc_GET c) s = (res, s1)" by fastforce
  have "b \<noteq> a" "a \<notin> set as" using Cons.prems(2) by auto
  with Cons.IH [of True "drop_participant b s1"] Cons.prems(1) r only_calls_rpc [OF r]
  show ?case by (auto simp: only_calls_send split: option.splits intro: only_calls_trans)
qed (auto simp: only_calls_refl only_calls_send send_error_def)

section \<open>A request while a participant is away\<close>

text \<open>
  Participant \<open>a\<close> is away, idle at id \<open>n\<close> with store \<open>ma\<close>, of which it has to forget only what
  is noted; the others agree on \<open>m\<close>.
\<close>

definition away :: "('db \<Rightarrow> store) \<Rightarrow> string \<Rightarrow> u32 \<Rightarrow> store \<Rightarrow> store \<Rightarrow> 'db cluster coordinator \<Rightarrow> bool" where
  "away view a n ma m s \<longleftrightarrow>
     in_agreement view s m \<and> co_recovered s \<and> rm_records (co_log s) = []
     \<and> set (co_participants s) \<subseteq> set (conf_addresses (co_conf s)) - {a}
     \<and> a \<in> set (conf_addresses (co_conf s))
     \<and> node_synced view (co_world s) a n ma \<and> dom ma \<subseteq> dom m \<union> set (co_del_keys s)"

text \<open>With one participant away the map is not complete, so deleted keys are noted.\<close>

lemma map_incomplete:
  assumes "sound_addresses conf" "distinct ps" "set ps \<subseteq> set (conf_addresses conf) - {a}"
    "a \<in> set (conf_addresses conf)"
  shows "length ps < length (participant_addrs conf)"
proof -
  have "card (set ps) < card (set (conf_addresses conf))"
    using assms(3,4) by (intro psubset_card_mono) auto
  then show ?thesis
    using assms(1,2) by (simp add: sound_addresses_def distinct_card) (simp add: conf_addresses_def)
qed

text \<open>The log of an update: unresolved, commit, and done as soon as a participant is left.\<close>

lemma log_of_update:
  assumes "rm_records lg = []"
  shows "rm_records (rm_log (make_record RECORD_COMMIT_DONE i n) (rm_log (make_record RECORD_COMMIT i n)
    (rm_log (make_record RECORD_UNRESOLVED i n) lg))) = []"
  using assms by (simp add: rm_log_def make_record_def is_done_status_def record_statuses om_put_def om_erase_def)

lemma log_status_sel [simp]:
  "co_log (log_status st i s) = rm_log (make_record st i (co_next_id s)) (co_log s)"
  "co_world (log_status st i s) = co_world s" "co_conf (log_status st i s) = co_conf s"
  "co_recovered (log_status st i s) = co_recovered s" "co_del_keys (log_status st i s) = co_del_keys s"
  "co_participants (log_status st i s) = co_participants s" "co_next_id (log_status st i s) = co_next_id s"
  by (simp_all add: log_status_def emit_def Let_def)

text \<open>An update that prepares, and commits with a participant left.\<close>

lemma update_elsewhere:
  assumes st: "start_update (cluster_call ldb be) mk c0 s = (ok, d, cmd, s1)"
    and cr: "commit_db_request (cluster_call ldb be) (Some cl) (cmd_id cmd) d s1 = (d2, s2)"
    and a: "a \<notin> set (co_participants s)" and nu: "rm_records (co_log s) = []"
    and ne: "co_participants s2 \<noteq> []"
  shows "elsewhere a s s2 \<and> rm_records (co_log s2) = [] \<and> co_next_id s2 = co_next_id s + 1
    \<and> co_del_keys s2 = co_del_keys s"
proof -
  let ?call = "cluster_call ldb be" and ?i = "cmd_id cmd"
  let ?t = "log_status RECORD_UNRESOLVED ?i (take_id s)"
  have "prepare_loop ?call (mk cmd) (co_participants s) False ?t = (ok, d, s1)"
    using st by (auto simp: start_update_def take_id_def Let_def split: prod.splits)
  from prepare_loop_calls [OF this a] have p: "only_calls a ?t s1" .
  obtain ret d3 s3 where l: "commit_loop ?call ?i (co_participants s1) [] d (log_status RECORD_COMMIT ?i s1) = (ret, d3, s3)"
    by (metis prod_cases3)
  have "a \<notin> set (co_participants s1)" using p a by (auto simp: only_calls_def elsewhere_def take_id_def)
  from commit_loop_calls [OF l this] have c: "only_calls a (log_status RECORD_COMMIT ?i s1) s3" .
  have s2: "s2 = send_result cl ret False (if co_participants s3 \<noteq> [] then log_status RECORD_COMMIT_DONE ?i s3 else s3)"
    using cr l by (auto simp: commit_db_request_def Let_def)
  have send: "co_participants (send_result cl ret False t) = co_participants t"
    "co_world (send_result cl ret False t) = co_world t" "co_conf (send_result cl ret False t) = co_conf t"
    "co_recovered (send_result cl ret False t) = co_recovered t" "co_log (send_result cl ret False t) = co_log t"
    "co_del_keys (send_result cl ret False t) = co_del_keys t" "co_next_id (send_result cl ret False t) = co_next_id t"
    for t :: "'a cluster coordinator"
    by (auto simp: send_result_def split: sum.splits)
  have "co_participants s3 \<noteq> []" using ne s2 by (auto simp: send split: if_splits)
  with p c log_of_update [OF nu, of ?i] show ?thesis
    unfolding s2 by (auto simp: only_calls_def elsewhere_def send take_id_def)
qed

lemma notify_remember_sel [simp]:
  "co_participants (notify_if d s) = co_participants s" "co_world (notify_if d s) = co_world s"
  "co_conf (notify_if d s) = co_conf s" "co_recovered (notify_if d s) = co_recovered s"
  "co_log (notify_if d s) = co_log s" "co_del_keys (notify_if d s) = co_del_keys s"
  "co_next_id (notify_if d s) = co_next_id s"
  "co_participants (remember_deleted c s) = co_participants s" "co_world (remember_deleted c s) = co_world s"
  "co_conf (remember_deleted c s) = co_conf s" "co_recovered (remember_deleted c s) = co_recovered s"
  "co_log (remember_deleted c s) = co_log s" "co_next_id (remember_deleted c s) = co_next_id s"
  by (simp_all add: notify_if_def emit_def remember_deleted_def)

lemma set_fold_os_put: "set (fold os_put ks xs) = set ks \<union> set xs"
  by (induction ks arbitrary: xs) auto

text \<open>The keys a command takes out of the store are noted.\<close>

definition remembers :: "command \<Rightarrow> 'db cluster coordinator \<Rightarrow> 'db cluster coordinator \<Rightarrow> bool" where
  "remembers c s s' \<longleftrightarrow> (\<forall>m. dom m \<union> set (co_del_keys s) \<subseteq> dom (fst (apply_command c m)) \<union> set (co_del_keys s'))"

lemma dispatch_elsewhere:
  assumes st: "leveldb_store ldb view" and ag: "in_agreement view s m"
    and a: "a \<notin> set (co_participants s)" and nu: "rm_records (co_log s) = []"
    and few: "length (co_participants s) < length (participant_addrs (co_conf s))"
    and s': "s' = dispatch_request (cluster_call ldb be) cl c s" and ne: "co_participants s' \<noteq> []"
  shows "elsewhere a s s' \<and> rm_records (co_log s') = [] \<and> remembers c s s'
    \<and> co_next_id s' = co_next_id s + (if is_update c then 1 else 0)"
proof -
  let ?call = "cluster_call ldb be"
  note loc = cluster_rpc_participants [OF st, of be]
  have rep: "rpc_participants.replicas (node_synced view) s m" using ag by (simp add: agreement_replicas [OF st])
  have send: "co_participants (send_error cl t) = co_participants t" for t :: "'a cluster coordinator"
    by (auto simp: send_error_def send_result_def split: sum.splits)
  have ne0: "co_participants s \<noteq> []"
    using ne s' request_without_participants [of s ?call cl c] send by auto
  show ?thesis
  proof (cases c)
    case (Get_Command k)
    obtain d s1 where g: "get_loop ?call cl c (co_participants s) False s = (d, s1)" by fastforce
    have "s' = notify_if d s1" using s' g ne0 Get_Command
      by (simp add: dispatch_request_def handle_db_get_request_def cmd_tags)
    with get_loop_calls [OF g a] nu Get_Command show ?thesis
      by (auto simp: only_calls_def elsewhere_def remembers_def)
  next
    case (Set_Command i k v)
    obtain ok d cmd s1 where su: "start_update ?call Rpc_PREPARE_SET c s = (ok, d, cmd, s1)"
      by (metis prod_cases4)
    obtain d2 s2 where cr: "commit_db_request ?call (Some cl) (cmd_id cmd) d s1 = (d2, s2)" by fastforce
    have ok using rpc_participants.update_prepared_ok [OF loc rep _ _ su] Set_Command
      by (simp add: prepare_request_def)
    then have eq: "s' = notify_if d2 s2"
      using s' su cr ne0 ne Set_Command send
      by (auto simp: dispatch_request_def handle_db_set_request_def cmd_tags Let_def split: if_splits)
    with ne have "co_participants s2 \<noteq> []" by simp
    from update_elsewhere [OF su cr a nu this] eq Set_Command show ?thesis
      by (auto simp: elsewhere_def remembers_def)
  next
    case (Del_Command i ks)
    obtain ok d cmd s1 where su: "start_update ?call Rpc_PREPARE_DEL c s = (ok, d, cmd, s1)"
      by (metis prod_cases4)
    obtain d2 s2 where cr: "commit_db_request ?call (Some cl) (cmd_id cmd) d s1 = (d2, s2)" by fastforce
    have ok using rpc_participants.update_prepared_ok [OF loc rep _ _ su] Del_Command
      by (simp add: prepare_request_def cmd_tags)
    have cmd: "args cmd = ks" using su Del_Command by (auto simp: start_update_def Let_def split: prod.splits)
    from \<open>ok\<close> have eq: "s' = notify_if d2 (remember_deleted cmd s2)"
      using s' su cr ne0 ne Del_Command send
      by (auto simp: dispatch_request_def handle_db_del_request_def cmd_tags Let_def split: if_splits)
    with ne have "co_participants s2 \<noteq> []" by simp
    note e = update_elsewhere [OF su cr a nu this]
    have "length (co_participants s2) < length (participant_addrs (co_conf s2))"
    proof -
      have "distinct (co_participants s)" using ag by (simp add: in_agreement_def)
      with e have "card (set (co_participants s2)) \<le> card (set (co_participants s))"
        "distinct (co_participants s2)"
        by (auto simp: elsewhere_def intro: card_mono)
      with few e \<open>distinct (co_participants s)\<close> show ?thesis by (simp add: distinct_card elsewhere_def)
    qed
    then have "set (co_del_keys s') = set ks \<union> set (co_del_keys s)"
      using eq cmd e by (simp add: remember_deleted_def set_fold_os_put)
    with e eq Del_Command show ?thesis
      by (auto simp: elsewhere_def remembers_def)
  qed
qed

lemma away_request:
  assumes st: "leveldb_store ldb view" and conf: "sound_addresses (co_conf s)" and aw: "away view a n ma m s"
    and s': "s' = dispatch_request (cluster_call ldb be) cl c s" and ne: "co_participants s' \<noteq> []"
  shows "away view a n ma (fst (apply_command c m)) s' \<and> co_conf s' = co_conf s
    \<and> co_next_id s' = co_next_id s + (if is_update c then 1 else 0)"
proof -
  have ag: "in_agreement view s m" and a: "a \<notin> set (co_participants s)" and nu: "rm_records (co_log s) = []"
    using aw by (auto simp: away_def)
  have few: "length (co_participants s) < length (participant_addrs (co_conf s))"
    using aw ag by (intro map_incomplete [OF conf, of _ a]) (auto simp: away_def in_agreement_def)
  note e = dispatch_elsewhere [OF st ag a nu few s' ne]
  note loc = cluster_rpc_participants [OF st, of be]
  have "in_agreement view s' (fst (apply_command c m))"
    using rpc_participants.served_dispatch [OF loc, of s m cl c] ag s'
    by (simp add: rpc_participants.served_def [OF loc] agreement_replicas [OF st])
  moreover have "dom m \<union> set (co_del_keys s) \<subseteq> dom (fst (apply_command c m)) \<union> set (co_del_keys s')"
    using e unfolding remembers_def by blast
  ultimately show ?thesis
    using e aw unfolding away_def elsewhere_def node_synced_def by (intro conjI; simp; blast)
qed

text \<open>Requests of any clients, one after the other.\<close>

definition serve_requests :: "'w rpc \<Rightarrow> (nat \<times> command) list \<Rightarrow> 'w coordinator \<Rightarrow> 'w coordinator" where
  "serve_requests call rs = fold (\<lambda>(cl, c). dispatch_request call cl c) rs"

definition final_store :: "(nat \<times> command) list \<Rightarrow> store \<Rightarrow> store" where
  "final_store rs = fold (\<lambda>(cl, c) m. fst (apply_command c m)) rs"

definition updates :: "(nat \<times> command) list \<Rightarrow> nat" where
  "updates rs = length (filter (is_update \<circ> snd) rs)"

lemma serve_without_participants:
  "co_participants s = [] \<Longrightarrow> co_participants (serve_requests call rs s) = []"
proof (induction rs arbitrary: s)
  case (Cons r rs)
  have "co_participants (send_error cl s) = []" for cl
    using Cons.prems by (auto simp: send_error_def send_result_def split: sum.splits)
  with Cons.IH Cons.prems show ?case
    by (cases r) (simp add: serve_requests_def request_without_participants)
qed (simp add: serve_requests_def)

lemma away_requests:
  assumes st: "leveldb_store ldb view"
  shows "sound_addresses (co_conf s) \<Longrightarrow> away view a n ma m s \<Longrightarrow>
    co_participants (serve_requests (cluster_call ldb be) rs s) \<noteq> [] \<Longrightarrow>
    away view a n ma (final_store rs m) (serve_requests (cluster_call ldb be) rs s)
    \<and> co_conf (serve_requests (cluster_call ldb be) rs s) = co_conf s
    \<and> co_next_id (serve_requests (cluster_call ldb be) rs s) = co_next_id s + of_nat (updates rs)"
proof (induction rs arbitrary: s m)
  case (Cons r rs)
  let ?call = "cluster_call ldb be"
  obtain cl c where r: "r = (cl, c)" by fastforce
  let ?s1 = "dispatch_request ?call cl c s"
  have step: "serve_requests ?call (r # rs) s = serve_requests ?call rs ?s1"
    "final_store (r # rs) m = final_store rs (fst (apply_command c m))"
    "updates (r # rs) = (if is_update c then 1 else 0) + updates rs"
    by (simp_all add: r serve_requests_def final_store_def updates_def)
  have "co_participants ?s1 \<noteq> []"
    using serve_without_participants [of ?s1 ?call rs] Cons.prems(3) step(1) by auto
  from away_request [OF st Cons.prems(1,2) refl this] Cons.IH [of ?s1 "fst (apply_command c m)"] Cons.prems step
  show ?case by (simp add: algebra_simps)
qed (simp add: serve_requests_def final_store_def updates_def)

lemma final_store_no_updates: "updates rs = 0 \<Longrightarrow> final_store rs m = m"
proof (induction rs)
  case (Cons r rs)
  then show ?case by (cases r; cases "snd r") (auto simp: updates_def final_store_def split: if_splits)
qed (simp add: final_store_def)

section \<open>Properties\<close>

text \<open>C7: a participant that is lost between two requests, with no update unfinished in the log of a
  coordinator that has been recovered or has readmitted a participant before
  (\<open>co_recovered\<close>), and whose process is up and idle when it
  comes back, misses nothing: whatever requests the coordinator has served in the meantime,
  of whichever clients and with whatever failures of the others, the next heartbeat on a
  quiet network gives it the store that all those requests lead to, deletions included, as
  long as one participant was left all the time and fewer than 2 ^ 32 updates were served. A
  coordinator started for the first time, that has not readmitted a participant yet, gives it
  only the id (\<open>fresh_coordinator_readmits_stale_store\<close>).\<close>

theorem absence_is_made_up_for:
  assumes "leveldb_store ldb view" "sound_addresses (co_conf s)" "away view a (co_next_id s) m m s"
    "s' = serve_requests (cluster_call ldb be) rs s" "co_participants s' \<noteq> []" "updates rs < 2 ^ 32"
    "quiet (co_world s')" "small_store (final_store rs m)"
  shows "\<exists>s''. heartbeat_participant (cluster_call ldb be) a s' = Inr s''
    \<and> in_agreement view s'' (final_store rs m) \<and> set (co_participants s'') = insert a (set (co_participants s'))"
proof -
  let ?m = "final_store rs m" and ?n = "co_next_id s"
  have aw: "away view a ?n m ?m s'" "co_conf s' = co_conf s" "co_next_id s' = ?n + of_nat (updates rs)"
    using away_requests [OF assms(1-3)] assms(4,5) by blast+
  have level: "?n = co_next_id s' \<longrightarrow> m = ?m"
  proof
    assume "?n = co_next_id s'"
    then have "(of_nat (updates rs) :: u32) = 0" using aw(3) by simp
    then have "updates rs = 0" using assms(6) by (simp add: word_of_nat_eq_0_iff dvd_eq_mod_eq_0)
    then show "m = ?m" using final_store_no_updates [of rs m] by simp
  qed
  have out: "a \<notin> set (co_participants s')" and ag: "in_agreement view s' ?m"
    and f: "co_recovered s'" and nu: "rm_records (co_log s') = []"
    and na: "node_synced view (co_world s') a ?n m" "dom m \<subseteq> dom ?m \<union> set (co_del_keys s')"
    using aw(1) by (auto simp: away_def)
  from absent_heartbeat [OF assms(1,8) ag assms(7) f nu assms(5) out na level, of be] show ?thesis
    by (auto simp: joined_def)
qed

theorem absence_is_made_up_for_witness:
  "\<exists>s''. heartbeat_participant (cluster_call memtable False) ''b:1''
      (serve_requests (cluster_call memtable False) [(0, Set_Command 0 ''k'' ''v'')]
         ((sample_system [])\<lparr>co_participants := [''a:1'']\<rparr>)) = Inr s''
    \<and> in_agreement map_of s'' [''k'' \<mapsto> ''v''] \<and> set (co_participants s'') = {''a:1'', ''b:1''}"
proof -
  let ?call = "cluster_call memtable False" and ?s = "(sample_system [])\<lparr>co_participants := [''a:1'']\<rparr>"
  let ?rs = "[(0, Set_Command 0 ''k'' ''v'')]"
  let ?s' = "serve_requests ?call ?rs ?s"
  have conf: "co_conf ?s = co_conf (sample_system [])" by simp
  have ag: "in_agreement map_of ?s Map.empty"
    using sample_agreement [of "[]"] by (simp add: in_agreement_def sample_system_def)
  have aw: "away map_of ''b:1'' (co_next_id ?s) Map.empty Map.empty ?s"
    using ag unfolding away_def conf sample_addresses
    by (simp add: sample_system_def fresh_log_def node_synced_def idle_node_def)
  have s': "?s' = dispatch_request ?call 0 (Set_Command 0 ''k'' ''v'') ?s"
    by (simp add: serve_requests_def)
  have "quiet (co_world ?s)" "memnet.replicas ?s Map.empty" "co_participants ?s \<noteq> []"
    using ag by (simp_all add: sample_system_def quiet_def agreement_replicas [OF mem.leveldb_store_axioms])
  from memnet.dispatch_live [OF this(2,3,1), of 0 "Set_Command 0 ''k'' ''v''"]
  have live: "co_participants ?s' = [''a:1'']" "quiet (co_world ?s')" by (simp_all add: s')
  have m: "final_store ?rs Map.empty = [''k'' \<mapsto> ''v'']" by (simp add: final_store_def)
  have "sound_addresses (co_conf ?s)" unfolding conf by (rule sample_sound)
  from absence_is_made_up_for [OF mem.leveldb_store_axioms this aw refl _ _ live(2)] live(1) show ?thesis
    by (simp add: m updates_def small_store_def Map.graph_def pair_small_def insert_commute)
qed

end
