(* ===== verification/Restart.thy ===== *)
theory Restart
  imports Healing
begin

text \<open>
  The coordinator after a crash and a participant after an absence (\<^verbatim>\<open>Lab3/src/coordinator.cpp\<close>:
  \<^verbatim>\<open>recovery\<close>, \<^verbatim>\<open>init_participants\<close>, \<^verbatim>\<open>handle_unfinished_records\<close>, \<^verbatim>\<open>heartbeat_participants\<close>): when
  the system comes back to full strength, and when it never does.
\<close>

section \<open>A system that cannot come back\<close>

text \<open>
  The coordinator has no participant, an unfinished record of request \<open>i\<close> that is not
  unresolved any more, and its participants are down or still expect \<open>i\<close>.
\<close>

definition behind :: "u32 \<Rightarrow> 'db cluster \<Rightarrow> string \<Rightarrow> bool" where
  "behind i w a \<longleftrightarrow> (case cl_nodes w a of None \<Rightarrow> True | Some p \<Rightarrow> pt_next_id p = i)"

definition stranded :: "u32 \<Rightarrow> 'db cluster coordinator \<Rightarrow> bool" where
  "stranded i s \<longleftrightarrow>
     co_participants s = [] \<and> co_recovered s \<and> co_next_id s = i + 1
     \<and> \<not> record_is i RECORD_UNRESOLVED s
     \<and> (\<forall>a \<in> set (conf_addresses (co_conf s)). behind i (co_world s) a)"

text \<open>What goes on in a running system: passes of the heartbeat, address by address, and requests.\<close>

datatype system_event = Heartbeat string | Request nat command

definition system_step ::
    "'w rpc \<Rightarrow> system_event \<Rightarrow> 'w coordinator \<Rightarrow> 'w coordinator result" where
  "system_step call ev s =
     (case ev of
        Heartbeat a \<Rightarrow> heartbeat_participant call a s
      | Request cl c \<Rightarrow> Inr (dispatch_request call cl c s))"

fun system_run :: "'w rpc \<Rightarrow> system_event list \<Rightarrow> 'w coordinator \<Rightarrow> 'w coordinator result" where
  "system_run call [] s = Inr s"
| "system_run call (ev # evs) s = res_bind (system_step call ev s) (system_run call evs)"

text \<open>The heartbeats of a run go to configured addresses.\<close>

definition known_events :: "coordinator_configuration \<Rightarrow> system_event list \<Rightarrow> bool" where
  "known_events conf evs \<longleftrightarrow>
     list_all (\<lambda>ev. case ev of Heartbeat a \<Rightarrow> a \<in> set (conf_addresses conf) | _ \<Rightarrow> True) evs"

lemma rpc_call_rest:
  assumes "rpc_call call a req s = (res, s')"
  shows "co_participants s' = co_participants s" "co_next_id s' = co_next_id s" "co_log s' = co_log s"
    "co_conf s' = co_conf s" "co_recovered s' = co_recovered s" "co_del_keys s' = co_del_keys s"
    "co_net s' = co_net s" "call (co_world s) a req = (co_world s', res)"
  using assms by (auto simp: rpc_call_def emit_def split: prod.splits)

text \<open>Asking for a sign of life or for the next id leaves the nodes as they are, or takes one down.\<close>

lemma asking_call:
  assumes "cluster_call ldb be w a req = (w', res)" "req = Rpc_HEARTBEAT \<or> req = Rpc_NEXT_ID"
    "behind i w b"
  shows "behind i w' b"
    and "b = a \<Longrightarrow> as_u32 res = Some n \<Longrightarrow> n = i"
proof -
  have "cl_nodes w' b = cl_nodes w b \<or> cl_nodes w' b = None"
    using assms(1,2) nodes_next_fault [of w]
    by (auto simp: cluster_call_def deliver_def respond_def heartbeat_def next_id_handler_def
        split: prod.splits fault.splits option.splits sum.splits if_splits)
  then show "behind i w' b" using assms(3) by (auto simp: behind_def)
  assume "b = a" "as_u32 res = Some n"
  with assms show "n = i"
    by (auto simp: as_u32_Some behind_def respond_Inr heartbeat_def next_id_handler_def
        elim!: cluster_call_answered)
qed

lemma stranded_call:
  assumes "stranded i s" "rpc_call (cluster_call ldb be) a req s = (res, s')"
    "req = Rpc_HEARTBEAT \<or> req = Rpc_NEXT_ID"
  shows "stranded i s'"
proof -
  note r = rpc_call_rest [OF assms(2)]
  from assms(1) show ?thesis
    using asking_call(1) [OF r(8) assms(3)] by (auto simp: stranded_def r(1-5) record_is_def)
qed

lemma stranded_drop: "stranded i s \<Longrightarrow> stranded i (drop_participant a s)"
  by (simp add: stranded_def drop_participant_def os_erase_def record_is_def)

lemma stranded_heartbeat:
  assumes "stranded i s" "a \<in> set (conf_addresses (co_conf s))"
  shows "\<exists>s'. heartbeat_participant (cluster_call ldb be) a s = Inr s' \<and> stranded i s' \<and> co_conf s' = co_conf s"
proof -
  let ?call = "cluster_call ldb be"
  obtain res s1 where c1: "rpc_call ?call a Rpc_HEARTBEAT s = (res, s1)" by fastforce
  note r1 = rpc_call_rest [OF c1]
  have s1: "stranded i s1" using stranded_call [OF assms(1) c1] by simp
  obtain res2 s2 where c2: "rpc_call ?call a Rpc_NEXT_ID s1 = (res2, s2)" by fastforce
  note r2 = rpc_call_rest [OF c2]
  have s2: "stranded i s2" using stranded_call [OF s1 c2] by simp
  have "behind i (co_world s1) a" using s1 assms(2) r1 by (simp add: stranded_def)
  note n = asking_call(2) [OF r2(8) _ this refl]
  have rp: "recover_participant ?call a s1 = (None, s2) \<or> recover_participant ?call a s1 = (Some False, s2)"
    using s1 s2 c2 n by (auto simp: recover_participant_def stranded_def split: option.split)
  have conf: "co_conf (drop_participant a t) = co_conf t" for t :: "'a cluster coordinator"
    by (simp add: drop_participant_def)
  have "co_participants s1 = []" using s1 by (simp add: stranded_def)
  with rp c1 s1 s2 stranded_drop r1 r2 conf show ?thesis
    by (auto simp: heartbeat_participant_def split: option.split)
qed

lemma stranded_send_error: "stranded i s \<Longrightarrow> stranded i (send_error cl s)"
  by (auto simp: stranded_def send_error_def send_result_def record_is_def Let_def split: sum.splits)

lemma stranded_run:
  "stranded i s \<Longrightarrow> known_events (co_conf s) evs \<Longrightarrow>
     \<exists>s'. system_run (cluster_call ldb be) evs s = Inr s' \<and> stranded i s'"
proof (induction evs arbitrary: s)
  case (Cons ev evs)
  have "\<exists>s1. system_step (cluster_call ldb be) ev s = Inr s1 \<and> stranded i s1 \<and> co_conf s1 = co_conf s"
  proof (cases ev)
    case (Heartbeat a)
    with Cons.prems(2) have "a \<in> set (conf_addresses (co_conf s))" by (simp add: known_events_def)
    from stranded_heartbeat [OF Cons.prems(1) this] Heartbeat show ?thesis by (simp add: system_step_def)
  next
    case (Request cl c)
    have "co_conf (send_error cl s) = co_conf s" by (auto simp: send_error_def send_result_def Let_def split: sum.splits)
    with Cons.prems(1) Request show ?thesis
      by (simp add: system_step_def request_without_participants stranded_send_error stranded_def [of i s])
  qed
  then obtain s1 where "system_step (cluster_call ldb be) ev s = Inr s1" "stranded i s1" "co_conf s1 = co_conf s"
    by blast
  with Cons.IH [of s1] Cons.prems(2) show ?case by (simp add: known_events_def)
qed simp

section \<open>Restarting with an unfinished request\<close>

text \<open>
  All that \<open>init_participant\<close> does with a participant that expects the unfinished request is to
  ask for its next id and drop it.
\<close>

definition restarting :: "u32 \<Rightarrow> 'db cluster coordinator \<Rightarrow> bool" where
  "restarting i s \<longleftrightarrow>
     co_participants s = [] \<and> co_recovered s \<and> co_next_id s = i + 1
     \<and> map_of (rm_records (co_log s)) (i + 1) = None
     \<and> (\<forall>a \<in> set (conf_addresses (co_conf s)). behind i (co_world s) a)"

lemma add_drop: "co_participants s = [] \<Longrightarrow> drop_participant a (add_participant a s) = s"
  by (simp add: drop_participant_def add_participant_def os_put_def os_erase_def)

lemma init_drops:
  assumes "restarting i s" "a \<in> set (conf_addresses (co_conf s))"
  shows "restarting i (init_participant (cluster_call ldb be) a s)
    \<and> co_conf (init_participant (cluster_call ldb be) a s) = co_conf s
    \<and> co_log (init_participant (cluster_call ldb be) a s) = co_log s
    \<and> co_net (init_participant (cluster_call ldb be) a s) = co_net s"
proof -
  let ?call = "cluster_call ldb be" and ?s1 = "add_participant a s"
  obtain res s2 where c: "rpc_call ?call a Rpc_NEXT_ID ?s1 = (res, s2)" by fastforce
  note r = rpc_call_rest [OF c]
  have w: "co_world ?s1 = co_world s" "co_conf ?s1 = co_conf s" by (simp_all add: add_participant_def)
  have "behind i (co_world ?s1) b" if "b \<in> set (conf_addresses (co_conf s))" for b
    using assms(1) that w by (simp add: restarting_def)
  note ask = asking_call [OF r(8) _ this]
  have i: "as_u32 res = Some n \<Longrightarrow> n = i" for n using ask(2) [OF _ assms(2)] by simp
  have world: "behind i (co_world s2) b" if "b \<in> set (conf_addresses (co_conf s))" for b
    using ask(1) that by simp
  have "init_participant ?call a s = drop_participant a s2"
    using c i assms(1) r
    by (auto simp: init_participant_def restarting_def record_is_def add_participant_def Let_def split: option.split)
  moreover have "co_participants (drop_participant a s2) = []"
    using r(1) assms(1) by (simp add: drop_participant_def add_participant_def restarting_def os_put_def os_erase_def)
  ultimately show ?thesis
    using r assms(1) world w by (simp add: restarting_def drop_participant_def add_participant_def)
qed

lemma init_drops_all:
  "restarting i s \<Longrightarrow> set as \<subseteq> set (conf_addresses (co_conf s)) \<Longrightarrow>
     restarting i (fold (init_participant (cluster_call ldb be)) as s)
     \<and> co_conf (fold (init_participant (cluster_call ldb be)) as s) = co_conf s
     \<and> co_log (fold (init_participant (cluster_call ldb be)) as s) = co_log s
     \<and> co_net (fold (init_participant (cluster_call ldb be)) as s) = co_net s"
proof (induction as arbitrary: s)
  case (Cons a as)
  then have "a \<in> set (conf_addresses (co_conf s))" by simp
  from init_drops [OF Cons.prems(1) this, of ldb be] Cons.IH [of "init_participant (cluster_call ldb be) a s"] Cons.prems(2)
  show ?case by simp
qed simp

text \<open>Nobody hears of the decision about the request, so its record stays in the table.\<close>

lemma unfinished_nobody:
  assumes "restarting i s" "rm_records (co_log s) = [(i, r)]" "r_id r = i"
    "r_status r \<in> {RECORD_UNRESOLVED, RECORD_COMMIT, RECORD_ABORT}"
  shows "\<exists>s'. handle_unfinished_records call s = Inr s' \<and> stranded i s' \<and> co_conf s' = co_conf s
    \<and> co_net s' = co_net s"
proof -
  have "om_put i x [(i, r)] = [(i, x)]" for x by (simp add: om_put_def)
  with assms show ?thesis
    by (auto simp: handle_unfinished_records_def abort_db_request_def commit_db_request_def log_status_def
        emit_def Let_def restarting_def stranded_def rm_log_def make_record_def record_is_def
        is_done_status_def record_statuses)
qed

text \<open>What the coordinator is when it is started on the log that a crash has left.\<close>

definition crashed_log :: "u32 \<Rightarrow> record_manager \<Rightarrow> bool" where
  "crashed_log i lg \<longleftrightarrow>
     rm_next_id lg = i + 1 \<and> i + 1 \<noteq> 0
     \<and> (\<exists>r. rm_records lg = [(i, r)] \<and> r_id r = i
            \<and> r_status r \<in> {RECORD_UNRESOLVED, RECORD_COMMIT, RECORD_ABORT})"

lemma restart_strands:
  assumes "crashed_log i lg" "\<not> n_running net" "\<forall>a \<in> set (conf_addresses conf). behind i w a"
  shows "\<exists>s. start_coordinator (cluster_call ldb be) rnd (new_coordinator conf lg net w) = Inr s
    \<and> stranded i s \<and> co_conf s = move_coordinator_configuration conf"
proof -
  let ?call = "cluster_call ldb be"
  obtain net' where net': "server_start net = Inr net'" using assms(2) by (simp add: server_start_def)
  let ?s = "(new_coordinator conf lg net w)\<lparr>co_started := True, co_net := net', co_next_id := rm_next_id lg\<rparr>"
  have nz: "rm_next_id lg \<noteq> 0" using assms(1) by (simp add: crashed_log_def)
  have start: "start_coordinator ?call rnd (new_coordinator conf lg net w) =
      handle_unfinished_records ?call (init_participants ?call ?s)"
    using net' nz by (simp add: start_coordinator_def recovery_def new_coordinator_def Let_def)
  have sel: "co_conf ?s = move_coordinator_configuration conf" "co_log ?s = lg"
    by (simp_all add: new_coordinator_def)
  have "(i :: u32) \<noteq> i + 1" by simp
  then have "restarting i ?s"
    using assms(1,3) by (auto simp: restarting_def crashed_log_def new_coordinator_def)
  from init_drops_all [OF this, of "conf_addresses (co_conf ?s)" ldb be]
  have init: "restarting i (init_participants ?call ?s)" "co_log (init_participants ?call ?s) = lg"
    "co_conf (init_participants ?call ?s) = move_coordinator_configuration conf"
    using sel by (simp_all add: init_participants_def)
  from assms(1) obtain r where r: "rm_records lg = [(i, r)]" "r_id r = i"
    "r_status r \<in> {RECORD_UNRESOLVED, RECORD_COMMIT, RECORD_ABORT}" by (auto simp: crashed_log_def)
  from unfinished_nobody [OF init(1) _ r(2,3), of ?call] init r(1) start show ?thesis by auto
qed

text \<open>
  C12: A coordinator that crashes during an update when no participant has executed COMMIT for it,
  so that every participant is down or still expects the id of the update, never serves again:
  started anew it drops every participant, because each is one id
  behind, and no heartbeat brings one back, because there is nobody left to take a snapshot
  from. Whatever calls are lost or delivered, every request is answered with an error. Once one
  participant has executed COMMIT the restart keeps that one, and the system goes on with it.
\<close>

theorem crash_during_request_is_final:
  assumes "crashed_log i lg" "\<not> n_running net" "\<forall>a \<in> set (conf_addresses conf). behind i w a"
    "known_events conf evs"
  shows "\<exists>s s'. start_coordinator (cluster_call ldb be) rnd (new_coordinator conf lg net w) = Inr s
    \<and> system_run (cluster_call ldb be) evs s = Inr s' \<and> co_participants s' = []
    \<and> (\<forall>cl c. tc_connected (n_clients (co_net s') cl) \<longrightarrow>
         owed cl (dispatch_request (cluster_call ldb be) cl c s') = owed cl s' @ [(error_string, True)])"
proof -
  obtain s where s: "start_coordinator (cluster_call ldb be) rnd (new_coordinator conf lg net w) = Inr s"
    "stranded i s" "co_conf s = move_coordinator_configuration conf"
    using restart_strands [OF assms(1-3)] by blast
  have "known_events (co_conf s) evs" using assms(4) unfolding known_events_def s(3) conf_addresses_move .
  from stranded_run [OF s(2) this] obtain s' where
    s': "system_run (cluster_call ldb be) evs s = Inr s'" "stranded i s'" by blast
  have none: "co_participants s' = []" using s'(2) by (simp add: stranded_def)
  have "owed cl (send_error cl s') = owed cl s' @ [(error_string, True)]"
    if "tc_connected (n_clients (co_net s') cl)" for cl
    using that by (simp add: owed_def send_error_def send_result_def async_write_def put_client_def Let_def)
  with s(1) s'(1) none show ?thesis by (auto simp: request_without_participants)
qed

theorem crash_during_request_is_final_witness:
  "let call = cluster_call memtable False;
       conf = new_coordinator_configuration\<lparr>participant_addrs := [''a'', ''b''], participant_ports := [1, 1]\<rparr>;
       lg = fresh_log\<lparr>rm_next_id := 6, rm_records := [(5, make_record RECORD_UNRESOLVED 5 6)]\<rparr>;
       w = \<lparr>cl_nodes = (\<lambda>_. Some (idle_node\<lparr>pt_next_id := 5\<rparr>)), cl_faults = [Lose_Answer]\<rparr>
   in \<exists>s s'. start_coordinator call 0 (new_coordinator conf lg (sample_net\<lparr>n_running := False\<rparr>) w) = Inr s
        \<and> system_run call [Heartbeat ''a:1'', Request 0 (Get_Command ''k''), Heartbeat ''b:1''] s = Inr s'
        \<and> co_participants s' = []"
proof -
  let ?call = "cluster_call memtable False"
  let ?conf = "new_coordinator_configuration\<lparr>participant_addrs := [''a'', ''b''], participant_ports := [1, 1]\<rparr>"
  let ?lg = "fresh_log\<lparr>rm_next_id := 6, rm_records := [(5, make_record RECORD_UNRESOLVED 5 6)]\<rparr>"
  let ?w = "\<lparr>cl_nodes = (\<lambda>_. Some (idle_node\<lparr>pt_next_id := 5\<rparr>)), cl_faults = [Lose_Answer]\<rparr>"
  let ?evs = "[Heartbeat ''a:1'', Request 0 (Get_Command ''k''), Heartbeat ''b:1'']"
  have "to_string (1 :: nat) = ''1''" by code_simp
  then have evs: "known_events ?conf ?evs"
    by (simp add: known_events_def conf_addresses_def new_coordinator_configuration_def)
  have lg: "crashed_log 5 ?lg"
    by (simp add: crashed_log_def make_record_def)
  have w: "\<forall>a \<in> set (conf_addresses ?conf). behind 5 ?w a" by (simp add: behind_def)
  have "\<not> n_running (sample_net\<lparr>n_running := False\<rparr>)" by simp
  from crash_during_request_is_final [OF lg this w evs, of memtable False 0]
  show ?thesis unfolding Let_def by blast
qed

end
