(* ===== verification/Recovery_Race.thy ===== *)
theory Recovery_Race
  imports Healing
begin

text \<open>
  Start-up while clients are already served (\<^verbatim>\<open>Lab3/src/coordinator.cpp\<close>, \<^verbatim>\<open>start\<close> and \<^verbatim>\<open>recovery\<close>):
  the server accepts clients before the recovery has run, and \<^verbatim>\<open>recovery\<close> calls
  \<^verbatim>\<open>handle_unfinished_records\<close> without taking \<^verbatim>\<open>participants_mutex_\<close>. The recovery can therefore
  run between the two halves of a client's update, whose record it finds unresolved.
\<close>

section \<open>Going around on a quiet network\<close>

lemma quiet_abort_loop:
  assumes step: "\<And>p. P p \<Longrightarrow> \<exists>p'. serve ldb be (Rpc_ABORT i) p = Inr (Res_Bool True, p') \<and> Q p'"
  shows "quiet (co_world s) \<Longrightarrow> distinct as \<Longrightarrow> \<forall>a \<in> set as. \<exists>p. cl_nodes (co_world s) a = Some p \<and> P p \<Longrightarrow>
    abort_loop (cluster_call ldb be) i as dead s = (d, s') \<Longrightarrow>
    d = dead \<and> co_participants s' = co_participants s \<and> co_log s' = co_log s \<and> co_net s' = co_net s
    \<and> co_next_id s' = co_next_id s \<and> quiet (co_world s')
    \<and> (\<forall>a \<in> set as. \<exists>p. cl_nodes (co_world s') a = Some p \<and> Q p)
    \<and> (\<forall>a. a \<notin> set as \<longrightarrow> cl_nodes (co_world s') a = cl_nodes (co_world s) a)"
proof (induction as arbitrary: s)
  case (Cons a as)
  then obtain p where p: "cl_nodes (co_world s) a = Some p" "P p" by auto
  from step [OF p(2)] obtain p' where p': "serve ldb be (Rpc_ABORT i) p = Inr (Res_Bool True, p')" "Q p'" by blast
  let ?s1 = "after_call a (Rpc_ABORT i) (Res_Bool True) p' s"
  have "abort_loop (cluster_call ldb be) i as dead ?s1 = (d, s')"
    using Cons.prems(4) quiet_rpc [OF Cons.prems(1) p(1) p'(1)] by (simp add: as_bool_def)
  moreover have "\<forall>b \<in> set as. \<exists>p. cl_nodes (co_world ?s1) b = Some p \<and> P p" using Cons.prems(2,3) by auto
  moreover have "co_net ?s1 = co_net s" by (simp add: after_call_def emit_def)
  ultimately show ?case using Cons.IH [of ?s1] Cons.prems(1,2) p'(2) by auto
qed simp

text \<open>COMMIT to participants that are past the id: they answer with the empty string.\<close>

lemma quiet_late_commit_loop:
  "quiet (co_world s) \<Longrightarrow> \<forall>a \<in> set as. \<exists>p. cl_nodes (co_world s) a = Some p \<and> i < pt_next_id p \<Longrightarrow>
    commit_loop (cluster_call ldb be) i as [] dead s = (x, d, s') \<Longrightarrow>
    x = [] \<and> d = dead \<and> co_participants s' = co_participants s \<and> co_net s' = co_net s \<and> co_log s' = co_log s
    \<and> co_next_id s' = co_next_id s \<and> cl_nodes (co_world s') = cl_nodes (co_world s)"
proof (induction as arbitrary: s)
  case (Cons a as)
  then obtain p where p: "cl_nodes (co_world s) a = Some p" "i < pt_next_id p" by auto
  then have "serve ldb be (Rpc_COMMIT i) p = Inr (Res_String [], p)" by (simp add: respond_def commit_handler_def)
  note c = quiet_rpc [OF Cons.prems(1) p(1) this]
  let ?s1 = "after_call a (Rpc_COMMIT i) (Res_String []) p s"
  have nodes: "cl_nodes (co_world ?s1) = cl_nodes (co_world s)" using p(1) by auto
  have "commit_loop (cluster_call ldb be) i as [] dead ?s1 = (x, d, s')"
    using Cons.prems(3) c by (simp add: as_string_def)
  moreover have "co_net ?s1 = co_net s" by (simp add: after_call_def emit_def)
  ultimately show ?case
    using Cons.IH [of ?s1] Cons.prems(1,2) nodes by (auto simp del: after_call_sel(7))
qed simp

lemma abort_prepared:
  assumes "pt_next_id p = i \<and> view (pt_db p) = m \<and> pt_requests p = [Some c]"
  shows "\<exists>p'. serve ldb be (Rpc_ABORT i) p = Inr (Res_Bool True, p')
    \<and> (pt_next_id p' = i + 1 \<and> view (pt_db p') = m \<and> pt_requests p' = [])"
  using abort_current [of p] assms by (auto simp: respond_Inr)

text \<open>PREPARE leaves the log as it is, so the update's record is the only one.\<close>

lemma prepare_loop_log: "prepare_loop call req as dead s = (ok, d, s') \<Longrightarrow> co_log s' = co_log s"
proof (induction as arbitrary: dead s)
  case (Cons a as)
  have "co_log s1 = co_log s" if "rpc_call call a req s = (res, s1)" for res s1
    using that by (auto simp: rpc_call_def emit_def split: prod.splits)
  with Cons show ?case
    by (auto simp: drop_participant_def split: prod.splits option.splits if_splits)
qed simp

lemma running_update_record:
  assumes "start_update call mk c0 s = (ok, d, cmd, s1)" "rm_records (co_log s) = []"
  shows "rm_records (co_log s1) = [(cmd_id cmd, make_record RECORD_UNRESOLVED (cmd_id cmd) (co_next_id s + 1))]"
proof -
  let ?s2 = "log_status RECORD_UNRESOLVED (cmd_id cmd) (take_id s)"
  have "prepare_loop call (mk cmd) (co_participants ?s2) False ?s2 = (ok, d, s1)"
    using assms(1) by (auto simp: start_update_def Let_def split: prod.splits)
  from prepare_loop_log [OF this] assms(2) show ?thesis
    by (simp add: log_status_def emit_def take_id_def rm_log_def make_record_def is_done_status_def record_statuses
        om_put_def Let_def)
qed

text \<open>Both loops only add to the events.\<close>

lemma abort_loop_trace:
  "abort_loop call i as dead s = (d, s') \<Longrightarrow> \<exists>evs. co_trace s' = co_trace s @ evs"
  using extends_abort_loop [of i "[i]" call as dead s d s'] by (force simp: extends_def)

lemma commit_loop_trace:
  "commit_loop call i as ret dead s = (x, d, s') \<Longrightarrow> \<exists>evs. co_trace s' = co_trace s @ evs"
  using extends_commit_loop [of i "[i]" call as ret dead s x d s'] by (force simp: extends_def)

lemma log_status_rest:
  "co_participants (log_status st i s) = co_participants s" "co_world (log_status st i s) = co_world s"
  "co_next_id (log_status st i s) = co_next_id s" "co_net (log_status st i s) = co_net s"
  by (simp_all add: log_status_def emit_def Let_def)

text \<open>The recovery, with the record of update \<open>i\<close> in the table and everybody prepared.\<close>

lemma recovery_aborts:
  assumes q: "quiet (co_world s)" and d: "distinct (co_participants s)" and ne: "co_participants s \<noteq> []"
    and rec: "rm_records (co_log s) = [(i, make_record RECORD_UNRESOLVED i n)]"
    and p: "\<forall>a \<in> set (co_participants s). node_prepared view (co_world s) a i m c"
    and h: "handle_unfinished_records (cluster_call ldb be) s = Inr s'"
  shows "co_participants s' = co_participants s \<and> co_net s' = co_net s \<and> co_next_id s' = co_next_id s
    \<and> quiet (co_world s') \<and> (\<forall>a \<in> set (co_participants s). node_synced view (co_world s') a (i + 1) m)
    \<and> Ev_Log (make_record RECORD_ABORT i (co_next_id s)) \<in> set (co_trace s')"
proof -
  let ?call = "cluster_call ldb be" and ?t = "log_status RECORD_ABORT i s"
  obtain d2 t2 where l: "abort_loop ?call i (co_participants s) False ?t = (d2, t2)" by fastforce
  have "\<forall>a \<in> set (co_participants s). \<exists>p. cl_nodes (co_world ?t) a = Some p
      \<and> (pt_next_id p = i \<and> view (pt_db p) = m \<and> pt_requests p = [Some c])"
    using p by (auto simp: node_prepared_def log_status_rest)
  note go = quiet_abort_loop [OF abort_prepared [of _ i view m c ldb be] _ d this l]
  have go: "d2 = False \<and> co_participants t2 = co_participants s \<and> co_net t2 = co_net s \<and> co_next_id t2 = co_next_id s
      \<and> quiet (co_world t2) \<and> (\<forall>a \<in> set (co_participants s). \<exists>p. cl_nodes (co_world t2) a = Some p
         \<and> (pt_next_id p = i + 1 \<and> view (pt_db p) = m \<and> pt_requests p = []))"
    using go q by (simp add: log_status_rest)
  have "r_status (make_record RECORD_UNRESOLVED i n) = RECORD_UNRESOLVED" "r_id (make_record RECORD_UNRESOLVED i n) = i"
    by (simp_all add: make_record_def)
  then have s': "s' = log_status RECORD_ABORT_DONE i t2"
    using h rec l go ne by (auto simp: handle_unfinished_records_def abort_db_request_def Let_def log_status_rest)
  obtain evs where "co_trace t2 = co_trace ?t @ evs" using abort_loop_trace [OF l] by blast
  then have "Ev_Log (make_record RECORD_ABORT i (co_next_id s)) \<in> set (co_trace s')" by (simp add: s')
  with go show ?thesis by (auto simp: s' log_status_rest node_synced_def)
qed

text \<open>The COMMIT that comes too late.\<close>

lemma late_commit:
  assumes q: "quiet (co_world s)" and ne: "co_participants s \<noteq> []" and i: "i < i + 1"
    and p: "\<forall>a \<in> set (co_participants s). node_synced view (co_world s) a (i + 1) m"
    and c: "commit_db_request (cluster_call ldb be) (Some cl) i d s = (d', s')"
    and conn: "tc_connected (n_clients (co_net s) cl)"
  shows "co_participants s' = co_participants s \<and> cl_nodes (co_world s') = cl_nodes (co_world s)
    \<and> co_next_id s' = co_next_id s \<and> owed cl s' = owed cl s @ [([], False)]
    \<and> Ev_Log (make_record RECORD_COMMIT i (co_next_id s)) \<in> set (co_trace s')
    \<and> (\<forall>e \<in> set (co_trace s). e \<in> set (co_trace s'))"
proof -
  let ?call = "cluster_call ldb be" and ?t = "log_status RECORD_COMMIT i s"
  obtain x d2 t2 where l: "commit_loop ?call i (co_participants s) [] d ?t = (x, d2, t2)" by (metis prod_cases3)
  have "\<forall>a \<in> set (co_participants s). \<exists>p. cl_nodes (co_world ?t) a = Some p \<and> i < pt_next_id p"
    using p i by (auto simp: node_synced_def log_status_rest)
  from quiet_late_commit_loop [OF _ this l] q
  have go: "x = [] \<and> co_participants t2 = co_participants s \<and> co_net t2 = co_net s \<and> co_next_id t2 = co_next_id s
      \<and> cl_nodes (co_world t2) = cl_nodes (co_world s)" by (simp add: log_status_rest)
  then have s': "s' = send_result cl [] False (log_status RECORD_COMMIT_DONE i t2)"
    using c l ne by (auto simp: commit_db_request_def Let_def log_status_rest)
  obtain evs where "co_trace t2 = co_trace ?t @ evs" using commit_loop_trace [OF l] by blast
  then have "Ev_Log (make_record RECORD_COMMIT i (co_next_id s)) \<in> set (co_trace s')
      \<and> (\<forall>e \<in> set (co_trace s). e \<in> set (co_trace s'))" by (simp add: s')
  moreover have "owed cl s' = owed cl s @ [([], False)]"
    using conn go by (simp add: s' owed_def send_result_def async_write_def log_status_rest Let_def)
  moreover have "co_participants s' = co_participants s" "co_world s' = co_world t2" "co_next_id s' = co_next_id s"
    using go by (auto simp: s' send_result_def log_status_rest split: sum.splits)
  ultimately show ?thesis using go by simp
qed

section \<open>Properties\<close>

text \<open>C13: a restarting coordinator can lose an update without any failure. When its recovery runs
  while an update of a client is between PREPARE and COMMIT, it takes the update's record for
  one of a crash and aborts it on all participants; the COMMIT that follows finds it gone.
  The participants agree on the store without the update, the client gets an empty answer,
  and the log has both decisions for one id.\<close>

theorem recovery_aborts_running_update:
  assumes "leveldb_store ldb view" "in_agreement view s m" "co_participants s \<noteq> []" "quiet (co_world s)"
    "rm_records (co_log s) = []" "co_next_id s + 1 \<noteq> 0" "tc_connected (n_clients (co_net s) cl)"
    "start_update (cluster_call ldb be) Rpc_PREPARE_SET (Set_Command j k v) s = (ok, d, cmd, s1)"
    "handle_unfinished_records (cluster_call ldb be) s1 = Inr s2"
    "commit_db_request (cluster_call ldb be) (Some cl) (cmd_id cmd) d s2 = (d', s3)"
  shows "ok \<and> in_agreement view s3 m \<and> co_participants s3 = co_participants s
    \<and> owed cl s3 = owed cl s @ [([], False)]
    \<and> (\<forall>st \<in> {RECORD_ABORT, RECORD_COMMIT}. \<exists>r. Ev_Log r \<in> set (co_trace s3) \<and> r_status r = st \<and> r_id r = co_next_id s)"
proof -
  let ?call = "cluster_call ldb be" and ?i = "co_next_id s" and ?c = "Set_Command j k v"
  note st = assms(1) and loc = cluster_rpc_participants [OF assms(1), of be]
  have rep: "rpc_participants.replicas (node_synced view) s m" using assms(2) by (simp add: agreement_replicas [OF st])
  have mk: "Rpc_PREPARE_SET (set_id ?i ?c) = prepare_request (set_id ?i ?c)" by (simp add: prepare_request_def)
  have upd: "is_update ?c" by simp
  from rpc_participants.start_update_prepared [OF loc rep upd mk assms(8), of "\<lambda>sy pr. True"]
  have 1: "ok" "cmd = set_id ?i ?c" "co_next_id s1 = ?i + 1" "distinct (co_participants s1)"
    "\<forall>a \<in> set (co_participants s1). node_prepared view (co_world s1) a ?i m cmd"
    by (auto simp: rpc_participants.half_def [OF loc])
  have cmd: "cmd_id cmd = ?i" using 1(2) by simp
  have live: "quiet (co_world s1)" "co_participants s1 = co_participants s"
    using rpc_responsive.start_live [OF cluster_rpc_responsive [OF st] rep upd assms(4) mk assms(8)] by auto
  have rec: "rm_records (co_log s1) = [(?i, make_record RECORD_UNRESOLVED ?i (?i + 1))]"
    using running_update_record [OF assms(8,5)] cmd by simp
  have "co_participants s1 \<noteq> []" using live(2) assms(3) by simp
  note 2 = recovery_aborts [OF live(1) 1(4) this rec 1(5) assms(9)]
  have net: "co_net s1 = co_net s" by (rule net_start [OF assms(8)])
  have lt: "?i < ?i + 1" using assms(6) by (metis add.commute lessI unatSuc word_less_nat_alt)
  have 3: "quiet (co_world s2)" "co_participants s2 \<noteq> []" "tc_connected (n_clients (co_net s2) cl)"
    "\<forall>a \<in> set (co_participants s2). node_synced view (co_world s2) a (?i + 1) m"
    using 2 live net assms(3,7) by simp_all
  have "commit_db_request ?call (Some cl) ?i d s2 = (d', s3)" using assms(10) cmd by simp
  note 4 = late_commit [OF 3(1,2) lt 3(4) this 3(3)]
  have "in_agreement view s3 m"
    using 1(3,4) 2 3(4) 4 by (simp add: in_agreement_def node_synced_def)
  moreover have "owed cl s3 = owed cl s @ [([], False)]" using 2 4 net by (simp add: owed_def)
  moreover have "\<exists>r. Ev_Log r \<in> set (co_trace s3) \<and> r_status r = st \<and> r_id r = ?i"
    if "st \<in> {RECORD_ABORT, RECORD_COMMIT}" for st
  proof -
    have "Ev_Log (make_record st ?i (?i + 1)) \<in> set (co_trace s3)" using 1(3) 2 4 that by auto
    then show ?thesis by (intro exI [of _ "make_record st ?i (?i + 1)"]) (simp add: make_record_def)
  qed
  ultimately show ?thesis using 1(1) 2 4 live(2) by auto
qed

theorem recovery_aborts_running_update_witness:
  "\<exists>ok d cmd s1 s2 d' s3.
     start_update (cluster_call memtable False) Rpc_PREPARE_SET (Set_Command 0 ''k'' ''v'') (sample_system []) = (ok, d, cmd, s1)
     \<and> handle_unfinished_records (cluster_call memtable False) s1 = Inr s2
     \<and> commit_db_request (cluster_call memtable False) (Some 0) (cmd_id cmd) d s2 = (d', s3)
     \<and> in_agreement map_of s3 Map.empty \<and> owed 0 s3 = owed 0 (sample_system []) @ [([], False)]"
proof -
  let ?call = "cluster_call memtable False" and ?s = "sample_system []"
  obtain ok d cmd s1 where u: "start_update ?call Rpc_PREPARE_SET (Set_Command 0 ''k'' ''v'') ?s = (ok, d, cmd, s1)"
    by (metis prod_cases4)
  have s: "co_participants ?s \<noteq> []" "quiet (co_world ?s)" "rm_records (co_log ?s) = []" "co_next_id ?s + 1 \<noteq> 0"
    by (simp_all add: sample_system_def quiet_def fresh_log_def)
  have conn: "tc_connected (n_clients (co_net ?s) 0)" using sample_waits by (simp add: waits_with_def)
  obtain s2 where h: "handle_unfinished_records ?call s1 = Inr s2"
    using running_update_record [OF u s(3)]
    by (cases "abort_db_request ?call None (cmd_id cmd) False s1")
      (simp add: handle_unfinished_records_def make_record_def)
  obtain d' s3 where c: "commit_db_request ?call (Some 0) (cmd_id cmd) d s2 = (d', s3)" by fastforce
  from recovery_aborts_running_update [OF mem.leveldb_store_axioms sample_agreement s conn u h c] u h c
  show ?thesis by blast
qed

end
