(* ===== verification/Fault_Tolerance.thy ===== *)
theory Fault_Tolerance
  imports Absence Restart
begin

text \<open>
  The protocol of \<^verbatim>\<open>Lab3/src/coordinator.cpp\<close> under arbitrary failures of calls: what holds at any
  time of every participant, in the map or not, with whatever requests stuck in its queue, so
  that it can be lost at any point of any request and come back at any later heartbeat. The
  invariant follows the nodes through each loop of the coordinator; everything is proved of
  single handlers first and lifted over calls that are lost, answered in vain, or fatal.
\<close>

section \<open>Calls and the nodes they reach\<close>

definition nodes_in :: "string set \<Rightarrow> ('db participant \<Rightarrow> bool) \<Rightarrow> 'db cluster \<Rightarrow> bool" where
  "nodes_in A P w \<longleftrightarrow> (\<forall>a \<in> A. \<forall>p. cl_nodes w a = Some p \<longrightarrow> P p)"

definition node_at :: "'db cluster \<Rightarrow> u32 \<Rightarrow> string \<Rightarrow> bool" where
  "node_at w n a \<longleftrightarrow> (\<exists>p. cl_nodes w a = Some p \<and> pt_next_id p = n)"

lemma nodes_inD: "nodes_in A P w \<Longrightarrow> a \<in> A \<Longrightarrow> cl_nodes w a = Some p \<Longrightarrow> P p"
  by (simp add: nodes_in_def)

lemma cluster_call_cases:
  assumes "cluster_call ldb be w a req = (w', res)"
  obtains (lost) "cl_nodes w' = cl_nodes w" "res = None"
  | (down) "cl_nodes w' = (cl_nodes w)(a := None)" "res = None"
  | (served) p r p' where "cl_nodes w a = Some p" "serve ldb be req p = Inr (r, p')"
      "cl_nodes w' = (cl_nodes w)(a := Some p')" "res = None \<or> res = Some r"
proof -
  obtain f w1 where f: "next_fault w = (f, w1)" by fastforce
  note n = nodes_next_fault [OF f]
  obtain w2 r2 where d: "deliver ldb be a req w1 = (w2, r2)" by fastforce
  have "(cl_nodes w2 = cl_nodes w \<or> cl_nodes w2 = (cl_nodes w)(a := None)) \<and> r2 = None
      \<or> (\<exists>p r p'. cl_nodes w a = Some p \<and> serve ldb be req p = Inr (r, p')
           \<and> cl_nodes w2 = (cl_nodes w)(a := Some p') \<and> r2 = Some r)"
    using d n by (auto simp: deliver_def split: option.splits sum.splits if_splits)
  with assms f d n show thesis
    by (cases f) (auto simp: cluster_call_def intro: lost down served)
qed

lemma rpc_call_cases:
  assumes "rpc_call (cluster_call ldb be) a req s = (res, s')"
  obtains (lost) "cl_nodes (co_world s') = cl_nodes (co_world s)" "res = None"
  | (down) "cl_nodes (co_world s') = (cl_nodes (co_world s))(a := None)" "res = None"
  | (served) p r p' where "cl_nodes (co_world s) a = Some p" "serve ldb be req p = Inr (r, p')"
      "cl_nodes (co_world s') = (cl_nodes (co_world s))(a := Some p')" "res = None \<or> res = Some r"
  using rpc_call_rest(8) [OF assms] by (cases rule: cluster_call_cases) auto

lemma rpc_nodes:
  assumes "rpc_call (cluster_call ldb be) a req s = (res, s')" "nodes_in A P (co_world s)" "a \<in> A"
    "\<And>p r p'. cl_nodes (co_world s) a = Some p \<Longrightarrow> P p \<Longrightarrow> serve ldb be req p = Inr (r, p') \<Longrightarrow> P p'"
  shows "nodes_in A P (co_world s')"
  using assms(1) by (cases rule: rpc_call_cases) (use assms(2-4) in \<open>auto simp: nodes_in_def\<close>)

lemma rpc_other:
  assumes "rpc_call (cluster_call ldb be) a req s = (res, s')" "b \<noteq> a"
  shows "cl_nodes (co_world s') b = cl_nodes (co_world s) b"
  using assms(1) by (cases rule: rpc_call_cases) (use assms(2) in auto)

lemma rpc_answered:
  assumes "rpc_call (cluster_call ldb be) a req s = (Some r, s')"
  obtains p p' where "cl_nodes (co_world s) a = Some p" "serve ldb be req p = Inr (r, p')"
    "cl_nodes (co_world s') a = Some p'"
  using assms by (cases rule: rpc_call_cases) auto

text \<open>What the loops over the participants leave alone: everything but the map and the nodes.\<close>

definition calls_only :: "'db cluster coordinator \<Rightarrow> 'db cluster coordinator \<Rightarrow> bool" where
  "calls_only s s' \<longleftrightarrow>
     (\<exists>P. co_participants s' = filter P (co_participants s))
     \<and> co_log s' = co_log s \<and> co_next_id s' = co_next_id s \<and> co_conf s' = co_conf s
     \<and> co_recovered s' = co_recovered s \<and> co_del_keys s' = co_del_keys s \<and> co_net s' = co_net s"

lemma calls_only_refl [simp]: "calls_only s s"
  by (auto simp: calls_only_def intro: exI [of _ "\<lambda>_. True"])

lemma calls_only_trans: "calls_only s t \<Longrightarrow> calls_only t u \<Longrightarrow> calls_only s u"
  by (auto simp: calls_only_def)

lemma calls_only_rpc:
  assumes "rpc_call call a req s = (res, s')"
  shows "calls_only s s'" "calls_only s (drop_participant a s')"
  using rpc_call_rest [OF assms]
  by (auto simp: calls_only_def drop_participant_def os_erase_def intro: exI [of _ "\<lambda>_. True"])

lemma calls_only_sub: "calls_only s s' \<Longrightarrow> set (co_participants s') \<subseteq> set (co_participants s)"
  by (auto simp: calls_only_def)

lemma calls_only_distinct: "calls_only s s' \<Longrightarrow> distinct (co_participants s) \<Longrightarrow> distinct (co_participants s')"
  by (auto simp: calls_only_def)

lemma drop_sel [simp]:
  "co_participants (drop_participant a s) = filter (\<lambda>b. b \<noteq> a) (co_participants s)"
  "co_world (drop_participant a s) = co_world s" "co_next_id (drop_participant a s) = co_next_id s"
  "co_log (drop_participant a s) = co_log s" "co_conf (drop_participant a s) = co_conf s"
  "co_recovered (drop_participant a s) = co_recovered s" "co_del_keys (drop_participant a s) = co_del_keys s"
  by (simp_all add: drop_participant_def os_erase_def)

section \<open>The handlers\<close>

text \<open>PREPARE, with any other commands in the queue.\<close>

lemma serve_prepare_effect:
  assumes "is_update c" "serve ldb be (prepare_request c) p = Inr (r, p')" "None \<notin> set (pt_requests p)"
  shows "r = Res_Bool True \<and> pt_next_id p' = pt_next_id p \<and> pt_db p' = pt_db p
    \<and> set (pt_requests p') \<subseteq> insert (Some c) (set (pt_requests p))"
proof -
  obtain lg where lg: "rm_log_command (Some c) (pt_log p) = Inr lg"
    using encode_command_update [OF assms(1)] by (auto simp: rm_log_command_def)
  have "\<exists>rs. insert_request (Some c) (pt_requests p) = Inr rs \<and> set rs \<subseteq> insert (Some c) (set (pt_requests p))"
    using assms(3) by (auto simp: insert_request_def)
  then obtain rs where rs: "insert_request (Some c) (pt_requests p) = Inr rs"
      "set rs \<subseteq> insert (Some c) (set (pt_requests p))" by blast
  have "\<exists>p1. log_and_queue c p = Inr (True, p1) \<and> pt_next_id p1 = pt_next_id p \<and> pt_db p1 = pt_db p
      \<and> pt_requests p1 = rs"
    by (simp add: log_and_queue_def lg rs(1) Let_def)
  then obtain p1 where p1: "log_and_queue c p = Inr (True, p1)" "pt_next_id p1 = pt_next_id p"
      "pt_db p1 = pt_db p" "pt_requests p1 = rs" by blast
  then have "serve ldb be (prepare_request c) p = Inr (Res_Bool True, p1)"
    by (simp add: prepare_request_def prepare_set_def prepare_del_def respond_def)
  with assms(2) rs(2) p1 show ?thesis by auto
qed

text \<open>COMMIT of the update \<open>c\<close> under way, which is the only command of its id.\<close>

lemma serve_commit_effect:
  assumes st: "leveldb_store ldb view" and c: "is_update c" "cmd_id c = i"
    and s: "serve ldb be (Rpc_COMMIT i) p = Inr (r, p')"
    and q: "\<forall>x \<in> set (pt_requests p). \<exists>d. x = Some d \<and> (cmd_id d = i \<longrightarrow> d = c)"
  obtains (late) "i < pt_next_id p" "p' = p" "r = Res_String []"
  | (now) "pt_next_id p = i" "pt_next_id p' = i + 1" "r = Res_String (snd (apply_command c (view (pt_db p))))"
      "view (pt_db p') = fst (apply_command c (view (pt_db p)))" "set (pt_requests p') \<subseteq> set (pt_requests p)"
proof -
  from s obtain x where h: "commit_handler ldb i p = Inr (x, p')" and r: "r = Res_String x"
    by (auto simp: respond_Inr)
  show thesis
  proof (cases "i < pt_next_id p")
    case True
    with h r have "p' = p \<and> r = Res_String []" by (simp add: commit_handler_def)
    with True show ?thesis by (intro late) simp_all
  next
    case False
    with h have n: "pt_next_id p = i" by (cases "pt_next_id p < i") (simp_all add: commit_handler_def)
    have "\<exists>d rest. pt_requests p = Some d # rest \<and> cmd_id d = i"
    proof (cases "pt_requests p")
      case (Cons x rest)
      with h n show ?thesis by (cases x) (simp_all add: commit_handler_def split: if_splits)
    qed (use h n in \<open>simp add: commit_handler_def\<close>)
    then obtain d rest where d: "pt_requests p = Some d # rest" "cmd_id d = i" by blast
    with q have "d = c" by auto
    with leveldb_store.commit_next [OF st, of d p rest] c d n h
    have "x = snd (apply_command c (view (pt_db p)))" "view (pt_db p') = fst (apply_command c (view (pt_db p)))"
      "pt_next_id p' = i + 1" "pt_requests p' = rest" by auto
    with r d(1) n show ?thesis by (intro now) auto
  qed
qed

lemma serve_abort_effect:
  assumes "serve ldb be (Rpc_ABORT i) p = Inr (r, p')" "i \<le> pt_next_id p"
  shows "r = Res_Bool True \<and> pt_db p' = pt_db p \<and> set (pt_requests p') \<subseteq> set (pt_requests p)
    \<and> pt_next_id p' = (if pt_next_id p = i then i + 1 else pt_next_id p)"
  using assms by (auto simp: respond_Inr abort_handler_def Let_def split: if_splits dest: in_set_dropD)

lemma serve_reading:
  assumes "serve ldb be req p = Inr (r, p')" "req \<in> {Rpc_HEARTBEAT, Rpc_NEXT_ID, Rpc_GET_SNAPSHOT} \<or> (\<exists>c. req = Rpc_GET c)"
  shows "p' = p"
  using assms by (auto simp: respond_Inr heartbeat_def next_id_handler_def get_snapshot_def get_handler_def)


section \<open>An update and all nodes\<close>

text \<open>
  Between the start of the update \<open>c\<close> with id \<open>i\<close> on store \<open>m\<close> and its end, a node that has
  reached the coordinator's next id has applied it, one that still expects \<open>i\<close> has not, and any
  other has been left behind before.
\<close>

definition mid_update :: "('db \<Rightarrow> store) \<Rightarrow> u32 \<Rightarrow> command \<Rightarrow> store \<Rightarrow> string set \<Rightarrow> 'db participant \<Rightarrow> bool" where
  "mid_update view i c m ks p \<longleftrightarrow>
     pt_next_id p \<le> i + 1
     \<and> (pt_next_id p = i \<longrightarrow> view (pt_db p) = m)
     \<and> (pt_next_id p = i + 1 \<longrightarrow> view (pt_db p) = fst (apply_command c m))
     \<and> dom (view (pt_db p)) \<subseteq> dom m \<union> dom (fst (apply_command c m)) \<union> ks
     \<and> (\<forall>r \<in> set (pt_requests p). \<exists>d. r = Some d \<and> (cmd_id d < i \<or> d = c))"

lemma mid_update_queue:
  assumes "mid_update view i c m ks p" "x \<in> set (pt_requests p)"
  shows "\<exists>d. x = Some d \<and> (cmd_id d = i \<longrightarrow> d = c)"
  using assms unfolding mid_update_def by (metis less_irrefl)

lemma mid_update_prepared:
  assumes "mid_update view i c m ks p" "pt_next_id p' = pt_next_id p" "pt_db p' = pt_db p"
    "set (pt_requests p') \<subseteq> insert (Some c) (set (pt_requests p))"
  shows "mid_update view i c m ks p'"
proof -
  have "\<forall>r \<in> set (pt_requests p'). \<exists>d. r = Some d \<and> (cmd_id d < i \<or> d = c)"
    using assms(1,4) unfolding mid_update_def by blast
  with assms(1-3) show ?thesis by (simp add: mid_update_def)
qed

lemma mid_update_committed:
  assumes "mid_update view i c m ks p" "pt_next_id p = i" "pt_next_id p' = i + 1"
    "view (pt_db p') = fst (apply_command c (view (pt_db p)))" "set (pt_requests p') \<subseteq> set (pt_requests p)"
  shows "mid_update view i c m ks p'"
proof -
  have "\<forall>r \<in> set (pt_requests p'). \<exists>d. r = Some d \<and> (cmd_id d < i \<or> d = c)"
    using assms(1,5) unfolding mid_update_def by blast
  moreover have "view (pt_db p') = fst (apply_command c m)" using assms(1,2,4) by (simp add: mid_update_def)
  ultimately show ?thesis using assms(3) by (auto simp: mid_update_def)
qed

lemma prepare_loop_nodes:
  assumes c: "is_update c" and P: "P = (\<lambda>p. mid_update view i c m ks p \<and> Q (pt_next_id p) (pt_db p))"
  shows "prepare_loop (cluster_call ldb be) (prepare_request c) as dead s = (ok, d, s') \<Longrightarrow>
    set as \<subseteq> A \<Longrightarrow> nodes_in A P (co_world s) \<Longrightarrow> \<forall>a \<in> set (co_participants s). node_at (co_world s) i a \<Longrightarrow>
    ok \<and> calls_only s s' \<and> nodes_in A P (co_world s') \<and> (\<forall>a \<in> set (co_participants s'). node_at (co_world s') i a)"
proof (induction as arbitrary: dead s)
  case (Cons a as)
  let ?call = "cluster_call ldb be" and ?req = "prepare_request c"
  obtain res s1 where r: "rpc_call ?call a ?req s = (res, s1)" by fastforce
  have eff: "x = Res_Bool True \<and> pt_next_id p' = pt_next_id p \<and> P p'"
    if "P p" "serve ldb be ?req p = Inr (x, p')" for p x p'
  proof -
    have m: "mid_update view i c m ks p" using that(1) by (simp add: P)
    then have "None \<notin> set (pt_requests p)" using mid_update_queue by blast
    from serve_prepare_effect [OF c that(2) this] that(1) mid_update_prepared [OF m, of p'] show ?thesis
      by (simp add: P)
  qed
  have n1: "nodes_in A P (co_world s1)"
  proof (rule rpc_nodes [OF r Cons.prems(3)])
    show "a \<in> A" using Cons.prems(2) by simp
  qed (use eff in blast)
  have at1: "\<forall>b \<in> set (co_participants s) - {a}. node_at (co_world s1) i b"
    using rpc_other [OF r] Cons.prems(4) by (auto simp: node_at_def)
  note same = rpc_call_rest [OF r] calls_only_rpc [OF r]
  show ?case
  proof (cases "as_bool res")
    case None
    then have "prepare_loop ?call ?req as True (drop_participant a s1) = (ok, d, s')" using Cons.prems(1) r by simp
    from Cons.IH [OF this] Cons.prems(2) n1 at1 same show ?thesis
      by (auto intro: calls_only_trans)
  next
    case (Some b)
    then have "res = Some (Res_Bool b)" by (simp add: as_bool_Some)
    with r obtain p p' where p: "cl_nodes (co_world s) a = Some p" "serve ldb be ?req p = Inr (Res_Bool b, p')"
      "cl_nodes (co_world s1) a = Some p'" by (auto elim: rpc_answered)
    have "P p" by (rule nodes_inD [OF Cons.prems(3) _ p(1)]) (use Cons.prems(2) in simp)
    from eff [OF this p(2)] have b: b "pt_next_id p' = pt_next_id p" by auto
    have "node_at (co_world s1) i a" if "a \<in> set (co_participants s)"
      using Cons.prems(4) that p b(2) by (auto simp: node_at_def)
    with at1 have at: "\<forall>b \<in> set (co_participants s). node_at (co_world s1) i b" by blast
    have "prepare_loop ?call ?req as dead s1 = (ok, d, s')" using Cons.prems(1) r Some b(1) by simp
    from Cons.IH [OF this _ n1] Cons.prems(2) at same show ?thesis
      by (auto intro: calls_only_trans)
  qed
qed simp

lemma commit_loop_nodes:
  fixes m
  assumes st: "leveldb_store ldb view" and c: "is_update c" "cmd_id c = i" and i: "i + 1 \<noteq> 0"
  defines "y \<equiv> snd (apply_command c m)"
  shows "commit_loop (cluster_call ldb be) i as ret dead s = (x, d, s') \<Longrightarrow> distinct as \<Longrightarrow>
    set as \<subseteq> A \<Longrightarrow> nodes_in A (mid_update view i c m ks) (co_world s) \<Longrightarrow>
    \<forall>a \<in> set as. node_at (co_world s) i a \<Longrightarrow>
    \<forall>a \<in> set (co_participants s) - set as. node_at (co_world s) (i + 1) a \<Longrightarrow>
    ret = [] \<or> ret = y \<Longrightarrow> ret = y \<or> set (co_participants s) \<subseteq> set as \<Longrightarrow>
    calls_only s s' \<and> nodes_in A (mid_update view i c m ks) (co_world s')
    \<and> (\<forall>a \<in> set (co_participants s'). node_at (co_world s') (i + 1) a)
    \<and> (x = [] \<or> x = y) \<and> (co_participants s' \<noteq> [] \<longrightarrow> x = y)"
proof (induction as arbitrary: ret dead s)
  case (Cons a as)
  let ?call = "cluster_call ldb be" and ?req = "Rpc_COMMIT i" and ?P = "mid_update view i c m ks"
  obtain res s1 where r: "rpc_call ?call a ?req s = (res, s1)" by fastforce
  have eff: "?P p' \<and> (pt_next_id p = i \<longrightarrow> z = Res_String y \<and> pt_next_id p' = i + 1)"
    if "?P p" "serve ldb be ?req p = Inr (z, p')" for p z p'
  proof -
    have "\<forall>x \<in> set (pt_requests p). \<exists>d. x = Some d \<and> (cmd_id d = i \<longrightarrow> d = c)"
      using mid_update_queue [OF that(1)] by blast
    from st c that(2) this show ?thesis
    proof (cases rule: serve_commit_effect)
      case now
      have "view (pt_db p) = m" using that(1) now(1) by (simp add: mid_update_def)
      with now mid_update_committed [OF that(1) now(1,2,4,5)] show ?thesis by (simp add: y_def)
    qed (use that(1) in auto)
  qed
  have n1: "nodes_in A ?P (co_world s1)"
  proof (rule rpc_nodes [OF r Cons.prems(4)])
    show "a \<in> A" using Cons.prems(3) by simp
  qed (use eff in blast)
  have other: "node_at (co_world s1) n b = node_at (co_world s) n b" if "b \<noteq> a" for n b
    using rpc_other [OF r that] by (simp add: node_at_def)
  note same = rpc_call_rest [OF r] calls_only_rpc [OF r]
  have todo: "\<forall>b \<in> set as. node_at (co_world s1) i b" using Cons.prems(2,5) other by (metis distinct.simps(2) list.set_intros(2))
  show ?case
  proof (cases "as_string res")
    case None
    then have l: "commit_loop ?call i as ret True (drop_participant a s1) = (x, d, s')" using Cons.prems(1) r by simp
    have "\<forall>b \<in> set (co_participants (drop_participant a s1)) - set as. node_at (co_world s1) (i + 1) b"
      using Cons.prems(6) other same(1) by auto
    moreover have "ret = y \<or> set (co_participants (drop_participant a s1)) \<subseteq> set as"
      using Cons.prems(8) same(1) by auto
    ultimately show ?thesis using Cons.IH [OF l] Cons.prems(2,3,7) n1 todo calls_only_trans [OF same(10)] by simp
  next
    case (Some z)
    then have "res = Some (Res_String z)" by (simp add: as_string_Some)
    with r obtain p p' where p: "cl_nodes (co_world s) a = Some p" "serve ldb be ?req p = Inr (Res_String z, p')"
      "cl_nodes (co_world s1) a = Some p'" by (auto elim: rpc_answered)
    have "?P p" by (rule nodes_inD [OF Cons.prems(4) _ p(1)]) (use Cons.prems(3) in simp)
    moreover have "pt_next_id p = i" using Cons.prems(5) p(1) by (simp add: node_at_def)
    ultimately have "?P p" "pt_next_id p = i" by simp_all
    with eff [OF this(1) p(2)] have z: "z = y" "pt_next_id p' = i + 1" by auto
    then have "node_at (co_world s1) (i + 1) a" using p(3) by (simp add: node_at_def)
    then have "\<forall>b \<in> set (co_participants s1) - set as. node_at (co_world s1) (i + 1) b"
      using Cons.prems(6) other same(1) by (metis Diff_iff set_ConsD)
    moreover have "commit_loop ?call i as (if ret = [] then z else ret) dead s1 = (x, d, s')"
      using Cons.prems(1) r Some by simp
    moreover have "(if ret = [] then z else ret) = y" using z Cons.prems(7) by auto
    ultimately show ?thesis using Cons.IH [of y dead s1] Cons.prems(2,3) n1 todo same
      by (auto intro: calls_only_trans)
  qed
qed auto

section \<open>The state between requests\<close>

text \<open>
  What holds of a participant, wherever it has been lost: it is not ahead; when it expects the
  next id \<open>n\<close> it has the common store \<open>m\<close>; when it expects the one before, and the record of
  that request is unresolved, it has \<open>m\<close> as well; what it stores besides has been noted as
  deleted; and the requests stuck in its queue have older ids.
\<close>

definition node_ok :: "('db \<Rightarrow> store) \<Rightarrow> u32 \<Rightarrow> store \<Rightarrow> string set \<Rightarrow> bool \<Rightarrow> 'db participant \<Rightarrow> bool" where
  "node_ok view n m ks un p \<longleftrightarrow>
     pt_next_id p \<le> n
     \<and> (pt_next_id p = n \<or> un \<and> pt_next_id p + 1 = n \<longrightarrow> view (pt_db p) = m)
     \<and> dom (view (pt_db p)) \<subseteq> dom m \<union> ks
     \<and> (\<forall>r \<in> set (pt_requests p). \<exists>d. r = Some d \<and> cmd_id d < n)"

text \<open>An unfinished record is left only when the last participant was lost during its request.\<close>

definition pending_ok :: "'db cluster coordinator \<Rightarrow> bool" where
  "pending_ok s \<longleftrightarrow>
     rm_records (co_log s) = []
     \<or> co_participants s = []
       \<and> (\<exists>st \<in> {RECORD_UNRESOLVED, RECORD_COMMIT, RECORD_ABORT}. \<exists>i n.
            rm_records (co_log s) = [(i, make_record st i n)] \<and> co_next_id s = i + 1 \<and> i + 1 \<noteq> 0)"

definition common :: "'db cluster coordinator \<Rightarrow> string set" where
  "common s = set (conf_addresses (co_conf s))"

definition sound_system :: "('db \<Rightarrow> store) \<Rightarrow> 'db cluster coordinator \<Rightarrow> store \<Rightarrow> bool" where
  "sound_system view s m \<longleftrightarrow>
     sound_addresses (co_conf s) \<and> small_store m \<and> pending_ok s
     \<and> distinct (co_participants s) \<and> set (co_participants s) \<subseteq> common s
     \<and> (\<forall>a \<in> set (co_participants s). node_at (co_world s) (co_next_id s) a)
     \<and> nodes_in (common s) (node_ok view (co_next_id s) m (set (co_del_keys s))
          (record_is (co_next_id s - 1) RECORD_UNRESOLVED s)) (co_world s)"

text \<open>So the participants in the map are up and store \<open>m\<close>.\<close>

lemma sound_store:
  assumes "sound_system view s m" "a \<in> set (co_participants s)"
  shows "\<exists>p. cl_nodes (co_world s) a = Some p \<and> pt_next_id p = co_next_id s \<and> view (pt_db p) = m"
proof -
  obtain p where p: "cl_nodes (co_world s) a = Some p" "pt_next_id p = co_next_id s"
    using assms by (auto simp: sound_system_def node_at_def)
  moreover have "a \<in> common s" using assms by (auto simp: sound_system_def)
  ultimately have "node_ok view (co_next_id s) m (set (co_del_keys s))
      (record_is (co_next_id s - 1) RECORD_UNRESOLVED s) p"
    using assms(1) nodes_inD unfolding sound_system_def by blast
  with p show ?thesis by (simp add: node_ok_def)
qed

lemma send_sel [simp]:
  "co_participants (send_result cl x cb t) = co_participants t" "co_world (send_result cl x cb t) = co_world t"
  "co_conf (send_result cl x cb t) = co_conf t" "co_recovered (send_result cl x cb t) = co_recovered t"
  "co_log (send_result cl x cb t) = co_log t" "co_del_keys (send_result cl x cb t) = co_del_keys t"
  "co_next_id (send_result cl x cb t) = co_next_id t"
  by (auto simp: send_result_def split: sum.splits)

lemma sound_system_steps [simp]:
  "sound_system view (send_result cl x cb s) m = sound_system view s m"
  "sound_system view (send_error cl s) m = sound_system view s m"
  "sound_system view (notify_if dead s) m = sound_system view s m"
  "sound_system view (s\<lparr>co_net := net\<rparr>) m = sound_system view s m"
  by (simp_all add: sound_system_def pending_ok_def common_def record_is_def send_error_def)

lemma nodes_in_mono: "nodes_in A P w \<Longrightarrow> (\<And>p. P p \<Longrightarrow> Q p) \<Longrightarrow> nodes_in A Q w"
  by (auto simp: nodes_in_def)

text \<open>A client gets one more answer, if it is still connected; nothing else happens to the connections.\<close>

definition adds_answer :: "nat \<Rightarrow> string \<times> bool \<Rightarrow> 'w coordinator \<Rightarrow> 'w coordinator \<Rightarrow> bool" where
  "adds_answer cl r s s' \<longleftrightarrow>
     n_clients (co_net s') =
       (if tc_connected (n_clients (co_net s) cl)
        then (n_clients (co_net s))(cl := (n_clients (co_net s) cl)\<lparr>tc_writes := owed cl s @ [r]\<rparr>)
        else n_clients (co_net s))"

lemma adds_answer_send:
  "co_net t = co_net s \<Longrightarrow> adds_answer cl (x, cb) s (send_result cl x cb t)"
  by (simp add: adds_answer_def owed_def send_result_def async_write_def put_client_def disconnect_def Let_def)

lemma adds_answer_steps [simp]:
  "adds_answer cl r s (notify_if dead t) = adds_answer cl r s t"
  "adds_answer cl r s (remember_deleted c t) = adds_answer cl r s t"
  by (simp_all add: adds_answer_def)

section \<open>A request\<close>

text \<open>
  The request \<open>c\<close> on store \<open>m\<close> is answered with a text, after which the connection is closed or
  not, and leaves \<open>m'\<close>. The error that closes the connection says that nothing has been done; the
  empty text, which only an update can get, leaves open whether a participant will be found that
  has done it.
\<close>

definition outcome :: "command \<Rightarrow> store \<Rightarrow> string \<times> bool \<Rightarrow> store \<Rightarrow> bool" where
  "outcome c m r m' \<longleftrightarrow>
     (if snd r then fst r = error_string \<and> m' = m
      else m' = fst (apply_command c m) \<and> (fst r = answer c m \<or> is_update c \<and> fst r = []))"

definition served_request ::
    "('db \<Rightarrow> store) \<Rightarrow> nat \<Rightarrow> command \<Rightarrow> store \<Rightarrow> 'db cluster coordinator \<Rightarrow> 'db cluster coordinator \<Rightarrow> bool" where
  "served_request view cl c m s s' \<longleftrightarrow>
     (\<exists>r m'. outcome c m r m' \<and> sound_system view s' m' \<and> adds_answer cl r s s'
        \<and> (co_participants s' \<noteq> [] \<longrightarrow> r = (answer c m, False)))
     \<and> co_conf s' = co_conf s \<and> co_recovered s' = co_recovered s
     \<and> (co_next_id s' = co_next_id s \<or> co_next_id s' = co_next_id s + 1)"

lemma refused_request:
  assumes "sound_system view t m" "co_participants t = []" "co_net t = co_net s" "co_conf t = co_conf s"
    "co_recovered t = co_recovered s" "co_next_id t = co_next_id s \<or> co_next_id t = co_next_id s + 1"
  shows "served_request view cl c m s (send_error cl t)"
proof -
  have "adds_answer cl (error_string, True) s (send_error cl t)"
    using adds_answer_send [OF assms(3)] by (simp add: send_error_def)
  with assms show ?thesis
    by (auto simp: served_request_def outcome_def send_error_def intro!: exI [of _ m] exI [of _ "(error_string, True)"])
qed

lemma served_request_steps [simp]:
  "served_request view cl c m s (notify_if dead t) = served_request view cl c m s t"
  by (simp add: served_request_def)

lemma sound_same:
  assumes "calls_only s s'" "sound_system view s m"
    "nodes_in (common s) (node_ok view (co_next_id s) m (set (co_del_keys s))
        (record_is (co_next_id s - 1) RECORD_UNRESOLVED s)) (co_world s')"
    "\<forall>a \<in> set (co_participants s'). node_at (co_world s') (co_next_id s) a"
  shows "sound_system view s' m"
  using assms by (auto simp: sound_system_def calls_only_def pending_ok_def common_def record_is_def)

text \<open>GET leaves every node it does not lose as it is.\<close>

lemma get_loop_served:
  assumes st: "leveldb_store ldb view"
  shows "get_loop (cluster_call ldb be) cl (Get_Command k) as dead s = (d, s') \<Longrightarrow> sound_system view s m \<Longrightarrow>
    distinct as \<Longrightarrow> set as = set (co_participants s) \<Longrightarrow>
    calls_only s0 s \<Longrightarrow>
    served_request view cl (Get_Command k) m s0 s'"
proof (induction as arbitrary: dead s)
  case Nil
  then show ?case by (auto simp: calls_only_def intro!: refused_request)
next
  case (Cons a as)
  let ?req = "Rpc_GET (Get_Command k)"
  let ?P = "node_ok view (co_next_id s) m (set (co_del_keys s)) (record_is (co_next_id s - 1) RECORD_UNRESOLVED s)"
  obtain res s1 where r: "rpc_call (cluster_call ldb be) a ?req s = (res, s1)" by fastforce
  note co = calls_only_rpc [OF r]
  have a: "a \<in> set (co_participants s)" "a \<in> common s" using Cons.prems(2,4) by (auto simp: sound_system_def)
  have n1: "nodes_in (common s) ?P (co_world s1)"
  proof (rule rpc_nodes [OF r _ a(2)])
    show "nodes_in (common s) ?P (co_world s)" using Cons.prems(2) by (simp add: sound_system_def)
  next
    fix p x p' assume "?P p" "serve ldb be ?req p = Inr (x, p')"
    with serve_reading [of ldb be ?req p x p'] show "?P p'" by simp
  qed
  have other: "\<forall>b \<in> set (co_participants s) - {a}. node_at (co_world s1) (co_next_id s) b"
    using Cons.prems(2) rpc_other [OF r] by (auto simp: sound_system_def node_at_def)
  show ?case
  proof (cases "as_string res")
    case None
    then have l: "get_loop (cluster_call ldb be) cl (Get_Command k) as True (drop_participant a s1) = (d, s')"
      using Cons.prems(1) r by simp
    have "sound_system view (drop_participant a s1) m"
      by (rule sound_same [OF co(2) Cons.prems(2)]) (use n1 other rpc_call_rest(1) [OF r] in auto)
    moreover have "set as = set (co_participants (drop_participant a s1))"
      using Cons.prems(3,4) rpc_call_rest(1) [OF r] by auto
    ultimately show ?thesis
      using Cons.IH [OF l] Cons.prems(3) calls_only_trans [OF Cons.prems(5) co(2)] by simp
  next
    case (Some x)
    then have "res = Some (Res_String x)" by (simp add: as_string_Some)
    with r obtain p p' where p: "cl_nodes (co_world s) a = Some p" "serve ldb be ?req p = Inr (Res_String x, p')"
      "cl_nodes (co_world s1) a = Some p'" by (auto elim: rpc_answered)
    have p': "p' = p" using serve_reading [OF p(2)] by blast
    have v: "view (pt_db p) = m" "pt_next_id p = co_next_id s" using sound_store [OF Cons.prems(2) a(1)] p(1) by auto
    have x: "x = answer (Get_Command k) m"
      using p(2) v(1) leveldb_store.get_view [OF st]
      by (auto simp: respond_Inr get_handler_def answer_def split: option.splits)
    have "node_at (co_world s1) (co_next_id s) a" using p(3) p' v(2) by (simp add: node_at_def)
    with other have "\<forall>b \<in> set (co_participants s1). node_at (co_world s1) (co_next_id s) b"
      using rpc_call_rest(1) [OF r] by auto
    from sound_same [OF co(1) Cons.prems(2) n1 this] have snd: "sound_system view s1 m" .
    have s': "s' = send_result cl x False s1" using Cons.prems(1) r Some by simp
    note co1 = calls_only_trans [OF Cons.prems(5) co(1)]
    have "adds_answer cl (x, False) s0 s'"
      unfolding s' by (rule adds_answer_send) (use co1 in \<open>simp add: calls_only_def\<close>)
    moreover have "outcome (Get_Command k) m (x, False) m" using x by (simp add: outcome_def)
    ultimately show ?thesis
      using snd co1 x unfolding served_request_def s' by (auto simp: calls_only_def)
  qed
qed

lemma served_get_request:
  assumes "leveldb_store ldb view" "sound_system view s m"
  shows "served_request view cl (Get_Command k) m s (handle_db_get_request (cluster_call ldb be) cl (Get_Command k) s)"
proof -
  obtain d s1 where g: "get_loop (cluster_call ldb be) cl (Get_Command k) (co_participants s) False s = (d, s1)"
    by fastforce
  have "distinct (co_participants s)" using assms(2) by (simp add: sound_system_def)
  from get_loop_served [OF assms(1) g assms(2) this refl calls_only_refl] g
  show ?thesis
    using refused_request [OF assms(2) _ refl refl refl] by (auto simp: handle_db_get_request_def)
qed
text \<open>An update: after PREPARE has gone around, and after COMMIT has.\<close>

definition small_command :: "command \<Rightarrow> bool" where
  "small_command c = (case c of Set_Command i k v \<Rightarrow> pair_small (k, v) | _ \<Rightarrow> True)"

lemma small_apply:
  assumes "small_store m" "small_command c"
  shows "small_store (fst (apply_command c m))"
proof (cases c)
  case (Set_Command i k v)
  then show ?thesis using assms by (auto simp: small_store_def small_command_def Map.graph_def split: if_splits)
next
  case (Del_Command i ks)
  then show ?thesis using assms by (auto simp: small_store_def Map.graph_def restrict_map_def split: if_splits)
qed (use assms in simp)

lemma word_step: "(i :: u32) + 1 \<noteq> 0 \<Longrightarrow> i < i + 1"
  by (metis add.commute lessI unatSuc word_less_nat_alt)

definition prepared_node :: "('db \<Rightarrow> store) \<Rightarrow> u32 \<Rightarrow> command \<Rightarrow> store \<Rightarrow> string set \<Rightarrow> 'db participant \<Rightarrow> bool" where
  "prepared_node view i c m ks p \<longleftrightarrow>
     mid_update view i c m ks p \<and> pt_next_id p \<le> i \<and> dom (view (pt_db p)) \<subseteq> dom m \<union> ks"

lemma node_ok_prepared:
  assumes "node_ok view i m ks un p" "i + 1 \<noteq> 0"
  shows "prepared_node view i c m ks p"
  using assms word_step [OF assms(2)] by (auto simp: prepared_node_def mid_update_def node_ok_def)

lemma queue_older:
  assumes "mid_update view i c m ks p" "i + 1 \<noteq> 0" "cmd_id c = i"
  shows "\<forall>r \<in> set (pt_requests p). \<exists>d. r = Some d \<and> cmd_id d < i + 1"
proof
  fix r assume "r \<in> set (pt_requests p)"
  then obtain d where d: "r = Some d" "cmd_id d < i \<or> d = c"
    using assms(1) unfolding mid_update_def by blast
  then have "cmd_id d \<le> i" using assms(3) by auto
  with d(1) word_step [OF assms(2)] show "\<exists>d. r = Some d \<and> cmd_id d < i + 1" by fastforce
qed

lemma prepared_node_ok:
  assumes "prepared_node view i c m ks p" "i + 1 \<noteq> 0" "cmd_id c = i"
  shows "node_ok view (i + 1) m ks un p"
proof -
  have m: "mid_update view i c m ks p" "pt_next_id p \<le> i" "dom (view (pt_db p)) \<subseteq> dom m \<union> ks"
    using assms(1) by (simp_all add: prepared_node_def)
  have "pt_next_id p < i + 1" using m(2) word_step [OF assms(2)] by (rule le_less_trans)
  then have le: "pt_next_id p \<le> i + 1" "pt_next_id p \<noteq> i + 1" by (rule less_imp_le, blast dest: less_imp_neq)
  moreover have "view (pt_db p) = m" if "pt_next_id p + 1 = i + 1"
  proof -
    have "pt_next_id p = i" using that by (rule add_right_imp_eq)
    with m(1) show ?thesis unfolding mid_update_def by blast
  qed
  ultimately show ?thesis
    unfolding node_ok_def using m(3) queue_older [OF m(1) assms(2,3)] by blast
qed

lemma mid_update_ok:
  assumes "mid_update view i c m ks p" "i + 1 \<noteq> 0" "cmd_id c = i"
    "dom m \<union> ks \<subseteq> dom (fst (apply_command c m)) \<union> ks' \<or> pt_next_id p = i + 1"
  shows "node_ok view (i + 1) (fst (apply_command c m)) ks' False p"
proof -
  let ?m = "fst (apply_command c m)"
  have m: "pt_next_id p \<le> i + 1" "pt_next_id p = i + 1 \<longrightarrow> view (pt_db p) = ?m"
    "dom (view (pt_db p)) \<subseteq> dom m \<union> dom ?m \<union> ks" using assms(1) unfolding mid_update_def by - (elim conjE, assumption)+
  have "dom (view (pt_db p)) \<subseteq> dom ?m \<union> ks'"
    using assms(4)
  proof
    assume "dom m \<union> ks \<subseteq> dom ?m \<union> ks'"
    with m(3) show ?thesis by (meson Un_least Un_upper1 order_trans Un_subset_iff)
  qed (use m(2) in simp)
  with queue_older [OF assms(1-3)] m(1,2) show ?thesis unfolding node_ok_def by (intro conjI) simp_all
qed

lemma sound_records: "sound_system view s m \<Longrightarrow> co_participants s \<noteq> [] \<Longrightarrow> rm_records (co_log s) = []"
  by (auto simp: sound_system_def pending_ok_def)

lemma update_started:
  assumes snd: "sound_system view s m" and ne: "co_participants s \<noteq> []" and c: "is_update c"
    and i: "co_next_id s + 1 \<noteq> 0"
    and mk: "mk (set_id (co_next_id s) c) = prepare_request (set_id (co_next_id s) c)"
    and st: "start_update (cluster_call ldb be) mk c s = (ok, d, cmd, s1)"
  shows "ok" "cmd = set_id (co_next_id s) c" "calls_only (log_status RECORD_UNRESOLVED (co_next_id s) (take_id s)) s1"
    "nodes_in (common s) (prepared_node view (co_next_id s) cmd m (set (co_del_keys s))) (co_world s1)"
    "\<forall>a \<in> set (co_participants s1). node_at (co_world s1) (co_next_id s) a"
proof -
  let ?i = "co_next_id s" and ?c = "set_id (co_next_id s) c" and ?ks = "set (co_del_keys s)"
  let ?t = "log_status RECORD_UNRESOLVED ?i (take_id s)"
  have cmd: "cmd = ?c" "prepare_loop (cluster_call ldb be) (prepare_request ?c) (co_participants s) False ?t = (ok, d, s1)"
    using st mk c by (auto simp: start_update_def take_id_def Let_def split: prod.splits)
  have P: "prepared_node view ?i ?c m ?ks =
      (\<lambda>p. mid_update view ?i ?c m ?ks p \<and> (\<lambda>n db. n \<le> ?i \<and> dom (view db) \<subseteq> dom m \<union> ?ks) (pt_next_id p) (pt_db p))"
    by (simp add: fun_eq_iff prepared_node_def)
  have "nodes_in (common s) (prepared_node view ?i ?c m ?ks) (co_world ?t)"
    by (rule nodes_in_mono [where P = "node_ok view ?i m ?ks (record_is (?i - 1) RECORD_UNRESOLVED s)"])
      (use snd node_ok_prepared [OF _ i] in \<open>auto simp: sound_system_def take_id_def\<close>)
  with prepare_loop_nodes [OF _ P cmd(2), of "common s"] c snd cmd(1)
  show "ok" "cmd = ?c" "calls_only ?t s1" "nodes_in (common s) (prepared_node view ?i cmd m ?ks) (co_world s1)"
    "\<forall>a \<in> set (co_participants s1). node_at (co_world s1) ?i a"
    by (auto simp: sound_system_def take_id_def)
qed

text \<open>The log of an update that nobody survives.\<close>

lemma record_lists:
  assumes "rm_records lg = []"
  shows "rm_records (rm_log (make_record RECORD_UNRESOLVED i n) lg) = [(i, make_record RECORD_UNRESOLVED i n)]"
    "rm_records (rm_log (make_record RECORD_COMMIT i n') (rm_log (make_record RECORD_UNRESOLVED i n) lg)) =
       [(i, make_record RECORD_COMMIT i n')]"
  using assms
  by (simp_all add: rm_records_rm_log make_record_def is_done_status_def record_statuses om_put_def)

lemma nobody_prepared:
  assumes snd: "sound_system view s m" and ne: "co_participants s \<noteq> []" and i: "co_next_id s + 1 \<noteq> 0"
    and c: "is_update c" and co: "calls_only (log_status RECORD_UNRESOLVED (co_next_id s) (take_id s)) s1"
    and nodes: "nodes_in (common s) (prepared_node view (co_next_id s) (set_id (co_next_id s) c) m (set (co_del_keys s))) (co_world s1)"
    and none: "co_participants s1 = []"
  shows "sound_system view s1 m"
proof -
  let ?i = "co_next_id s"
  have f: "co_log s1 = rm_log (make_record RECORD_UNRESOLVED ?i (?i + 1)) (co_log s)" "co_next_id s1 = ?i + 1"
    "co_conf s1 = co_conf s" "co_recovered s1 = co_recovered s" "co_del_keys s1 = co_del_keys s"
    using co by (simp_all add: calls_only_def take_id_def)
  have "nodes_in (common s) (node_ok view (?i + 1) m (set (co_del_keys s)) (record_is ?i RECORD_UNRESOLVED s1)) (co_world s1)"
    by (rule nodes_in_mono [OF nodes]) (rule prepared_node_ok [OF _ i cmd_id_set_id [OF c]])
  moreover have "pending_ok s1"
    using record_lists(1) [OF sound_records [OF snd ne]] f none i by (auto simp: pending_ok_def)
  ultimately show ?thesis using snd f none by (simp add: sound_system_def common_def)
qed
definition update_done ::
    "('db \<Rightarrow> store) \<Rightarrow> command \<Rightarrow> store \<Rightarrow> 'db cluster coordinator \<Rightarrow> 'db cluster coordinator \<Rightarrow> bool" where
  "update_done view c m s s' \<longleftrightarrow>
     nodes_in (common s) (mid_update view (co_next_id s) (set_id (co_next_id s) c) m (set (co_del_keys s))) (co_world s')
     \<and> (\<forall>a \<in> set (co_participants s'). node_at (co_world s') (co_next_id s + 1) a)
     \<and> co_next_id s' = co_next_id s + 1 \<and> co_conf s' = co_conf s \<and> co_recovered s' = co_recovered s
     \<and> co_del_keys s' = co_del_keys s \<and> distinct (co_participants s') \<and> set (co_participants s') \<subseteq> common s
     \<and> (rm_records (co_log s') = []
        \<or> co_participants s' = [] \<and> (\<exists>n. rm_records (co_log s') = [(co_next_id s, make_record RECORD_COMMIT (co_next_id s) n)]))"

lemma update_committed:
  assumes st: "leveldb_store ldb view" and snd: "sound_system view s m" and ne: "co_participants s \<noteq> []"
    and c: "is_update c" and i: "co_next_id s + 1 \<noteq> 0"
    and co: "calls_only (log_status RECORD_UNRESOLVED (co_next_id s) (take_id s)) s1"
    and nodes: "nodes_in (common s) (prepared_node view (co_next_id s) (set_id (co_next_id s) c) m (set (co_del_keys s))) (co_world s1)"
    and at1: "\<forall>a \<in> set (co_participants s1). node_at (co_world s1) (co_next_id s) a"
    and cr: "commit_db_request (cluster_call ldb be) (Some cl) (co_next_id s) d s1 = (d2, s2)"
  shows "update_done view c m s s2 \<and> (\<exists>x. adds_answer cl (x, False) s s2
    \<and> (x = [] \<or> x = snd (apply_command c m)) \<and> (co_participants s2 \<noteq> [] \<longrightarrow> x = snd (apply_command c m)))"
proof -
  let ?i = "co_next_id s" and ?cmd = "set_id (co_next_id s) c" and ?ks = "set (co_del_keys s)"
  let ?t = "log_status RECORD_COMMIT ?i s1"
  have f: "co_log s1 = rm_log (make_record RECORD_UNRESOLVED ?i (?i + 1)) (co_log s)" "co_next_id s1 = ?i + 1"
    "co_conf s1 = co_conf s" "co_recovered s1 = co_recovered s" "co_del_keys s1 = co_del_keys s" "co_net s1 = co_net s"
    using co by (simp_all add: calls_only_def take_id_def)
  have sub: "set (co_participants s1) \<subseteq> common s" "distinct (co_participants s1)"
    using calls_only_sub [OF co] calls_only_distinct [OF co] snd by (auto simp: take_id_def sound_system_def)
  obtain x d3 s3 where l: "commit_loop (cluster_call ldb be) ?i (co_participants s1) [] d ?t = (x, d3, s3)"
    by (metis prod_cases3)
  have "nodes_in (common s) (mid_update view ?i ?cmd m ?ks) (co_world ?t)"
    using nodes by (simp add: prepared_node_def nodes_in_def)
  from commit_loop_nodes [OF st _ cmd_id_set_id [OF c] i l sub(2,1) this] c at1
  have 3: "calls_only ?t s3" "nodes_in (common s) (mid_update view ?i ?cmd m ?ks) (co_world s3)"
    "\<forall>a \<in> set (co_participants s3). node_at (co_world s3) (?i + 1) a"
    "x = [] \<or> x = snd (apply_command c m)" "co_participants s3 \<noteq> [] \<longrightarrow> x = snd (apply_command c m)"
    by simp_all
  let ?s4 = "if co_participants s3 \<noteq> [] then log_status RECORD_COMMIT_DONE ?i s3 else s3"
  have s2: "s2 = send_result cl x False ?s4" using cr l by (auto simp: commit_db_request_def Let_def)
  have g: "co_log s3 = rm_log (make_record RECORD_COMMIT ?i (?i + 1)) (co_log s1)" "co_net s3 = co_net s"
    "co_next_id s3 = ?i + 1" "co_conf s3 = co_conf s" "co_recovered s3 = co_recovered s" "co_del_keys s3 = co_del_keys s"
    using 3(1) f by (simp_all add: calls_only_def)
  have rec: "rm_records (co_log s) = []" by (rule sound_records [OF snd ne])
  have sub3: "set (co_participants s3) \<subseteq> common s" "distinct (co_participants s3)"
    using calls_only_sub [OF 3(1)] calls_only_distinct [OF 3(1)] sub by auto
  have adds: "adds_answer cl (x, False) s s2"
    unfolding s2 by (rule adds_answer_send) (simp add: g(2))
  have "rm_records (co_log s2) = [] \<or> co_participants s2 = []
      \<and> rm_records (co_log s2) = [(?i, make_record RECORD_COMMIT ?i (?i + 1))]"
    using log_of_update [OF rec, of ?i "?i + 1"] record_lists(2) [OF rec] by (simp add: s2 g f)
  then have "update_done view c m s s2"
    unfolding update_done_def using 3(2,3) g(3-6) sub3 by (auto simp: s2)
  with adds 3(4,5) show ?thesis by (auto simp: s2)
qed

text \<open>After that the system is sound again, provided deleted keys have been noted if need be.\<close>

lemma update_done_sound:
  assumes snd: "sound_system view s m" and i: "co_next_id s + 1 \<noteq> 0" and c: "is_update c" "small_command c"
    and u: "update_done view c m s s'"
    and ks: "dom m \<union> set (co_del_keys s) \<subseteq> dom (fst (apply_command c m)) \<union> ks'
      \<or> common s \<subseteq> set (co_participants s')"
    and s'': "s'' = s'\<lparr>co_del_keys := ks''\<rparr>" "set ks'' = ks'"
  shows "sound_system view s'' (fst (apply_command c m))"
proof -
  let ?i = "co_next_id s" and ?cmd = "set_id (co_next_id s) c" and ?m = "fst (apply_command c m)"
  have u: "nodes_in (common s) (mid_update view ?i ?cmd m (set (co_del_keys s))) (co_world s')"
    "\<forall>a \<in> set (co_participants s'). node_at (co_world s') (?i + 1) a" "co_next_id s' = ?i + 1"
    "co_conf s' = co_conf s" "co_recovered s' = co_recovered s"
    "distinct (co_participants s')" "set (co_participants s') \<subseteq> common s"
    "rm_records (co_log s') = []
      \<or> co_participants s' = [] \<and> (\<exists>n. rm_records (co_log s') = [(?i, make_record RECORD_COMMIT ?i n)])"
    using u by (simp_all add: update_done_def)
  have "node_ok view (?i + 1) ?m ks' False p" if "a \<in> common s" "cl_nodes (co_world s') a = Some p" for a p
  proof -
    have "mid_update view ?i ?cmd m (set (co_del_keys s)) p" by (rule nodes_inD [OF u(1) that])
    moreover have "dom m \<union> set (co_del_keys s) \<subseteq> dom (fst (apply_command ?cmd m)) \<union> ks' \<or> pt_next_id p = ?i + 1"
      using ks
    proof
      assume "common s \<subseteq> set (co_participants s')"
      with u(2) that have "node_at (co_world s') (?i + 1) a" by blast
      with that(2) show ?thesis by (simp add: node_at_def)
    qed simp
    ultimately show ?thesis using mid_update_ok [OF _ i cmd_id_set_id [OF c(1)], of view m _ p ks'] by simp
  qed
  then have nodes: "nodes_in (common s) (node_ok view (?i + 1) ?m ks' False) (co_world s')"
    by (simp add: nodes_in_def)
  have pend: "pending_ok s'" using u(3,8) i unfolding pending_ok_def by blast
  have "\<not> record_is ?i RECORD_UNRESOLVED s'"
    using u(8) by (auto simp: record_is_def make_record_def record_statuses)
  moreover have "small_store ?m" using snd c(2) by (simp add: sound_system_def small_apply)
  ultimately show ?thesis
    using snd nodes pend u(2-7) by (simp add: sound_system_def s'' pending_ok_def common_def record_is_def)
qed

lemma remembered:
  assumes "update_done view (Del_Command j ks) m s s'" "sound_addresses (co_conf s)"
  shows "dom m \<union> set (co_del_keys s) \<subseteq> dom (fst (apply_command (Del_Command j ks) m)) \<union>
      set (co_del_keys (remember_deleted (set_id n (Del_Command j ks)) s'))
    \<or> common s \<subseteq> set (co_participants s')"
proof (cases "length (co_participants s') < length (participant_addrs (co_conf s'))")
  case True
  then have "set (co_del_keys (remember_deleted (set_id n (Del_Command j ks)) s')) = set ks \<union> set (co_del_keys s)"
    using assms(1) by (simp add: remember_deleted_def set_fold_os_put update_done_def)
  then show ?thesis by (auto simp: restrict_map_def split: if_splits)
next
  case False
  have u: "co_conf s' = co_conf s" "distinct (co_participants s')" "set (co_participants s') \<subseteq> common s"
    using assms(1) by (simp_all add: update_done_def)
  have "length (conf_addresses (co_conf s)) = length (participant_addrs (co_conf s))"
    using assms(2) by (simp add: sound_addresses_def conf_addresses_def)
  then have "card (common s) \<le> card (set (co_participants s'))"
    using False u card_length [of "conf_addresses (co_conf s)"] by (simp add: common_def distinct_card)
  with u(3) have "set (co_participants s') = common s" by (intro card_seteq) (simp_all add: common_def)
  then show ?thesis by simp
qed
lemma update_sound:
  assumes st: "leveldb_store ldb view" and snd: "sound_system view s m" and ne: "co_participants s \<noteq> []"
    and c: "is_update c" "small_command c" and i: "co_next_id s + 1 \<noteq> 0"
    and mk: "mk (set_id (co_next_id s) c) = prepare_request (set_id (co_next_id s) c)"
    and su: "start_update (cluster_call ldb be) mk c s = (ok, d, cmd, s1)"
  shows "ok" "cmd = set_id (co_next_id s) c"
    and "co_participants s1 = [] \<Longrightarrow> served_request view cl c m s (send_error cl s1)"
    and "commit_db_request (cluster_call ldb be) (Some cl) (cmd_id cmd) d s1 = (d2, s2) \<Longrightarrow>
      s3 = s2\<lparr>co_del_keys := ks\<rparr> \<Longrightarrow>
      dom m \<union> set (co_del_keys s) \<subseteq> dom (fst (apply_command c m)) \<union> set ks \<or> common s \<subseteq> set (co_participants s2) \<Longrightarrow>
      served_request view cl c m s s3"
    and "commit_db_request (cluster_call ldb be) (Some cl) (cmd_id cmd) d s1 = (d2, s2) \<Longrightarrow> update_done view c m s s2"
proof -
  note u = update_started [where mk = mk, OF snd ne c(1) i mk su]
  show "ok" "cmd = set_id (co_next_id s) c" by (rule u(1), rule u(2))
  have f: "co_net s1 = co_net s" "co_conf s1 = co_conf s" "co_recovered s1 = co_recovered s"
    "co_next_id s1 = co_next_id s + 1"
    using u(3) by (simp_all add: calls_only_def take_id_def)
  show "served_request view cl c m s (send_error cl s1)" if "co_participants s1 = []"
  proof (rule refused_request [OF _ that f(1) f(2) f(3)])
    show "sound_system view s1 m"
      by (rule nobody_prepared [OF snd ne i c(1) u(3) _ that]) (use u(2,4) in simp)
  qed (simp add: f)
  assume "commit_db_request (cluster_call ldb be) (Some cl) (cmd_id cmd) d s1 = (d2, s2)"
  then have cr: "commit_db_request (cluster_call ldb be) (Some cl) (co_next_id s) d s1 = (d2, s2)"
    using u(2) c(1) by simp
  from update_committed [OF st snd ne c(1) i u(3) _ u(5) cr] u(2,4)
  have k: "update_done view c m s s2" "\<exists>x. adds_answer cl (x, False) s s2
      \<and> (x = [] \<or> x = snd (apply_command c m)) \<and> (co_participants s2 \<noteq> [] \<longrightarrow> x = snd (apply_command c m))"
    by simp_all
  show "update_done view c m s s2" by (rule k(1))
  assume s3: "s3 = s2\<lparr>co_del_keys := ks\<rparr>"
    and ks: "dom m \<union> set (co_del_keys s) \<subseteq> dom (fst (apply_command c m)) \<union> set ks \<or> common s \<subseteq> set (co_participants s2)"
  have snd3: "sound_system view s3 (fst (apply_command c m))"
    by (rule update_done_sound [OF snd i c k(1) ks s3 refl])
  obtain x where x: "adds_answer cl (x, False) s s2" "x = [] \<or> x = snd (apply_command c m)"
    "co_participants s2 \<noteq> [] \<longrightarrow> x = snd (apply_command c m)" using k(2) by blast
  have "snd (apply_command c m) = answer c m" using c(1) by (cases c) (simp_all add: answer_def)
  with x c(1) have "outcome c m (x, False) (fst (apply_command c m))" "adds_answer cl (x, False) s s3"
    "co_participants s3 \<noteq> [] \<longrightarrow> (x, False) = (answer c m, False)"
    by (auto simp: outcome_def s3 adds_answer_def)
  with snd3 k(1) show "served_request view cl c m s s3"
    unfolding served_request_def s3 by (auto simp: update_done_def)
qed

lemma served_set_request:
  assumes st: "leveldb_store ldb view" and snd: "sound_system view s m" and i: "co_next_id s + 1 \<noteq> 0"
    and c: "c = Set_Command j k v" "small_command c"
  shows "served_request view cl c m s (handle_db_set_request (cluster_call ldb be) cl c s)"
proof (cases "co_participants s = []")
  case True
  from refused_request [OF snd True refl refl refl] True show ?thesis by (simp add: handle_db_set_request_def)
next
  case False
  obtain ok d cmd s1 where su: "start_update (cluster_call ldb be) Rpc_PREPARE_SET c s = (ok, d, cmd, s1)"
    by (metis prod_cases4)
  have mk: "Rpc_PREPARE_SET (set_id n c) = prepare_request (set_id n c)" for n by (simp add: prepare_request_def c)
  have upd: "is_update c" by (simp add: c)
  note u = update_sound [where mk = Rpc_PREPARE_SET, OF st snd False upd c(2) i mk su]
  show ?thesis
  proof (cases "co_participants s1 = []")
    case True
    with u(3) su False show ?thesis by (simp add: handle_db_set_request_def)
  next
    case n1: False
    obtain d2 s2 where cr: "commit_db_request (cluster_call ldb be) (Some cl) (cmd_id cmd) d s1 = (d2, s2)" by fastforce
    have "co_del_keys s2 = co_del_keys s" using u(5) [OF cr] by (simp add: update_done_def)
    then have "served_request view cl c m s s2"
      by (intro u(4) [OF cr, where ks = "co_del_keys s"]) (auto simp: c)
    with su False n1 cr u(1) show ?thesis by (simp add: handle_db_set_request_def)
  qed
qed

lemma served_del_request:
  assumes st: "leveldb_store ldb view" and snd: "sound_system view s m" and i: "co_next_id s + 1 \<noteq> 0"
    and c: "c = Del_Command j ks"
  shows "served_request view cl c m s (handle_db_del_request (cluster_call ldb be) cl c s)"
proof (cases "co_participants s = []")
  case True
  from refused_request [OF snd True refl refl refl] True show ?thesis by (simp add: handle_db_del_request_def)
next
  case False
  obtain ok d cmd s1 where su: "start_update (cluster_call ldb be) Rpc_PREPARE_DEL c s = (ok, d, cmd, s1)"
    by (metis prod_cases4)
  have mk: "Rpc_PREPARE_DEL (set_id n c) = prepare_request (set_id n c)" for n
    by (simp add: prepare_request_def c cmd_tags)
  have upd: "is_update c" "small_command c" by (simp_all add: c small_command_def)
  note u = update_sound [where mk = Rpc_PREPARE_DEL, OF st snd False upd i mk su]
  show ?thesis
  proof (cases "co_participants s1 = []")
    case True
    with u(3) su False show ?thesis by (simp add: handle_db_del_request_def)
  next
    case n1: False
    obtain d2 s2 where cr: "commit_db_request (cluster_call ldb be) (Some cl) (cmd_id cmd) d s1 = (d2, s2)" by fastforce
    let ?s3 = "remember_deleted cmd s2"
    have "sound_addresses (co_conf s)" using snd by (simp add: sound_system_def)
    from remembered [OF _ this, of view j ks m s2] u(5) [OF cr]
    have "dom m \<union> set (co_del_keys s) \<subseteq> dom (fst (apply_command c m)) \<union> set (co_del_keys ?s3)
        \<or> common s \<subseteq> set (co_participants s2)" by (simp add: c u(2))
    moreover have "?s3 = s2\<lparr>co_del_keys := co_del_keys ?s3\<rparr>" by (simp add: remember_deleted_def)
    ultimately have "served_request view cl c m s ?s3" by (intro u(4) [OF cr])
    with su False n1 cr u(1) show ?thesis by (simp add: handle_db_del_request_def)
  qed
qed

text \<open>Every request, whatever calls fail, ends in a sound system.\<close>

lemma served_any_request:
  assumes "leveldb_store ldb view" "sound_system view s m" "co_next_id s + 1 \<noteq> 0" "small_command c"
  shows "served_request view cl c m s (dispatch_request (cluster_call ldb be) cl c s)"
  using served_get_request [OF assms(1,2)] served_set_request [OF assms(1-3) _ assms(4)]
    served_del_request [OF assms(1-3)]
  by (cases c) (simp_all add: dispatch_request_def cmd_tags)
section \<open>A heartbeat\<close>

text \<open>What \<open>sound_system\<close> says of the nodes.\<close>

definition node_sound :: "('db \<Rightarrow> store) \<Rightarrow> store \<Rightarrow> 'db cluster coordinator \<Rightarrow> 'db participant \<Rightarrow> bool" where
  "node_sound view m s =
     node_ok view (co_next_id s) m (set (co_del_keys s)) (record_is (co_next_id s - 1) RECORD_UNRESOLVED s)"

lemma sound_nodes: "sound_system view s m \<Longrightarrow> nodes_in (common s) (node_sound view m s) (co_world s)"
  by (simp add: sound_system_def node_sound_def)

lemma calls_only_sound:
  assumes "calls_only s s'"
  shows "node_sound view m s' = node_sound view m s" "common s' = common s"
  using assms by (auto simp: calls_only_def node_sound_def common_def record_is_def)

lemma sound_call:
  assumes "sound_system view s m" "rpc_call (cluster_call ldb be) a req s = (res, s')" "a \<in> common s"
    "\<And>p r p'. cl_nodes (co_world s) a = Some p \<Longrightarrow> node_sound view m s p \<Longrightarrow> serve ldb be req p = Inr (r, p') \<Longrightarrow>
       node_sound view m s p' \<and> (a \<in> set (co_participants s) \<longrightarrow> pt_next_id p' = pt_next_id p)"
  shows "sound_system view (drop_participant a s') m"
    and "a \<notin> set (co_participants s) \<or> res \<noteq> None \<Longrightarrow> sound_system view s' m"
proof -
  have n: "nodes_in (common s) (node_sound view m s) (co_world s')"
    by (rule rpc_nodes [OF assms(2) sound_nodes [OF assms(1)] assms(3)]) (use assms(4) in blast)
  have other: "\<forall>b \<in> set (co_participants s) - {a}. node_at (co_world s') (co_next_id s) b"
    using assms(1) rpc_other [OF assms(2)] by (auto simp: sound_system_def node_at_def)
  note co = calls_only_rpc [OF assms(2)] and same = rpc_call_rest(1) [OF assms(2)]
  show "sound_system view (drop_participant a s') m"
    by (rule sound_same [OF co(2) assms(1)]) (use n other same in \<open>auto simp: node_sound_def\<close>)
  assume up: "a \<notin> set (co_participants s) \<or> res \<noteq> None"
  have "node_at (co_world s') (co_next_id s) a" if a: "a \<in> set (co_participants s)"
  proof -
    from up a obtain r where "res = Some r" by blast
    with assms(2) obtain p p' where p: "cl_nodes (co_world s) a = Some p" "serve ldb be req p = Inr (r, p')"
      "cl_nodes (co_world s') a = Some p'" by (auto elim: rpc_answered)
    have "node_sound view m s p" by (rule nodes_inD [OF sound_nodes [OF assms(1)] assms(3) p(1)])
    from assms(4) [OF p(1) this p(2)] a have "pt_next_id p' = pt_next_id p" by simp
    moreover have "pt_next_id p = co_next_id s" using sound_store [OF assms(1) a] p(1) by auto
    ultimately show ?thesis using p(3) by (simp add: node_at_def)
  qed
  with other have "\<forall>b \<in> set (co_participants s'). node_at (co_world s') (co_next_id s) b" using same by auto
  with n show "sound_system view s' m" by (intro sound_same [OF co(1) assms(1)]) (simp_all add: node_sound_def)
qed

lemma sound_reading:
  assumes "sound_system view s m" "rpc_call (cluster_call ldb be) a req s = (res, s')" "a \<in> common s"
    "req \<in> {Rpc_HEARTBEAT, Rpc_NEXT_ID, Rpc_GET_SNAPSHOT}"
  shows "sound_system view (drop_participant a s') m"
    and "a \<notin> set (co_participants s) \<or> res \<noteq> None \<Longrightarrow> sound_system view s' m"
  using serve_reading [of ldb be req] assms(4)
  by (intro sound_call [OF assms(1-3)]; blast)+

text \<open>A snapshot of a participant in the map makes the node at \<open>addr\<close> equal to it.\<close>

lemma snapshot_loop_sound:
  assumes st: "leveldb_store ldb view"
  shows "snapshot_loop (cluster_call ldb be) addr as s = (ok, s') \<Longrightarrow> sound_system view s m \<Longrightarrow>
    distinct as \<Longrightarrow> set as = set (co_participants s) \<Longrightarrow> addr \<in> common s \<Longrightarrow> addr \<notin> set (co_participants s) \<Longrightarrow>
    calls_only s s' \<and> sound_system view s' m \<and> (ok \<longrightarrow> node_at (co_world s') (co_next_id s) addr)"
proof (induction as arbitrary: s)
  case (Cons a as)
  let ?call = "cluster_call ldb be"
  obtain res s1 where r: "rpc_call ?call a Rpc_GET_SNAPSHOT s = (res, s1)" by fastforce
  note co = calls_only_rpc [OF r] and same = rpc_call_rest [OF r]
  have a: "a \<in> set (co_participants s)" "a \<in> common s" using Cons.prems(2,4) by (auto simp: sound_system_def)
  note snd = sound_reading [OF Cons.prems(2) r a(2)]
  show ?case
  proof (cases "as_bytes res")
    case None
    then have l: "snapshot_loop ?call addr as (drop_participant a s1) = (ok, s')" using Cons.prems(1) r by simp
    have "set as = set (co_participants (drop_participant a s1))" "addr \<notin> set (co_participants (drop_participant a s1))"
      "addr \<in> common (drop_participant a s1)"
      using Cons.prems(3-6) same by (auto simp: common_def)
    with Cons.IH [OF l snd(1)] Cons.prems(3) calls_only_trans [OF co(2)] same show ?thesis by simp
  next
    case (Some dat)
    then have res: "res = Some (Res_Bytes dat)" by (simp add: as_bytes_Some)
    with r obtain p p' where p: "cl_nodes (co_world s) a = Some p" "serve ldb be Rpc_GET_SNAPSHOT p = Inr (Res_Bytes dat, p')"
      by (auto elim: rpc_answered)
    have m: "view (pt_db p) = m" "small_store m"
      using sound_store [OF Cons.prems(2) a(1)] p(1) Cons.prems(2) by (auto simp: sound_system_def)
    have dat: "dat = foldl encode_pair [] (ldb_entries ldb (pt_db p))"
      using p(2) by (auto simp: respond_Inr get_snapshot_def)
    have snd1: "sound_system view s1 m" using snd(2) res by simp
    let ?req = "Rpc_RECOVER dat (co_del_keys s1)" and ?set = "Rpc_SET_NEXT_ID (co_next_id s1)"
    have small: "list_all pair_small (ldb_entries ldb (pt_db p))" by (rule small_entries [OF st]) (simp add: m)
    have rec: "view (pt_db q') = m \<and> pt_next_id q' = pt_next_id q \<and> pt_requests q' = pt_requests q"
      if q: "node_sound view m s1 q" "serve ldb be ?req q = Inr (z, q')" for q z q'
    proof -
      have "dom (view (pt_db q)) \<subseteq> dom m \<union> set (co_del_keys s1)" using q(1) by (simp add: node_sound_def node_ok_def)
      then have "(view (pt_db q) |` (- set (co_del_keys s1))) ++ m = m"
        by (auto simp: map_add_def restrict_map_def fun_eq_iff split: option.splits)
      with leveldb_store.recover_handler_spec [OF st small, of be "co_del_keys s1" q] q(2) m(1) dat
      show ?thesis by (auto simp: respond_Inr)
    qed
    obtain res2 s2 where r2: "rpc_call ?call addr ?req s1 = (res2, s2)" by fastforce
    note co2 = calls_only_trans [OF co(1) calls_only_rpc(1) [OF r2]]
    have addr1: "addr \<in> common s1" "addr \<notin> set (co_participants s1)" using Cons.prems(5,6) same by (simp_all add: common_def)
    have snd2: "sound_system view s2 m"
    proof (rule sound_call(2) [OF snd1 r2 addr1(1)])
      fix q z q' assume q: "node_sound view m s1 q" "serve ldb be ?req q = Inr (z, q')"
      with rec [OF q] addr1(2) show "node_sound view m s1 q' \<and> (addr \<in> set (co_participants s1) \<longrightarrow> pt_next_id q' = pt_next_id q)"
        by (simp add: node_sound_def node_ok_def)
    qed (use addr1(2) in simp)
    show ?thesis
    proof (cases res2)
      case None
      with Cons.prems(1) r res r2 co2 snd2 show ?thesis by (simp add: as_bytes_def)
    next
      case (Some z2)
      with r2 obtain q q' where q: "cl_nodes (co_world s1) addr = Some q" "serve ldb be ?req q = Inr (z2, q')"
        "cl_nodes (co_world s2) addr = Some q'" by (auto elim: rpc_answered)
      have "node_sound view m s1 q" by (rule nodes_inD [OF sound_nodes [OF snd1] addr1(1) q(1)])
      from rec [OF this q(2)] have v: "view (pt_db q') = m" by simp
      obtain res3 s3 where r3: "rpc_call ?call addr ?set s2 = (res3, s3)" by fastforce
      note co3 = calls_only_trans [OF co2 calls_only_rpc(1) [OF r3]]
      note same2 = rpc_call_rest [OF r2]
      have addr2: "addr \<in> common s2" "addr \<notin> set (co_participants s2)" using addr1 same2 by (simp_all add: common_def)
      have snd3: "sound_system view s3 m"
      proof (rule sound_call(2) [OF snd2 r3 addr2(1)])
        fix u z u'
        assume u: "cl_nodes (co_world s2) addr = Some u" "node_sound view m s2 u" "serve ldb be ?set u = Inr (z, u')"
        then have "u' = q'\<lparr>pt_next_id := co_next_id s2\<rparr>" using q(3) same2(2) by (auto simp: respond_Inr set_next_id_handler_def)
        with u(1,2) q(3) v addr2(2)
        show "node_sound view m s2 u' \<and> (addr \<in> set (co_participants s2) \<longrightarrow> pt_next_id u' = pt_next_id u)"
          by (simp add: node_sound_def node_ok_def)
      qed (use addr2(2) in simp)
      have "node_at (co_world s3) (co_next_id s) addr" if "res3 \<noteq> None"
      proof -
        from that obtain z3 where "res3 = Some z3" by blast
        with r3 obtain u u' where "serve ldb be ?set u = Inr (z3, u')" "cl_nodes (co_world s3) addr = Some u'"
          by (auto elim: rpc_answered)
        then show ?thesis using same(2) by (auto simp: node_at_def respond_Inr set_next_id_handler_def)
      qed
      with Cons.prems(1) r res r2 Some r3 co3 snd3 show ?thesis by (auto simp: as_bytes_def split: option.splits)
    qed
  qed
qed simp
text \<open>What makes a node fit to join: it is up to date, or one unresolved request behind.\<close>

definition fit_to_join :: "'db cluster coordinator \<Rightarrow> string \<Rightarrow> bool" where
  "fit_to_join s a \<longleftrightarrow>
     node_at (co_world s) (co_next_id s) a
     \<or> (\<exists>i. node_at (co_world s) i a \<and> co_next_id s = i + 1 \<and> record_is i RECORD_UNRESOLVED s)"

lemma recover_participant_sound:
  assumes st: "leveldb_store ldb view" and snd: "sound_system view s m" and rec: "co_recovered s"
    and a: "addr \<in> common s" and out: "addr \<notin> set (co_participants s)"
    and rp: "recover_participant (cluster_call ldb be) addr s = (b, s')"
  shows "calls_only s s' \<and> sound_system view s' m \<and> (b = Some True \<longrightarrow> fit_to_join s' addr)"
proof -
  obtain res s1 where r: "rpc_call (cluster_call ldb be) addr Rpc_NEXT_ID s = (res, s1)" by fastforce
  note co = calls_only_rpc(1) [OF r] and same = rpc_call_rest [OF r]
  have snd1: "sound_system view s1 m" using sound_reading(2) [OF snd r a] out by simp
  show ?thesis
  proof (cases "as_u32 res")
    case None
    with rp rec r co snd1 show ?thesis by (auto simp: recover_participant_def)
  next
    case (Some k)
    then have res: "res = Some (Res_U32 k)" by (simp add: as_u32_Some)
    with r obtain p p' where "serve ldb be Rpc_NEXT_ID p = Inr (Res_U32 k, p')" "cl_nodes (co_world s1) addr = Some p'"
      by (auto elim: rpc_answered)
    then have at1: "node_at (co_world s1) k addr" by (auto simp: node_at_def respond_Inr next_id_handler_def)
    obtain ok s2 where l: "snapshot_loop (cluster_call ldb be) addr (co_participants s1) s1 = (ok, s2)" by fastforce
    have "distinct (co_participants s1)" "addr \<in> common s1" "addr \<notin> set (co_participants s1)"
      using snd1 a out same by (simp_all add: sound_system_def common_def)
    note sn = snapshot_loop_sound [OF st l snd1 this(1) refl this(2,3)]
    have next2: "co_next_id s2 = co_next_id s1" using sn by (simp add: calls_only_def)
    consider (now) "k = co_next_id s1" "b = Some True" "s' = s1"
      | (unresolved) "k + 1 = co_next_id s1" "record_is k RECORD_UNRESOLVED s1" "b = Some True" "s' = s1"
      | (snapshot) "b = Some ok" "s' = s2"
      using rp rec r res l by (auto simp: recover_participant_def as_u32_def split: if_splits)
    then show ?thesis
    proof cases
      case now
      with at1 co snd1 show ?thesis by (simp add: fit_to_join_def)
    next
      case unresolved
      then have "fit_to_join s' addr" using at1 unfolding fit_to_join_def by metis
      with unresolved co snd1 show ?thesis by simp
    next
      case snapshot
      with sn next2 calls_only_trans [OF co, of s2] show ?thesis by (auto simp: fit_to_join_def)
    qed
  qed
qed

text \<open>The address joins, and the keys noted are forgotten when it completes the map.\<close>

definition joins :: "string \<Rightarrow> 'w coordinator \<Rightarrow> 'w coordinator" where
  "joins addr s =
     (let s3 = add_participant addr s
      in if length (co_participants s3) = length (participant_addrs (co_conf s3))
         then s3\<lparr>co_del_keys := []\<rparr> else s3)"

lemma joins_sel [simp]:
  "co_participants (joins addr s) = os_put addr (co_participants s)" "co_world (joins addr s) = co_world s"
  "co_log (joins addr s) = co_log s" "co_conf (joins addr s) = co_conf s" "co_next_id (joins addr s) = co_next_id s"
  "co_recovered (joins addr s) = co_recovered s" "co_net (joins addr s) = co_net s"
  by (simp_all add: joins_def add_participant_def Let_def)

lemma fit_store:
  assumes "sound_system view s m" "fit_to_join s addr" "addr \<in> common s" "cl_nodes (co_world s) addr = Some p"
  shows "view (pt_db p) = m"
proof -
  have ok: "node_sound view m s p" by (rule nodes_inD [OF sound_nodes [OF assms(1)] assms(3,4)])
  from assms(2,4) consider "pt_next_id p = co_next_id s"
    | "co_next_id s = pt_next_id p + 1" "record_is (pt_next_id p) RECORD_UNRESOLVED s"
    by (auto simp: fit_to_join_def node_at_def)
  then show ?thesis using ok by cases (simp_all add: node_sound_def node_ok_def)
qed

lemma joined_nodes:
  assumes snd: "sound_system view s m" and fit: "fit_to_join s addr" and a: "addr \<in> common s"
    and out: "addr \<notin> set (co_participants s)"
  shows "nodes_in (common s) (node_ok view (co_next_id s) m (set (co_del_keys (joins addr s)))
      (record_is (co_next_id s - 1) RECORD_UNRESOLVED s)) (co_world s)"
proof (cases "length (os_put addr (co_participants s)) = length (participant_addrs (co_conf s))")
  case False
  then have "co_del_keys (joins addr s) = co_del_keys s" by (simp add: joins_def add_participant_def Let_def)
  then show ?thesis using sound_nodes [OF snd] by (simp add: node_sound_def)
next
  case True
  have "distinct (os_put addr (co_participants s))" using snd out by (auto simp: os_put_def sound_system_def)
  then have all: "insert addr (set (co_participants s)) = common s"
    using complete_map [OF _ _ _ True] snd a by (simp add: sound_system_def common_def)
  show ?thesis
    unfolding nodes_in_def
  proof (intro ballI allI impI)
    fix b p assume b: "b \<in> common s" "cl_nodes (co_world s) b = Some p"
    have "node_sound view m s p" by (rule nodes_inD [OF sound_nodes [OF snd] b])
    moreover have "view (pt_db p) = m"
      using b all fit_store [OF snd fit a] sound_store [OF snd, of b] by (cases "b = addr") auto
    ultimately show "node_ok view (co_next_id s) m (set (co_del_keys (joins addr s)))
        (record_is (co_next_id s - 1) RECORD_UNRESOLVED s) p"
      by (auto simp: node_sound_def node_ok_def)
  qed
qed

lemma node_ok_resolved: "node_ok view n m ks un p \<Longrightarrow> node_ok view n m ks False p"
  by (simp add: node_ok_def)
lemma joined_idle:
  assumes snd: "sound_system view s m" and fit: "fit_to_join s addr" and a: "addr \<in> common s"
    and out: "addr \<notin> set (co_participants s)" and rec: "rm_records (co_log s) = []"
  shows "sound_system view (joins addr s) m"
proof -
  have "node_at (co_world s) (co_next_id s) addr" using fit rec by (simp add: fit_to_join_def record_is_def)
  moreover have "distinct (os_put addr (co_participants s))" using snd out by (auto simp: os_put_def sound_system_def)
  ultimately show ?thesis
    using snd a joined_nodes [OF snd fit a out] rec
    by (simp add: sound_system_def pending_ok_def common_def record_is_def)
qed

text \<open>An unfinished request is settled with the one participant there is, or left for the next one.\<close>

lemma settle_call:
  assumes r: "rpc_call (cluster_call ldb be) addr req t = (res, t1)" and a: "addr \<in> A"
    and nodes: "nodes_in A (node_ok view n m ks False) (co_world t)"
    and eff: "\<And>p r p'. cl_nodes (co_world t) addr = Some p \<Longrightarrow> node_ok view n m ks False p \<Longrightarrow>
      serve ldb be req p = Inr (r, p') \<Longrightarrow> node_ok view n m ks False p' \<and> pt_next_id p' = n"
  shows "nodes_in A (node_ok view n m ks False) (co_world t1)" "res \<noteq> None \<Longrightarrow> node_at (co_world t1) n addr"
proof -
  show "nodes_in A (node_ok view n m ks False) (co_world t1)"
    by (rule rpc_nodes [OF r nodes a]) (use eff in blast)
  assume "res \<noteq> None"
  then obtain z where "res = Some z" by blast
  with r obtain p p' where p: "cl_nodes (co_world t) addr = Some p" "serve ldb be req p = Inr (z, p')"
    "cl_nodes (co_world t1) addr = Some p'" by (auto elim: rpc_answered)
  from eff [OF p(1) nodes_inD [OF nodes a p(1)] p(2)] p(3) show "node_at (co_world t1) n addr"
    by (simp add: node_at_def)
qed

lemma settled_sound:
  assumes snd: "sound_system view s m" and a: "addr \<in> common s" and i: "co_next_id s = i + 1" "i + 1 \<noteq> 0"
    and st: "st' \<in> {RECORD_COMMIT, RECORD_ABORT}" "is_done_status done"
    and rec: "rm_records (co_log s) = [(i, x)]" "co_participants s = []"
    and t: "t = log_status st' i (joins addr s)"
    and r: "rpc_call (cluster_call ldb be) addr req t = (res, t1)"
    and nodes: "nodes_in (common s) (node_ok view (co_next_id s) m (set (co_del_keys t)) False) (co_world t1)"
    and at1: "res \<noteq> None \<Longrightarrow> node_at (co_world t1) (co_next_id s) addr"
  shows "res \<noteq> None \<Longrightarrow> sound_system view (log_status done i t1) m"
    and "sound_system view (drop_participant addr t1) m"
proof -
  note same = rpc_call_rest [OF r]
  have f: "co_participants t1 = [addr]" "co_next_id t1 = i + 1" "co_conf t1 = co_conf s" "co_recovered t1 = co_recovered s"
    "co_del_keys t1 = co_del_keys t" using same rec i by (simp_all add: t os_put_def)
  have r1: "rm_records (co_log t1) = [(i, make_record st' i (i + 1))]"
    using same(3) rec(1) st(1) i
    by (auto simp: t rm_records_rm_log make_record_def is_done_status_def record_statuses om_put_def)
  then have r2: "rm_records (co_log (log_status done i t1)) = []"
    using st(2) by (simp add: rm_records_rm_log make_record_def om_erase_def)
  have no: "\<not> record_is i RECORD_UNRESOLVED t1" using r1 st(1) by (auto simp: record_is_def make_record_def record_statuses)
  show "sound_system view (log_status done i t1) m" if "res \<noteq> None"
    using snd a nodes at1 [OF that] f i r2 unfolding sound_system_def
    by (simp add: pending_ok_def common_def record_is_def)
  show "sound_system view (drop_participant addr t1) m"
    using snd nodes f i no r1 st(1) unfolding sound_system_def
    by (auto simp: pending_ok_def common_def record_is_def)
qed

lemma unfinished_sound:
  assumes snd: "sound_system view s m" and fit: "fit_to_join s addr" and a: "addr \<in> common s"
    and out: "addr \<notin> set (co_participants s)"
  shows "\<exists>s'. handle_unfinished_records (cluster_call ldb be) (joins addr s) = Inr s' \<and> sound_system view s' m
    \<and> co_net s' = co_net s \<and> co_next_id s' = co_next_id s \<and> co_conf s' = co_conf s
    \<and> co_recovered s' = co_recovered s"
proof (cases "rm_records (co_log s) = []")
  case True
  with joined_idle [OF assms True] show ?thesis by (simp add: handle_unfinished_records_def)
next
  case False
  then obtain st i n where p: "co_participants s = []" "rm_records (co_log s) = [(i, make_record st i n)]"
    "co_next_id s = i + 1" "i + 1 \<noteq> 0" "st \<in> {RECORD_UNRESOLVED, RECORD_COMMIT, RECORD_ABORT}"
    using snd by (auto simp: sound_system_def pending_ok_def)
  let ?call = "cluster_call ldb be" and ?N = "co_next_id s"
  have lt: "i < ?N" using word_step [OF p(4)] p(3) by simp
  have un: "record_is j RECORD_UNRESOLVED s \<longleftrightarrow> j = i \<and> st = RECORD_UNRESOLVED" for j
    using p(2) by (simp add: record_is_def make_record_def)
  have at: "pt_next_id q = ?N \<or> st = RECORD_UNRESOLVED \<and> pt_next_id q = i" "view (pt_db q) = m"
    if "cl_nodes (co_world s) addr = Some q" for q
    using fit that fit_store [OF snd fit a that] un by (auto simp: fit_to_join_def node_at_def)
  have two: "co_participants (joins addr s) = [addr]" using p(1) by (simp add: os_put_def)
  show ?thesis
  proof (cases "st = RECORD_COMMIT")
    case True
    let ?t = "log_status RECORD_COMMIT i (joins addr s)" and ?req = "Rpc_COMMIT i"
    obtain res t1 where r: "rpc_call ?call addr ?req ?t = (res, t1)" by fastforce
    have nodes: "nodes_in (common s) (node_ok view ?N m (set (co_del_keys ?t)) False) (co_world ?t)"
      using joined_nodes [OF snd fit a out] by (simp add: nodes_in_mono [OF _ node_ok_resolved])
    have eff: "node_ok view ?N m (set (co_del_keys ?t)) False q' \<and> pt_next_id q' = ?N"
      if "cl_nodes (co_world ?t) addr = Some q" "node_ok view ?N m (set (co_del_keys ?t)) False q"
        "serve ldb be ?req q = Inr (z, q')" for q z q'
      using that at(1) [of q] True lt by (auto simp: respond_Inr commit_handler_def record_statuses)
    have c: "nodes_in (common s) (node_ok view ?N m (set (co_del_keys ?t)) False) (co_world t1)"
      "res \<noteq> None \<Longrightarrow> node_at (co_world t1) ?N addr"
      using settle_call [OF r a nodes] eff by blast+
    note s = settled_sound [OF snd a p(3,4) _ _ p(2,1) refl r c, of RECORD_COMMIT_DONE]
    obtain s' where s': "commit_db_request ?call None i False (joins addr s) = (as_string res = None, s')"
      "s' = (if as_string res = None then drop_participant addr t1 else log_status RECORD_COMMIT_DONE i t1)"
      using r two rpc_call_rest(1) [OF r]
      by (cases "as_string res") (simp_all add: commit_db_request_def Let_def)
    have "handle_unfinished_records ?call (joins addr s) = Inr s'"
      using p(2) True s'(1)
      by (simp add: handle_unfinished_records_def make_record_def record_distinct [THEN not_sym])
    moreover have "sound_system view s' m"
      using s by (cases res) (auto simp: s'(2) is_done_status_def as_string_def)
    ultimately show ?thesis using s'(2) rpc_call_rest [OF r] by (simp add: drop_participant_def)
  next
    case False
    let ?t = "log_status RECORD_ABORT i (joins addr s)" and ?req = "Rpc_ABORT i"
    obtain res t1 where r: "rpc_call ?call addr ?req ?t = (res, t1)" by fastforce
    have nodes: "nodes_in (common s) (node_ok view ?N m (set (co_del_keys ?t)) False) (co_world ?t)"
      using joined_nodes [OF snd fit a out] by (simp add: nodes_in_mono [OF _ node_ok_resolved])
    have eff: "node_ok view ?N m (set (co_del_keys ?t)) False q' \<and> pt_next_id q' = ?N"
      if q: "cl_nodes (co_world ?t) addr = Some q" "node_ok view ?N m (set (co_del_keys ?t)) False q"
        "serve ldb be ?req q = Inr (z, q')" for q z q'
    proof -
      have "i \<le> pt_next_id q" using at(1) [of q] q(1) lt by auto
      from serve_abort_effect [OF q(3) this] at [of q] q(1,2) p(3) lt
      show ?thesis by (auto simp: node_ok_def)
    qed
    have c: "nodes_in (common s) (node_ok view ?N m (set (co_del_keys ?t)) False) (co_world t1)"
      "res \<noteq> None \<Longrightarrow> node_at (co_world t1) ?N addr"
      using settle_call [OF r a nodes] eff by blast+
    note s = settled_sound [OF snd a p(3,4) _ _ p(2,1) refl r c, of RECORD_ABORT_DONE]
    obtain s' where s': "abort_db_request ?call None i False (joins addr s) = (as_bool res \<noteq> Some True, s')"
      "s' = (if as_bool res = Some True then log_status RECORD_ABORT_DONE i t1 else drop_participant addr t1)"
      using r two rpc_call_rest(1) [OF r]
      by (cases "as_bool res = Some True") (simp_all add: abort_db_request_def Let_def)
    have "handle_unfinished_records ?call (joins addr s) = Inr s'"
      using p(2,5) False s'(1) by (auto simp: handle_unfinished_records_def make_record_def)
    moreover have "sound_system view s' m"
      using s by (cases res) (auto simp: s'(2) is_done_status_def as_bool_def)
    ultimately show ?thesis using s'(2) rpc_call_rest [OF r] by (simp add: drop_participant_def)
  qed
qed

text \<open>
  The heartbeat calls a participant without the lock and takes it afterwards, for what the answer
  leads to.
\<close>

definition heartbeat_locked :: "'w rpc \<Rightarrow> string \<Rightarrow> 'w coordinator \<Rightarrow> 'w coordinator result" where
  "heartbeat_locked call addr s =
     (if addr \<in> set (co_participants s) then Inr s
      else case recover_participant call addr s of
             (None, s1) \<Rightarrow> Inr (drop_participant addr s1)
           | (Some False, s1) \<Rightarrow> Inr s1
           | (Some True, s1) \<Rightarrow> handle_unfinished_records call (joins addr s1))"

lemma heartbeat_participant_steps:
  "heartbeat_participant call addr s =
     (case rpc_call call addr Rpc_HEARTBEAT s of
        (None, s1) \<Rightarrow> Inr (drop_participant addr s1)
      | (Some _, s1) \<Rightarrow> heartbeat_locked call addr s1)"
  by (simp add: heartbeat_participant_def heartbeat_locked_def joins_def Let_def
      split: option.splits prod.splits bool.splits)

lemma heartbeat_locked_sound:
  assumes st: "leveldb_store ldb view" and snd: "sound_system view s m" and a: "addr \<in> common s"
    and rec: "co_recovered s \<or> addr \<in> set (co_participants s)"
  shows "\<exists>s'. heartbeat_locked (cluster_call ldb be) addr s = Inr s' \<and> sound_system view s' m
    \<and> co_net s' = co_net s \<and> co_next_id s' = co_next_id s \<and> co_conf s' = co_conf s
    \<and> co_recovered s' = co_recovered s"
proof (cases "addr \<in> set (co_participants s)")
  case True
  with snd show ?thesis by (simp add: heartbeat_locked_def)
next
  case out: False
  obtain b s2 where rp: "recover_participant (cluster_call ldb be) addr s = (b, s2)" by fastforce
  have rec: "co_recovered s" using rec out by simp
  note 2 = recover_participant_sound [OF st snd rec a out rp]
  have f: "co_net s2 = co_net s" "co_recovered s2 = co_recovered s" "co_next_id s2 = co_next_id s" "co_conf s2 = co_conf s"
    "addr \<notin> set (co_participants s2)" "addr \<in> common s2"
    using 2 a out by (auto simp: calls_only_def common_def)
  have "filter (\<lambda>b. b \<noteq> addr) (co_participants s2) = co_participants s2"
    using f(5) by (metis (mono_tags, lifting) filter_True)
  then have drop: "drop_participant addr s2 = s2" by (simp add: drop_participant_def os_erase_def)
  have hb: "heartbeat_locked (cluster_call ldb be) addr s =
      (case b of None \<Rightarrow> Inr s2 | Some False \<Rightarrow> Inr s2
       | Some True \<Rightarrow> handle_unfinished_records (cluster_call ldb be) (joins addr s2))"
    using out rp drop by (auto simp: heartbeat_locked_def split: option.splits bool.splits)
  show ?thesis
  proof (cases "b = Some True")
    case True
    with 2 have "fit_to_join s2 addr" by simp
    with unfinished_sound [of view s2 m addr] 2 f hb True show ?thesis by auto
  next
    case False
    then have "heartbeat_locked (cluster_call ldb be) addr s = Inr s2" using hb by (cases b) auto
    with 2 f show ?thesis by simp
  qed
qed

text \<open>The call itself: a participant that does not answer it leaves the map.\<close>

lemma heartbeat_call_sound:
  assumes "sound_system view s m" "addr \<in> common s"
    "rpc_call (cluster_call ldb be) addr Rpc_HEARTBEAT s = (res, s1)"
    "s2 = (if res = None then drop_participant addr s1 else s1)"
  shows "sound_system view s2 m \<and> co_net s2 = co_net s \<and> co_next_id s2 = co_next_id s \<and> co_conf s2 = co_conf s
    \<and> co_recovered s2 = co_recovered s"
    
  using sound_reading [OF assms(1,3,2)] rpc_call_rest [OF assms(3)] assms(4) by (simp add: drop_participant_def)

lemma heartbeat_sound:
  assumes st: "leveldb_store ldb view" and snd: "sound_system view s m" and a: "addr \<in> common s"
    and rec: "co_recovered s"
  shows "\<exists>s'. heartbeat_participant (cluster_call ldb be) addr s = Inr s' \<and> sound_system view s' m
    \<and> co_net s' = co_net s \<and> co_next_id s' = co_next_id s \<and> co_conf s' = co_conf s \<and> co_recovered s'"
proof -
  obtain res s1 where r: "rpc_call (cluster_call ldb be) addr Rpc_HEARTBEAT s = (res, s1)" by fastforce
  note 1 = heartbeat_call_sound [OF snd a r refl]
  show ?thesis
  proof (cases res)
    case None
    with r 1 rec show ?thesis by (simp add: heartbeat_participant_steps)
  next
    case (Some z)
    with r 1 a rec heartbeat_locked_sound [OF st, of s1 m addr be] show ?thesis
      by (simp add: heartbeat_participant_steps common_def)
  qed
qed

lemma sample_sound_system: "sound_system map_of (sample_system fs) Map.empty"
  unfolding sound_system_def common_def sample_addresses
  by (simp add: sample_sound)
    (simp add: sample_system_def small_store_def pending_ok_def fresh_log_def node_at_def nodes_in_def node_ok_def
      idle_node_def Map.graph_def)



end
