(* ===== verification/Fresh_Start.thy ===== *)
theory Fresh_Start
  imports Fault_Tolerance
begin

text \<open>
  The start of a coordinator on a network that fails (\<^verbatim>\<open>async_start\<close>, \<^verbatim>\<open>recovery\<close>, \<^verbatim>\<open>init_participants\<close>
  in \<^verbatim>\<open>Lab3/src/coordinator.cpp\<close>): with no request under way when it was stopped it is at once
  the sound system that requests and heartbeats keep.
\<close>

section \<open>One participant\<close>

text \<open>A call does not look at the map.\<close>

lemma rpc_add_participant:
  "rpc_call call a req (add_participant b s) = (case rpc_call call a req s of (res, s') \<Rightarrow> (res, add_participant b s'))"
  by (simp add: rpc_call_def emit_def add_participant_def split: prod.split)

lemma add_participant_sel [simp]:
  "co_participants (add_participant a s) = os_put a (co_participants s)"
  "co_world (add_participant a s) = co_world s" "co_next_id (add_participant a s) = co_next_id s"
  "co_log (add_participant a s) = co_log s" "co_conf (add_participant a s) = co_conf s"
  "co_recovered (add_participant a s) = co_recovered s" "co_del_keys (add_participant a s) = co_del_keys s"
  "co_net (add_participant a s) = co_net s"
  by (simp_all add: add_participant_def)

text \<open>The order of the map does not matter to \<open>sound_system\<close>.\<close>

lemma sound_map:
  assumes "sound_system view s m" "distinct ps" "set ps = set (co_participants s)"
  shows "sound_system view (s\<lparr>co_participants := ps\<rparr>) m"
proof -
  have "(ps = []) = (co_participants s = [])" using assms(3) by (cases "co_participants s") auto
  with assms show ?thesis
    by (simp add: sound_system_def pending_ok_def common_def record_is_def)
qed

text \<open>What taking over a participant leaves alone.\<close>

definition same_start :: "'w coordinator \<Rightarrow> 'w coordinator \<Rightarrow> bool" where
  "same_start s s' \<longleftrightarrow>
     co_log s' = co_log s \<and> co_next_id s' = co_next_id s \<and> co_conf s' = co_conf s
     \<and> co_del_keys s' = co_del_keys s \<and> co_net s' = co_net s \<and> co_recovered s' = co_recovered s"

lemma init_participant_cases:
  assumes r: "rpc_call call addr Rpc_NEXT_ID s = (res, s1)" and idle: "co_recovered s" "rm_records (co_log s) = []"
  shows "init_participant call addr s =
    (if as_u32 res = Some (co_next_id s) then add_participant addr s1 else drop_participant addr (add_participant addr s1))"
proof -
  have "rpc_call call addr Rpc_NEXT_ID (add_participant addr s) = (res, add_participant addr s1)"
    by (simp add: rpc_add_participant r)
  then show ?thesis
    using rpc_call_rest [OF r] idle
    by (cases "as_u32 res") (simp_all add: init_participant_def record_is_def)
qed

lemma take_over_sound:
  assumes snd: "sound_system view s m" and idle: "rm_records (co_log s) = []" "co_del_keys s = []"
    and a: "addr \<in> common s" "addr \<notin> set (co_participants s)"
  shows "node_at (co_world s) (co_next_id s) addr \<Longrightarrow> sound_system view (add_participant addr s) m"
    and "sound_system view (drop_participant addr (add_participant addr s)) m"
proof -
  assume "node_at (co_world s) (co_next_id s) addr"
  then have "fit_to_join s addr" by (simp add: fit_to_join_def)
  from joined_idle [OF snd this a idle(1)] have "sound_system view (joins addr s) m" .
  moreover have "joins addr s = add_participant addr s" using idle(2) by (simp add: joins_def Let_def)
  ultimately show "sound_system view (add_participant addr s) m" by simp
next
  have "drop_participant addr (add_participant addr s) =
      s\<lparr>co_participants := os_erase addr (os_put addr (co_participants s))\<rparr>"
    by (simp add: drop_participant_def add_participant_def)
  moreover have "distinct (os_erase addr (os_put addr (co_participants s)))"
    using snd by (auto simp: sound_system_def os_put_def os_erase_def)
  moreover have "set (os_erase addr (os_put addr (co_participants s))) = set (co_participants s)"
    using a(2) by auto
  ultimately show "sound_system view (drop_participant addr (add_participant addr s)) m"
    using sound_map [OF snd] by metis
qed

lemma init_participant_sound:
  assumes snd: "sound_system view s m" and rec: "co_recovered s"
    and idle: "rm_records (co_log s) = []" "co_del_keys s = []"
    and a: "addr \<in> common s" "addr \<notin> set (co_participants s)"
    and s': "s' = init_participant (cluster_call ldb be) addr s"
  shows "sound_system view s' m \<and> same_start s s'
    \<and> set (co_participants s') \<subseteq> insert addr (set (co_participants s))"
proof -
  obtain res s1 where r: "rpc_call (cluster_call ldb be) addr Rpc_NEXT_ID s = (res, s1)" by fastforce
  note same = rpc_call_rest [OF r]
  have s1: "sound_system view s1 m" using sound_reading(2) [OF snd r a(1)] a(2) by simp
  have f: "rm_records (co_log s1) = []" "co_del_keys s1 = []" "addr \<in> common s1" "addr \<notin> set (co_participants s1)"
    using idle a same by (simp_all add: common_def)
  note c = init_participant_cases [OF r rec idle(1)] and over = take_over_sound [OF s1 f]
  have "node_at (co_world s1) (co_next_id s1) addr" if "as_u32 res = Some (co_next_id s)"
  proof -
    from that have "res = Some (Res_U32 (co_next_id s))" by (simp add: as_u32_Some)
    with r obtain p p' where "serve ldb be Rpc_NEXT_ID p = Inr (Res_U32 (co_next_id s), p')"
      "cl_nodes (co_world s1) addr = Some p'" by (auto elim: rpc_answered)
    then show ?thesis using same(2) by (auto simp: node_at_def respond_Inr next_id_handler_def)
  qed
  with c over s' have "sound_system view s' m" by (cases "as_u32 res = Some (co_next_id s)") simp_all
  moreover have "same_start s s'" "set (co_participants s') \<subseteq> insert addr (set (co_participants s))"
    using c s' same by (auto simp: same_start_def add_participant_def drop_participant_def split: if_splits)
  ultimately show ?thesis by blast
qed

lemma init_participants_sound:
  assumes "sound_system view s m" "co_recovered s" "rm_records (co_log s) = []" "co_del_keys s = []"
    "distinct as" "set as \<subseteq> common s" "set as \<inter> set (co_participants s) = {}"
  shows "sound_system view (fold (init_participant (cluster_call ldb be)) as s) m
    \<and> same_start s (fold (init_participant (cluster_call ldb be)) as s)"
  using assms
proof (induction as arbitrary: s)
  case Nil
  then show ?case by (simp add: same_start_def)
next
  case (Cons a as)
  let ?s = "init_participant (cluster_call ldb be) a s"
  from Cons.prems have "a \<in> common s" "a \<notin> set (co_participants s)" by auto
  note 1 = init_participant_sound [OF Cons.prems(1-4) this refl, of ldb be]
  have "co_recovered ?s" "rm_records (co_log ?s) = []" "co_del_keys ?s = []" "set as \<subseteq> common ?s"
    "set as \<inter> set (co_participants ?s) = {}" "distinct as"
    using 1 Cons.prems by (auto simp: same_start_def common_def)
  with Cons.IH [of ?s] 1 show ?case by (simp add: same_start_def)
qed

section \<open>The start\<close>

text \<open>C10: a coordinator that is stopped while no request is under way can be restarted while calls are
  lost and participants fail: whatever happens to its calls, the start succeeds and leaves a
  sound system on the common store \<open>m\<close>, at the id of its log. It takes over participants that
  answer with this id and no others. The participants may be down or have missed any number of
  updates; what they may not have is a key that is not in \<open>m\<close>, because the keys noted as deleted are
  not kept across a restart.\<close>

theorem start_is_sound:
  assumes "small_store m" "sound_addresses conf" "rm_records lg = []"
    "rm_next_id lg = i" "i \<noteq> 0" "\<not> n_running net"
    "nodes_in (set (conf_addresses conf)) (node_ok view i m {} False) w"
  shows "\<exists>s. start_coordinator (cluster_call ldb be) rnd (new_coordinator conf lg net w) = Inr s
    \<and> sound_system view s m \<and> co_recovered s \<and> co_next_id s = i \<and> n_clients (co_net s) = n_clients net
    \<and> (\<forall>a \<in> set (co_participants s). \<exists>p. cl_nodes (co_world s) a = Some p \<and> view (pt_db p) = m)"
proof -
  let ?call = "cluster_call ldb be"
  obtain net' where net': "server_start net = Inr net'" "n_clients net' = n_clients net"
    using assms(6) by (auto simp: server_start_def)
  let ?s = "(new_coordinator conf lg net w)\<lparr>co_started := True, co_net := net', co_next_id := i\<rparr>"
  have start: "start_coordinator ?call rnd (new_coordinator conf lg net w) =
      handle_unfinished_records ?call (init_participants ?call ?s)"
    using net' assms(4,5) by (simp add: start_coordinator_def recovery_def new_coordinator_def Let_def)
  have "record_is (i - 1) RECORD_UNRESOLVED ?s = False" using assms(3) by (simp add: record_is_def new_coordinator_def)
  with assms have 0: "sound_system view ?s m"
    by (simp add: sound_system_def new_coordinator_def pending_ok_def common_def)
  have "sound_system view (init_participants ?call ?s) m \<and> same_start ?s (init_participants ?call ?s)"
    unfolding init_participants_def
    by (rule init_participants_sound [OF 0])
      (use assms(2,3,5) in \<open>simp_all add: new_coordinator_def common_def sound_addresses_def\<close>)
  moreover from this have "handle_unfinished_records ?call (init_participants ?call ?s) = Inr (init_participants ?call ?s)"
    using assms(3) by (simp add: same_start_def handle_unfinished_records_def new_coordinator_def)
  ultimately show ?thesis
    using start net'(2) sound_store [of view "init_participants ?call ?s" m]
    by (auto simp: same_start_def new_coordinator_def)
qed

theorem start_is_sound_witness:
  "\<exists>s. start_coordinator (cluster_call memtable False) 0
       (new_coordinator (co_conf (sample_system [])) (fresh_log\<lparr>rm_next_id := 2\<rparr>) (sample_net\<lparr>n_running := False\<rparr>)
          \<lparr>cl_nodes = (\<lambda>a. if a = ''a:1'' then Some (idle_node\<lparr>pt_next_id := 2, pt_db := [(''k'', ''v'')]\<rparr>)
             else if a = ''b:1'' then Some idle_node else None), cl_faults = [Deliver, Crash]\<rparr>) = Inr s
     \<and> sound_system map_of s [''k'' \<mapsto> ''v'']"
proof -
  let ?w = "\<lparr>cl_nodes = (\<lambda>a. if a = ''a:1'' then Some (idle_node\<lparr>pt_next_id := 2, pt_db := [(''k'', ''v'')]\<rparr>)
             else if a = ''b:1'' then Some idle_node else None), cl_faults = [Deliver, Crash]\<rparr>"
  have "small_store [''k'' \<mapsto> ''v'']" by (simp add: small_store_def Map.graph_def pair_small_def)
  moreover have "nodes_in (set (conf_addresses (co_conf (sample_system [])))) (node_ok map_of 2 [''k'' \<mapsto> ''v''] {} False) ?w"
    by (simp add: sample_addresses nodes_in_def node_ok_def idle_node_def)
  ultimately show ?thesis
    using start_is_sound [OF _ sample_sound [of "[]"], of "[''k'' \<mapsto> ''v'']" "fresh_log\<lparr>rm_next_id := 2\<rparr>" 2
        "sample_net\<lparr>n_running := False\<rparr>" map_of ?w memtable False 0]
    by (simp add: fresh_log_def) blast
qed

section \<open>The first start\<close>

text \<open>
  With an empty log the coordinator starts at a random id, which it hands to every participant
  that answers, whatever that one stores.
\<close>

definition all_hold :: "('db \<Rightarrow> store) \<Rightarrow> store \<Rightarrow> 'db cluster coordinator \<Rightarrow> bool" where
  "all_hold view m s \<longleftrightarrow> nodes_in (common s) (\<lambda>p. view (pt_db p) = m) (co_world s)"

lemma all_hold_call:
  assumes "all_hold view m s" "rpc_call (cluster_call ldb be) addr req s = (res, s')" "addr \<in> common s"
    "req = Rpc_NEXT_ID \<or> req = Rpc_SET_NEXT_ID i"
  shows "all_hold view m s'"
proof -
  have "nodes_in (common s) (\<lambda>p. view (pt_db p) = m) (co_world s')"
  proof (rule rpc_nodes [OF assms(2) _ assms(3)])
    fix p r p' assume "view (pt_db p) = m" "serve ldb be req p = Inr (r, p')"
    with assms(4) show "view (pt_db p') = m" by (auto simp: respond_Inr next_id_handler_def set_next_id_handler_def)
  qed (use assms(1) in \<open>simp add: all_hold_def\<close>)
  then show ?thesis using rpc_call_rest [OF assms(2)] by (simp add: all_hold_def common_def)
qed

lemma first_init_cases:
  assumes r: "rpc_call call addr Rpc_NEXT_ID s = (res, s1)" and f: "\<not> co_recovered s"
    and r2: "rpc_call call addr (Rpc_SET_NEXT_ID (co_next_id s)) s1 = (res2, s2)"
  shows "init_participant call addr s =
    (if as_u32 res = None then drop_participant addr (add_participant addr s1)
     else if res2 = None then drop_participant addr (add_participant addr s2) else add_participant addr s2)"
  using rpc_call_rest [OF r] f r2
  by (cases "as_u32 res"; cases res2) (simp_all add: init_participant_def rpc_add_participant r)

lemma first_init_sound:
  assumes snd: "sound_system view s m" and f: "\<not> co_recovered s" and hold: "all_hold view m s"
    and idle: "rm_records (co_log s) = []" "co_del_keys s = []"
    and a: "addr \<in> common s" "addr \<notin> set (co_participants s)"
    and s': "s' = init_participant (cluster_call ldb be) addr s"
  shows "sound_system view s' m \<and> all_hold view m s' \<and> same_start s s'
    \<and> set (co_participants s') \<subseteq> insert addr (set (co_participants s))"
proof -
  let ?call = "cluster_call ldb be" and ?req = "Rpc_SET_NEXT_ID (co_next_id s)"
  obtain res s1 where r: "rpc_call ?call addr Rpc_NEXT_ID s = (res, s1)" by fastforce
  obtain res2 s2 where r2: "rpc_call ?call addr ?req s1 = (res2, s2)" by fastforce
  note same = rpc_call_rest [OF r] rpc_call_rest [OF r2]
  have f1: "rm_records (co_log s1) = []" "co_del_keys s1 = []" "addr \<in> common s1" "addr \<notin> set (co_participants s1)"
    and f2: "rm_records (co_log s2) = []" "co_del_keys s2 = []" "addr \<in> common s2" "addr \<notin> set (co_participants s2)"
    using idle a same by (simp_all add: common_def)
  have s1: "sound_system view s1 m" using sound_reading(2) [OF snd r a(1)] a(2) by simp
  have h1: "all_hold view m s1" by (rule all_hold_call [OF hold r a(1)]) simp
  have h2: "all_hold view m s2" by (rule all_hold_call [OF h1 r2 f1(3)]) simp
  have s2: "sound_system view s2 m"
  proof (rule sound_call(2) [OF s1 r2 f1(3)])
    fix p z p' assume p: "cl_nodes (co_world s1) addr = Some p" "node_sound view m s1 p" "serve ldb be ?req p = Inr (z, p')"
    have "view (pt_db p) = m" using nodes_inD [OF h1 [unfolded all_hold_def] f1(3) p(1)] .
    moreover have "p' = p\<lparr>pt_next_id := co_next_id s1\<rparr>" using p(3) same(2) by (auto simp: respond_Inr set_next_id_handler_def)
    ultimately show "node_sound view m s1 p' \<and> (addr \<in> set (co_participants s1) \<longrightarrow> pt_next_id p' = pt_next_id p)"
      using p(2) f1(4) by (simp add: node_sound_def node_ok_def)
  qed (use f1(4) in simp)
  have at2: "node_at (co_world s2) (co_next_id s2) addr" if "res2 \<noteq> None"
  proof -
    from that obtain z where "res2 = Some z" by blast
    with r2 obtain p p' where "serve ldb be ?req p = Inr (z, p')" "cl_nodes (co_world s2) addr = Some p'"
      by (auto elim: rpc_answered)
    then show ?thesis using same by (auto simp: node_at_def respond_Inr set_next_id_handler_def)
  qed
  note c = first_init_cases [OF r f r2]
  have "sound_system view s' m"
    using c s' take_over_sound [OF s1 f1] take_over_sound [OF s2 f2] at2
    by (cases "as_u32 res"; cases res2) simp_all
  moreover have "all_hold view m s'" "same_start s s'" "set (co_participants s') \<subseteq> insert addr (set (co_participants s))"
    using c s' same h1 h2
    by (auto simp: same_start_def add_participant_def drop_participant_def all_hold_def common_def split: if_splits)
  ultimately show ?thesis by blast
qed

lemma first_inits_sound:
  assumes "sound_system view s m" "\<not> co_recovered s" "all_hold view m s" "rm_records (co_log s) = []" "co_del_keys s = []"
    "distinct as" "set as \<subseteq> common s" "set as \<inter> set (co_participants s) = {}"
  shows "sound_system view (fold (init_participant (cluster_call ldb be)) as s) m
    \<and> same_start s (fold (init_participant (cluster_call ldb be)) as s)"
  using assms
proof (induction as arbitrary: s)
  case Nil
  then show ?case by (simp add: same_start_def)
next
  case (Cons a as)
  let ?s = "init_participant (cluster_call ldb be) a s"
  from Cons.prems have "a \<in> common s" "a \<notin> set (co_participants s)" by auto
  note 1 = first_init_sound [OF Cons.prems(1-5) this refl, of ldb be]
  have "\<not> co_recovered ?s" "rm_records (co_log ?s) = []" "co_del_keys ?s = []" "set as \<subseteq> common ?s"
    "set as \<inter> set (co_participants ?s) = {}" "distinct as"
    using 1 Cons.prems by (auto simp: same_start_def common_def)
  with Cons.IH [of ?s] 1 show ?case by (simp add: same_start_def)
qed

text \<open>C11: a first deployment. A coordinator with an empty log starts at the random id it has drawn;
  when every participant that is up holds the same store, has no request queued and is not
  ahead of that id, the start succeeds whatever calls are lost, answered in vain or end with a
  crash, and leaves a sound system: the participants it has taken over have its id and the
  common store, so requests are served as \<open>clients_share_one_store\<close> says. It is not recovered:
  a participant that has been missed, or is lost afterwards, comes back unchecked at the first
  heartbeat that readmits one (\<open>fresh_coordinator_readmits_stale_store\<close>).\<close>

theorem first_start_is_sound:
  assumes "small_store m" "sound_addresses conf" "rm_records lg = []" "rm_next_id lg = 0" "\<not> n_running net"
    "\<forall>a \<in> set (conf_addresses conf). \<forall>p. cl_nodes w a = Some p \<longrightarrow>
       view (pt_db p) = m \<and> pt_requests p = [] \<and> pt_next_id p \<le> rnd"
  shows "\<exists>s. start_coordinator (cluster_call ldb be) rnd (new_coordinator conf lg net w) = Inr s
    \<and> sound_system view s m \<and> \<not> co_recovered s \<and> co_next_id s = rnd \<and> n_clients (co_net s) = n_clients net
    \<and> (\<forall>a \<in> set (co_participants s). \<exists>p. cl_nodes (co_world s) a = Some p
         \<and> pt_next_id p = rnd \<and> view (pt_db p) = m)"
proof -
  let ?call = "cluster_call ldb be"
  obtain net' where net': "server_start net = Inr net'" "n_clients net' = n_clients net"
    using assms(5) by (auto simp: server_start_def)
  let ?s = "(new_coordinator conf lg net w)\<lparr>co_started := True, co_net := net', co_next_id := rnd, co_recovered := False\<rparr>"
  have start: "start_coordinator ?call rnd (new_coordinator conf lg net w) =
      handle_unfinished_records ?call (init_participants ?call ?s)"
    using net' assms(4) by (simp add: start_coordinator_def recovery_def new_coordinator_def Let_def)
  have no: "record_is (rnd - 1) RECORD_UNRESOLVED ?s = False" using assms(3) by (simp add: record_is_def new_coordinator_def)
  have nodes: "nodes_in (common ?s) (node_ok view rnd m {} False) w" "all_hold view m ?s"
    using assms(6) by (auto simp: nodes_in_def node_ok_def all_hold_def common_def new_coordinator_def)
  with assms(1-5) no have 0: "sound_system view ?s m"
    by (simp add: sound_system_def new_coordinator_def pending_ok_def common_def)
  have "sound_system view (init_participants ?call ?s) m \<and> same_start ?s (init_participants ?call ?s)"
    unfolding init_participants_def
    by (rule first_inits_sound [OF 0])
      (use assms(2,3) nodes(2) in \<open>simp_all add: new_coordinator_def common_def sound_addresses_def\<close>)
  moreover from this have "handle_unfinished_records ?call (init_participants ?call ?s) = Inr (init_participants ?call ?s)"
    using assms(3) by (simp add: same_start_def handle_unfinished_records_def new_coordinator_def)
  ultimately show ?thesis
    using start net'(2) sound_store [of view "init_participants ?call ?s" m]
    by (auto simp: same_start_def)
qed

theorem first_start_is_sound_witness:
  "\<exists>s. start_coordinator (cluster_call memtable False) 7
       (new_coordinator (co_conf (sample_system [])) fresh_log (sample_net\<lparr>n_running := False\<rparr>)
          \<lparr>cl_nodes = (\<lambda>a. if a = ''a:1'' \<or> a = ''b:1'' then Some idle_node else None),
           cl_faults = [Deliver, Deliver, Deliver, Lose_Answer]\<rparr>) = Inr s
     \<and> sound_system map_of s Map.empty \<and> co_next_id s = 7"
proof -
  let ?w = "\<lparr>cl_nodes = (\<lambda>a. if a = ''a:1'' \<or> a = ''b:1'' then Some idle_node else None),
           cl_faults = [Deliver, Deliver, Deliver, Lose_Answer]\<rparr>"
  have "\<forall>a \<in> set (conf_addresses (co_conf (sample_system []))). \<forall>p. cl_nodes ?w a = Some p \<longrightarrow>
      map_of (pt_db p) = Map.empty \<and> pt_requests p = [] \<and> pt_next_id p \<le> 7"
    by (simp add: sample_addresses idle_node_def)
  moreover have "small_store Map.empty" by (simp add: small_store_def Map.graph_def)
  ultimately show ?thesis
    using first_start_is_sound [OF _ sample_sound [of "[]"], of Map.empty fresh_log "sample_net\<lparr>n_running := False\<rparr>"
        ?w map_of 7 memtable False]
    by (simp add: fresh_log_def) blast
qed

end
