(* ===== verification/Concurrent_Clients.thy ===== *)
theory Concurrent_Clients
  imports Fault_Tolerance "HOL-Library.Sublist"
begin

text \<open>
  Many clients at once (\<^verbatim>\<open>handle_db_requests\<close>, \<^verbatim>\<open>heartbeat_participants\<close> in \<^verbatim>\<open>Lab3/src/coordinator.cpp\<close>,
  run by the workers of \<^verbatim>\<open>tcp_server/thread_pool.cpp\<close> and by the heartbeat thread). Clients come, send
  bytes, take their answers and leave. The handler of a read parses what it has got, executes the
  commands one after the other, each under \<^verbatim>\<open>participants_mutex_\<close>, and asks for more; between any two
  of these steps the handlers of other clients and the heartbeat go on. What clients see of such a
  system is one store that executes their requests one at a time. The recovery at start-up is over
  when the first request comes; \<open>Recovery_Race\<close> is about what happens when it is not. Participants
  fail where the coordinator can notice it: at a call.
\<close>

section \<open>Handlers in steps\<close>

text \<open>
  A handler that is running: the commands it has still to execute, and how its parsing has ended.
  \<open>sv_received\<close> is the view from outside: what has been written to the connection of each client
  there has been, with the mark of the answers after which the connection is closed.
\<close>

record read_handler =
  hd_cmds :: "command list"
  hd_rest :: string
  hd_error :: "exn option"

record 'w serving =
  sv_system :: "'w coordinator"
  sv_handlers :: "nat \<Rightarrow> read_handler option"
  sv_pinged :: "string option"
  sv_received :: "nat \<Rightarrow> (string \<times> bool) list option"

definition begin_handler :: "nat \<Rightarrow> string option \<Rightarrow> string \<Rightarrow> 'w serving \<Rightarrow> 'w serving" where
  "begin_handler client prev_data req_data sv =
     (let dat = (case prev_data of None \<Rightarrow> [] | Some prev \<Rightarrow> prev) @ req_data;
          (cmds, parsed, err) = parse_db_requests dat
      in sv\<lparr>sv_handlers := (sv_handlers sv)(client \<mapsto>
              \<lparr>hd_cmds = cmds, hd_rest = drop parsed dat, hd_error = err\<rparr>)\<rparr>)"

text \<open>A client is accepted; its read becomes available, or fails; its first pending answer is written, or not.\<close>

definition accept_step :: "nat \<Rightarrow> nat \<Rightarrow> 'w serving \<Rightarrow> 'w serving" where
  "accept_step client fd sv =
     (let s = sv_system sv;
          net = server_accept (\<lambda>h n. co_net (handle_new_client h (s\<lparr>co_net := n\<rparr>))) client (Some fd) (co_net s)
      in sv\<lparr>sv_system := s\<lparr>co_net := net\<rparr>, sv_received := (sv_received sv)(client \<mapsto> [])\<rparr>)"

definition read_step :: "nat \<Rightarrow> string option \<Rightarrow> 'w serving \<Rightarrow> 'w serving" where
  "read_step client dat sv =
     (let s = sv_system sv;
          (cb, net) = on_read_available client (\<lambda>_. dat) False (co_net s);
          sv1 = sv\<lparr>sv_system := s\<lparr>co_net := net\<rparr>\<rparr>
      in case cb of
           None \<Rightarrow> sv1
         | Some (prev_data, None) \<Rightarrow> sv\<lparr>sv_system := s\<lparr>co_net := disconnect client net\<rparr>\<rparr>
         | Some (prev_data, Some req_data) \<Rightarrow> begin_handler client prev_data req_data sv1)"

definition write_step :: "nat \<Rightarrow> bool \<Rightarrow> 'w serving \<Rightarrow> 'w serving" where
  "write_step client ok sv =
     (let s = sv_system sv
      in sv\<lparr>sv_system := client_writable client (\<lambda>_. ok) False s,
            sv_received :=
              (if ok then (sv_received sv)
                 (client := map_option (\<lambda>got. got @ take 1 (tc_writes (n_clients (co_net s) client))) (sv_received sv client))
               else sv_received sv)\<rparr>)"

definition command_step :: "'w rpc \<Rightarrow> nat \<Rightarrow> read_handler \<Rightarrow> command \<Rightarrow> command list \<Rightarrow> 'w serving \<Rightarrow> 'w serving" where
  "command_step call client h c cs sv =
     sv\<lparr>sv_system := dispatch_request call client c (sv_system sv),
        sv_handlers := (sv_handlers sv)(client \<mapsto> h\<lparr>hd_cmds := cs\<rparr>)\<rparr>"

definition end_step :: "nat \<Rightarrow> read_handler \<Rightarrow> 'w serving \<Rightarrow> 'w serving" where
  "end_step client h sv =
     sv\<lparr>sv_system :=
          (case hd_error h of
             Some e \<Rightarrow> handle_command_error client (hd_rest h) (is_incomplete_error e) (sv_system sv)
           | None \<Rightarrow> read_again client None (sv_system sv)),
        sv_handlers := (sv_handlers sv)(client := None)\<rparr>"

text \<open>
  The heartbeat thread calls the next participant without the lock; \<open>sv_pinged\<close> is the one that has
  answered. A call that fails is one step with the removal from the map that follows it: until
  then requests see a participant that fails just as they see one that is still up.
\<close>

definition ping_step :: "'w rpc \<Rightarrow> string \<Rightarrow> 'w serving \<Rightarrow> 'w serving" where
  "ping_step call addr sv =
     (case rpc_call call addr Rpc_HEARTBEAT (sv_system sv) of
        (None, s1) \<Rightarrow> sv\<lparr>sv_system := drop_participant addr s1\<rparr>
      | (Some _, s1) \<Rightarrow> sv\<lparr>sv_system := s1, sv_pinged := Some addr\<rparr>)"

definition locked_step :: "'w rpc \<Rightarrow> string \<Rightarrow> 'w serving \<Rightarrow> 'w serving result" where
  "locked_step call addr sv =
     (case heartbeat_locked call addr (sv_system sv) of
        Inl e \<Rightarrow> Inl e
      | Inr s1 \<Rightarrow> Inr (sv\<lparr>sv_system := s1, sv_pinged := None\<rparr>))"

lemma heartbeat_steps_undisturbed:
  assumes "sv_pinged sv = None" "heartbeat_participant call addr (sv_system sv) = Inr s'"
  shows "(case sv_pinged (ping_step call addr sv) of
            None \<Rightarrow> Inr (ping_step call addr sv)
          | Some a \<Rightarrow> locked_step call a (ping_step call addr sv)) = Inr (sv\<lparr>sv_system := s'\<rparr>)"
  using assms by (auto simp: heartbeat_participant_steps ping_step_def locked_step_def split: option.splits prod.splits)

text \<open>Undisturbed, the steps of a handler are \<^verbatim>\<open>handle_db_requests\<close> behind a read of the client.\<close>

definition handler_steps :: "'w rpc \<Rightarrow> nat \<Rightarrow> string option \<Rightarrow> 'w serving \<Rightarrow> 'w serving" where
  "handler_steps call client dat sv =
     (let sv1 = read_step client dat sv
      in case sv_handlers sv1 client of
           None \<Rightarrow> sv1
         | Some h \<Rightarrow>
             end_step client (h\<lparr>hd_cmds := []\<rparr>)
               (sv1\<lparr>sv_system := fold (dispatch_request call client) (hd_cmds h) (sv_system sv1),
                    sv_handlers := (sv_handlers sv1)(client \<mapsto> h\<lparr>hd_cmds := []\<rparr>)\<rparr>))"

lemma handler_steps_undisturbed:
  assumes "sv_handlers sv client = None" "tc_reads (n_clients (co_net (sv_system sv)) client) \<noteq> []"
  shows "handler_steps call client dat sv =
    sv\<lparr>sv_system := client_readable call client (\<lambda>_. dat) False (sv_system sv)\<rparr>"
proof (cases dat)
  case None
  obtain cb net where "on_read_available client (\<lambda>_. dat) False (co_net (sv_system sv)) = (Some (cb, None), net)"
    using assms(2) None
    by (cases "tc_reads (n_clients (co_net (sv_system sv)) client)")
      (auto simp: on_read_available_def do_read_def Let_def split: prod.split)
  with assms(1) show ?thesis
    by (simp add: handler_steps_def read_step_def client_readable_def handle_db_requests_def Let_def)
next
  case (Some d)
  obtain len prev rest where "tc_reads (n_clients (co_net (sv_system sv)) client) = (len, prev) # rest"
    using assms(2) by (cases "tc_reads (n_clients (co_net (sv_system sv)) client)") auto
  then obtain net where r: "on_read_available client (\<lambda>_. Some d) False (co_net (sv_system sv)) = (Some (prev, Some d), net)"
    by (simp add: on_read_available_def do_read_def Let_def)
  obtain cmds n err where p: "parse_db_requests ((case prev of None \<Rightarrow> [] | Some d \<Rightarrow> d) @ d) = (cmds, n, err)"
    by (metis prod_cases3)
  have "(sv_handlers sv)(client := None) = sv_handlers sv" using assms(1) by auto
  with r p Some show ?thesis
    by (cases err) (simp_all add: handler_steps_def read_step_def begin_handler_def end_step_def client_readable_def
        handle_db_requests_def Let_def)
qed

section \<open>Runs\<close>

text \<open>
  What can happen next: a new client comes; a client whose read is pending and whose handler is not
  running (the reactor runs one callback of a kind at a time for it) sends bytes or hangs up; a
  pending answer is written, which may fail; a handler goes on; the heartbeat thread calls an
  address, or takes the lock after an answer: the participant is in the map, or is readmitted.
  A request, and what the heartbeat does under the lock, is one step because \<^verbatim>\<open>participants_mutex_\<close>
  is held for it, from the first call to a participant to the answer. So nothing is said of how
  long a handler waits for the lock or for its calls. A run yields its history: the requests in the order
  in which they are executed, each with its client and whether a participant was left in the map
  after it.
\<close>

datatype client_event =
    Accepts nat nat
  | Sends nat string
  | Hangs_Up nat
  | Takes nat bool
  | Works nat
  | Pings string
  | Stays
  | Joins

type_synonym history = "(nat \<times> command \<times> bool) list"

inductive runs :: "'w rpc \<Rightarrow> client_event list \<Rightarrow> 'w serving \<Rightarrow> history \<Rightarrow> 'w serving \<Rightarrow> bool"
  for call :: "'w rpc" where
  runs_nil: "runs call [] sv [] sv"
| runs_accept: "sv_received sv cl = None \<Longrightarrow>
    runs call evs (accept_step cl fd sv) hist sv' \<Longrightarrow>
    runs call (Accepts cl fd # evs) sv hist sv'"
| runs_send: "sv_handlers sv cl = None \<Longrightarrow> tc_reads (n_clients (co_net (sv_system sv)) cl) \<noteq> [] \<Longrightarrow>
    runs call evs (read_step cl (Some dat) sv) hist sv' \<Longrightarrow>
    runs call (Sends cl dat # evs) sv hist sv'"
| runs_hang_up: "sv_handlers sv cl = None \<Longrightarrow> tc_reads (n_clients (co_net (sv_system sv)) cl) \<noteq> [] \<Longrightarrow>
    runs call evs (read_step cl None sv) hist sv' \<Longrightarrow>
    runs call (Hangs_Up cl # evs) sv hist sv'"
| runs_write: "tc_writes (n_clients (co_net (sv_system sv)) cl) \<noteq> [] \<Longrightarrow>
    runs call evs (write_step cl ok sv) hist sv' \<Longrightarrow>
    runs call (Takes cl ok # evs) sv hist sv'"
| runs_command: "sv_handlers sv cl = Some h \<Longrightarrow> hd_cmds h = c # cs \<Longrightarrow>
    runs call evs (command_step call cl h c cs sv) hist sv' \<Longrightarrow>
    left = (co_participants (dispatch_request call cl c (sv_system sv)) \<noteq> []) \<Longrightarrow>
    runs call (Works cl # evs) sv ((cl, c, left) # hist) sv'"
| runs_end: "sv_handlers sv cl = Some h \<Longrightarrow> hd_cmds h = [] \<Longrightarrow>
    runs call evs (end_step cl h sv) hist sv' \<Longrightarrow>
    runs call (Works cl # evs) sv hist sv'"
| runs_ping: "sv_pinged sv = None \<Longrightarrow>
    runs call evs (ping_step call addr sv) hist sv' \<Longrightarrow>
    runs call (Pings addr # evs) sv hist sv'"
| runs_stay: "sv_pinged sv = Some addr \<Longrightarrow> addr \<in> set (co_participants (sv_system sv)) \<Longrightarrow>
    locked_step call addr sv = Inr sv1 \<Longrightarrow>
    runs call evs sv1 hist sv' \<Longrightarrow>
    runs call (Stays # evs) sv hist sv'"
| runs_join: "sv_pinged sv = Some addr \<Longrightarrow> addr \<notin> set (co_participants (sv_system sv)) \<Longrightarrow>
    locked_step call addr sv = Inr sv1 \<Longrightarrow>
    runs call evs sv1 hist sv' \<Longrightarrow>
    runs call (Joins # evs) sv hist sv'"

fun sent :: "nat \<Rightarrow> client_event list \<Rightarrow> string" where
  "sent cl [] = []"
| "sent cl (ev # evs) = (case ev of Sends b dat \<Rightarrow> if b = cl then dat else [] | _ \<Rightarrow> []) @ sent cl evs"

text \<open>A client that stays until it is told that nothing can be done.\<close>

definition patient :: "nat \<Rightarrow> client_event list \<Rightarrow> bool" where
  "patient cl evs \<longleftrightarrow> Hangs_Up cl \<notin> set evs \<and> Takes cl False \<notin> set evs"

section \<open>The specification\<close>

text \<open>
  A store that executes the requests of a history one after the other, with the answers it gives:
  the right ones while a participant is left; otherwise those that \<open>outcome\<close> allows.
\<close>

type_synonym reply = "string \<times> bool"

fun explains :: "history \<Rightarrow> reply list \<Rightarrow> store \<Rightarrow> store \<Rightarrow> bool" where
  "explains [] [] m m' = (m' = m)"
| "explains ((cl, c, left) # hist) (r # rs) m m' =
     ((left \<longrightarrow> r = (answer c m, False))
      \<and> (\<exists>m1. outcome c m r m1 \<and> explains hist rs m1 m'))"
| "explains _ _ m m' = False"

definition commands_of :: "nat \<Rightarrow> history \<Rightarrow> command list" where
  "commands_of cl hist = map (fst \<circ> snd) (filter (\<lambda>e. fst e = cl) hist)"

definition replies_to :: "nat \<Rightarrow> history \<Rightarrow> reply list \<Rightarrow> reply list" where
  "replies_to cl hist rs = map snd (filter (\<lambda>e. fst (fst e) = cl) (zip hist rs))"

lemma projections_simps [simp]:
  "commands_of cl [] = []"
  "commands_of cl ((b, c, left) # hist) = (if b = cl then [c] else []) @ commands_of cl hist"
  "replies_to cl [] rs = []"
  "replies_to cl ((b, c, left) # hist) (r # rs) = (if b = cl then [r] else []) @ replies_to cl hist rs"
  by (simp_all add: commands_of_def replies_to_def)

section \<open>What a client has still to come\<close>

text \<open>
  The commands \<open>cs\<close> of a client have still to be executed when \<open>coming\<close> are the bytes it has still
  to send: what its handler has parsed, and what is in the bytes that are left over and coming. The
  bytes left over alone hold no command.
\<close>

definition no_command :: "string \<Rightarrow> bool" where
  "no_command dat \<longleftrightarrow> fst (parse_db_requests dat) = []"

definition expects :: "nat \<Rightarrow> command list \<Rightarrow> string \<Rightarrow> 'w serving \<Rightarrow> bool" where
  "expects cl cs coming sv \<longleftrightarrow>
     (case sv_handlers sv cl of
        None \<Rightarrow> (\<exists>prev n e. waits_with cl prev (sv_system sv) \<and> no_command prev
                   \<and> parse_db_requests (prev @ coming) = (cs, n, e) \<and> resumable e)
      | Some h \<Rightarrow>
          tc_connected (n_clients (co_net (sv_system sv)) cl) \<and> tc_reads (n_clients (co_net (sv_system sv)) cl) = []
          \<and> resumable (hd_error h) \<and> (hd_error h = None \<longrightarrow> hd_rest h = []) \<and> no_command (hd_rest h)
          \<and> (\<exists>cs2 n e. cs = hd_cmds h @ cs2 \<and> parse_db_requests (hd_rest h @ coming) = (cs2, n, e) \<and> resumable e))"

lemma expects_frame:
  assumes "expects cl cs coming sv" "sv_handlers sv' cl = sv_handlers sv cl"
    "tc_connected (n_clients (co_net (sv_system sv')) cl) = tc_connected (n_clients (co_net (sv_system sv)) cl)"
    "tc_reads (n_clients (co_net (sv_system sv')) cl) = tc_reads (n_clients (co_net (sv_system sv)) cl)"
  shows "expects cl cs coming sv'"
proof -
  have "waits_with cl prev (sv_system sv') = waits_with cl prev (sv_system sv)" for prev
    using assms(3,4) by (simp add: waits_with_def)
  with assms show ?thesis by (simp add: expects_def split: option.splits)
qed

lemma expects_connected: "expects cl cs coming sv \<Longrightarrow> tc_connected (n_clients (co_net (sv_system sv)) cl)"
  by (auto simp: expects_def waits_with_def split: option.splits)

lemma parse_none_rest:
  assumes "parse_db_requests d = (cs, n, None)"
  shows "drop n d = []"
  using parse_loop_bounds [of "new_parser d" cs n None] assms new_parser_ahead(1)
  by (simp add: parse_db_requests_def new_parser_def)

lemma rest_no_command:
  assumes "parse_db_requests d = (cs, n, e)" "resumable e"
  shows "no_command (drop n d)"
proof -
  have "parse_db_requests (d @ [] @ []) = (cs, n, e)" using assms(1) by simp
  then obtain cs1 n1 e1 cs2 n2 e2 where "parse_db_requests (d @ []) = (cs1, n1, e1)"
    "parse_db_requests (drop n1 (d @ []) @ []) = (cs2, n2, e2)" "cs = cs1 @ cs2"
    by (rule parse_pieces [OF _ assms(2)])
  then show ?thesis using assms(1) by (simp add: no_command_def)
qed

section \<open>What a step touches\<close>

text \<open>A step on one client leaves the others alone; most steps only touch the network.\<close>

definition own_step :: "nat \<Rightarrow> 'w serving \<Rightarrow> 'w serving \<Rightarrow> bool" where
  "own_step cl sv sv' \<longleftrightarrow>
     sv_pinged sv' = sv_pinged sv
     \<and> (\<forall>b. b \<noteq> cl \<longrightarrow> n_clients (co_net (sv_system sv')) b = n_clients (co_net (sv_system sv)) b
         \<and> sv_handlers sv' b = sv_handlers sv b \<and> sv_received sv' b = sv_received sv b)"

definition net_step :: "nat \<Rightarrow> 'w serving \<Rightarrow> 'w serving \<Rightarrow> bool" where
  "net_step cl sv sv' \<longleftrightarrow> own_step cl sv sv' \<and> (\<exists>net. sv_system sv' = (sv_system sv)\<lparr>co_net := net\<rparr>)"

lemma disconnect_clients:
  "n_clients (disconnect h n) = (if tc_connected (n_clients n h)
     then (n_clients n)(h := (n_clients n h)\<lparr>tc_connected := False, tc_reads := [], tc_writes := []\<rparr>) else n_clients n)"
  by (simp add: disconnect_def on_client_disconnect_def put_client_def Let_def)

lemma accept_step_net: "net_step cl sv (accept_step cl fd sv)"
  by (auto simp: net_step_def own_step_def accept_step_def server_accept_def handle_new_client_def read_again_def
      async_read_def put_client_def new_client_def Let_def)

lemma accept_step_clients:
  "n_clients (co_net (sv_system (accept_step cl fd sv))) cl =
     (new_client fd)\<lparr>tc_reads := [(1024, None)], tc_on_disconnection := True\<rparr>"
  "sv_received (accept_step cl fd sv) cl = Some []" "sv_handlers (accept_step cl fd sv) = sv_handlers sv"
  by (simp_all add: accept_step_def server_accept_def handle_new_client_def read_again_def
      async_read_def put_client_def new_client_def Let_def)

text \<open>A read with \<open>prev\<close> carried over: of bytes, or of nothing any more.\<close>

lemma read_step_cases:
  assumes "tc_reads (n_clients (co_net (sv_system sv)) cl) = (n, prev) # rest"
  shows "net_step cl sv (read_step cl dat sv)"
    and "sv_received (read_step cl dat sv) = sv_received sv"
    and "n_clients (co_net (sv_system (read_step cl dat sv))) cl =
      (let c = (n_clients (co_net (sv_system sv)) cl)\<lparr>tc_reads := rest\<rparr>
       in if dat = None \<and> tc_connected c then c\<lparr>tc_connected := False, tc_reads := [], tc_writes := []\<rparr> else c)"
    and "sv_handlers (read_step cl dat sv) =
      (case dat of None \<Rightarrow> sv_handlers sv
       | Some d \<Rightarrow> sv_handlers (begin_handler cl prev d sv))"
proof -
  let ?net = "co_net (sv_system sv)"
  obtain net where net: "on_read_available cl (\<lambda>_. dat) False ?net = (Some (prev, dat), net)"
    "n_clients net = (n_clients ?net)(cl := n_clients net cl)"
    "n_clients net cl = (let c = (n_clients ?net cl)\<lparr>tc_reads := rest\<rparr>
       in if dat = None \<and> tc_connected c then c\<lparr>tc_connected := False, tc_reads := [], tc_writes := []\<rparr> else c)"
    using assms by (cases dat) (simp_all add: on_read_available_def do_read_def disconnect_clients put_client_def Let_def)
  have sv': "sv_system (read_step cl dat sv) = (sv_system sv)\<lparr>co_net := co_net (sv_system (read_step cl dat sv))\<rparr>"
    "n_clients (co_net (sv_system (read_step cl dat sv))) = n_clients net"
    "sv_received (read_step cl dat sv) = sv_received sv" "sv_pinged (read_step cl dat sv) = sv_pinged sv"
    "sv_handlers (read_step cl dat sv) =
      (case dat of None \<Rightarrow> sv_handlers sv | Some d \<Rightarrow> sv_handlers (begin_handler cl prev d sv))"
    using net(3) by (simp_all add: read_step_def net(1) begin_handler_def disconnect_clients Let_def
        split: option.split prod.split)
  have others: "n_clients net b = n_clients ?net b" if "b \<noteq> cl" for b using net(2) that by (metis fun_upd_other)
  moreover have "sv_handlers (read_step cl dat sv) b = sv_handlers sv b" if "b \<noteq> cl" for b
    using that by (simp add: sv'(5) begin_handler_def split: option.split prod.split)
  ultimately have "own_step cl sv (read_step cl dat sv)" using sv'(2-4) by (simp add: own_step_def)
  with sv'(1) show "net_step cl sv (read_step cl dat sv)" unfolding net_step_def by blast
  show "sv_received (read_step cl dat sv) = sv_received sv" by (rule sv'(3))
  show "n_clients (co_net (sv_system (read_step cl dat sv))) cl =
      (let c = (n_clients ?net cl)\<lparr>tc_reads := rest\<rparr>
       in if dat = None \<and> tc_connected c then c\<lparr>tc_connected := False, tc_reads := [], tc_writes := []\<rparr> else c)"
    using sv'(2) net(3) by simp
  show "sv_handlers (read_step cl dat sv) =
      (case dat of None \<Rightarrow> sv_handlers sv | Some d \<Rightarrow> sv_handlers (begin_handler cl prev d sv))" by (rule sv'(5))
qed

text \<open>A write: the answer is gone, and the connection with it when the write fails or the answer was the last.\<close>

lemma write_step_cases:
  assumes "tc_writes (n_clients (co_net (sv_system sv)) cl) = w # rest"
  shows "net_step cl sv (write_step cl ok sv)"
    and "sv_handlers (write_step cl ok sv) = sv_handlers sv"
    and "sv_received (write_step cl ok sv) cl =
      (if ok then map_option (\<lambda>got. got @ [w]) (sv_received sv cl) else sv_received sv cl)"
    and "n_clients (co_net (sv_system (write_step cl ok sv))) cl =
      (let c = (n_clients (co_net (sv_system sv)) cl)\<lparr>tc_writes := rest\<rparr>
       in if tc_connected c \<and> (\<not> ok \<or> snd w) then c\<lparr>tc_connected := False, tc_reads := [], tc_writes := []\<rparr> else c)"
proof -
  obtain x cb where w: "w = (x, cb)" by fastforce
  have "\<exists>net. sv_system (write_step cl ok sv) = (sv_system sv)\<lparr>co_net := net\<rparr>"
    by (auto simp: write_step_def client_writable_def Let_def split: prod.split)
  moreover have "own_step cl sv (write_step cl ok sv)"
    using assms by (auto simp: w own_step_def write_step_def client_writable_def on_write_available_def do_write_def
        disconnect_clients put_client_def Let_def)
  ultimately show "net_step cl sv (write_step cl ok sv)" by (simp add: net_step_def)
  show "sv_handlers (write_step cl ok sv) = sv_handlers sv" by (simp add: write_step_def Let_def)
  show "sv_received (write_step cl ok sv) cl =
      (if ok then map_option (\<lambda>got. got @ [w]) (sv_received sv cl) else sv_received sv cl)"
    using assms by (simp add: write_step_def Let_def)
  show "n_clients (co_net (sv_system (write_step cl ok sv))) cl =
      (let c = (n_clients (co_net (sv_system sv)) cl)\<lparr>tc_writes := rest\<rparr>
       in if tc_connected c \<and> (\<not> ok \<or> snd w) then c\<lparr>tc_connected := False, tc_reads := [], tc_writes := []\<rparr> else c)"
    using assms by (auto simp: w write_step_def client_writable_def on_write_available_def do_write_def
        disconnect_clients put_client_def Let_def)
qed

lemma end_step_net: "net_step cl sv (end_step cl h sv)"
  by (auto simp: net_step_def own_step_def end_step_def handle_command_error_def send_error_def send_result_def
      async_write_def read_again_def async_read_def disconnect_clients put_client_def Let_def
      split: option.split sum.split intro: exI [of _ "co_net (sv_system sv)"])

lemma end_step_gone:
  assumes "\<not> tc_connected (n_clients (co_net (sv_system sv)) cl)"
  shows "n_clients (co_net (sv_system (end_step cl h sv))) cl = n_clients (co_net (sv_system sv)) cl"
  using assms by (auto simp: end_step_def handle_command_error_def send_error_def send_result_def
      async_write_def read_again_def async_read_def disconnect_clients put_client_def Let_def
      split: option.split sum.split)

lemma end_step_sel [simp]:
  "sv_received (end_step cl h sv) = sv_received sv" "sv_handlers (end_step cl h sv) = (sv_handlers sv)(cl := None)"
  by (simp_all add: end_step_def)

lemma command_step_own:
  assumes "adds_answer cl r (sv_system sv) (dispatch_request call cl c (sv_system sv))"
  shows "own_step cl sv (command_step call cl h c cs sv)"
  using assms by (simp add: own_step_def command_step_def adds_answer_def)

lemma command_step_sel [simp]:
  "sv_received (command_step call cl h c cs sv) = sv_received sv"
  "sv_handlers (command_step call cl h c cs sv) = (sv_handlers sv)(cl \<mapsto> h\<lparr>hd_cmds := cs\<rparr>)"
  "sv_system (command_step call cl h c cs sv) = dispatch_request call cl c (sv_system sv)"
  by (simp_all add: command_step_def)

section \<open>What holds for a client\<close>

text \<open>
  \<open>cs\<close> are the commands of a client that have still to be executed and \<open>coming\<close> the bytes it has
  still to send; \<open>rs\<close> are the answers to the commands that have been executed. A connected client
  has received a part of them and is owed the rest. One that is gone has received some of them;
  if it was patient the last of these has closed the connection. Its handler may still be at work.
\<close>

definition parses_to :: "string \<Rightarrow> command list \<Rightarrow> bool" where
  "parses_to dat cs \<longleftrightarrow> (\<exists>n e. parse_db_requests dat = (cs, n, e) \<and> resumable e)"

definition client_ok :: "bool \<Rightarrow> nat \<Rightarrow> command list \<Rightarrow> string \<Rightarrow> reply list \<Rightarrow> 'w serving \<Rightarrow> bool" where
  "client_ok stays cl cs coming rs sv \<longleftrightarrow>
     (let c = n_clients (co_net (sv_system sv)) cl
      in case sv_received sv cl of
           None \<Rightarrow> sv_handlers sv cl = None \<and> \<not> tc_connected c \<and> tc_reads c = [] \<and> tc_writes c = []
             \<and> rs = [] \<and> parses_to coming cs
         | Some got \<Rightarrow>
             if tc_connected c then got @ tc_writes c = rs \<and> expects cl cs coming sv
             else tc_reads c = [] \<and> tc_writes c = [] \<and> prefix got rs
               \<and> (stays \<longrightarrow> (\<exists>x. (x, True) \<in> set got))
               \<and> (\<forall>h. sv_handlers sv cl = Some h \<longrightarrow> prefix (hd_cmds h) cs))"

lemma client_ok_frame:
  assumes "client_ok p cl cs coming rs sv" "sv_handlers sv' cl = sv_handlers sv cl" "sv_received sv' cl = sv_received sv cl"
    "n_clients (co_net (sv_system sv')) cl = n_clients (co_net (sv_system sv)) cl"
  shows "client_ok p cl cs coming rs sv'"
proof -
  have "expects cl cs coming sv' = expects cl cs coming sv"
    using expects_frame [of cl cs coming sv sv'] expects_frame [of cl cs coming sv' sv] assms(2,4) by auto
  with assms show ?thesis by (cases "sv_received sv cl") (simp_all add: client_ok_def Let_def)
qed

lemma client_ok_accept:
  assumes "client_ok p cl cs coming rs sv" "sv_received sv cl = None"
  shows "client_ok p cl cs coming rs (accept_step cl fd sv)"
proof -
  have 1: "sv_handlers sv cl = None" "rs = []" "parses_to coming cs"
    using assms by (simp_all add: client_ok_def Let_def)
  have "waits_with cl [] (sv_system (accept_step cl fd sv))"
    by (simp add: waits_with_def accept_step_clients new_client_def)
  moreover have "no_command []" using rest_no_command [of "[]" "[]" 0 None] parse_requests_from [of "[]" "new_parser []"]
    by (simp add: no_command_def parse_db_requests_def new_parser_def new_parser_ahead p_wf_def ahead_def)
  ultimately have "expects cl cs coming (accept_step cl fd sv)"
    using 1 by (auto simp: expects_def accept_step_clients parses_to_def intro!: exI [of _ "[]"])
  then show ?thesis using 1(2) by (simp add: client_ok_def accept_step_clients new_client_def)
qed

text \<open>Where something is read or written, the client is connected.\<close>

lemma client_ok_connected:
  assumes "client_ok p cl cs coming rs sv"
    "tc_reads (n_clients (co_net (sv_system sv)) cl) \<noteq> [] \<or> tc_writes (n_clients (co_net (sv_system sv)) cl) \<noteq> []"
  obtains got where "sv_received sv cl = Some got" "tc_connected (n_clients (co_net (sv_system sv)) cl)"
    "got @ tc_writes (n_clients (co_net (sv_system sv)) cl) = rs" "expects cl cs coming sv"
  using assms by (auto simp: client_ok_def Let_def split: option.splits if_splits)

lemma expects_reads:
  assumes "expects cl cs coming sv" "sv_handlers sv cl = None"
  obtains pv where "tc_reads (n_clients (co_net (sv_system sv)) cl) = [(1024, pv)]"
    "no_command (case pv of None \<Rightarrow> [] | Some d \<Rightarrow> d)" "parses_to ((case pv of None \<Rightarrow> [] | Some d \<Rightarrow> d) @ coming) cs"
  using assms by (auto simp: expects_def waits_with_def parses_to_def)

lemma client_ok_send:
  assumes ok: "client_ok p cl cs (d @ coming) rs sv" and h: "sv_handlers sv cl = None"
    and rd: "tc_reads (n_clients (co_net (sv_system sv)) cl) \<noteq> []"
  shows "client_ok p cl cs coming rs (read_step cl (Some d) sv)"
proof -
  obtain got where c: "sv_received sv cl = Some got" "tc_connected (n_clients (co_net (sv_system sv)) cl)"
    "got @ tc_writes (n_clients (co_net (sv_system sv)) cl) = rs" "expects cl cs (d @ coming) sv"
    using client_ok_connected [OF ok] rd by blast
  obtain pv where pv: "tc_reads (n_clients (co_net (sv_system sv)) cl) = [(1024, pv)]"
    and ps: "parses_to ((case pv of None \<Rightarrow> [] | Some d \<Rightarrow> d) @ d @ coming) cs" by (rule expects_reads [OF c(4) h])
  define prev where "prev = (case pv of None \<Rightarrow> [] | Some d \<Rightarrow> d)"
  from ps obtain n e where "parse_db_requests (prev @ d @ coming) = (cs, n, e)" "resumable e"
    unfolding parses_to_def prev_def by blast
  then obtain cs1 n1 e1 cs2 n2 e2 where 1: "parse_db_requests (prev @ d) = (cs1, n1, e1)" "resumable e1"
    and 2: "parse_db_requests (drop n1 (prev @ d) @ coming) = (cs2, n2, e2)" "resumable e2" and cs: "cs = cs1 @ cs2"
    by (rule parse_pieces)
  note r = read_step_cases [OF pv, of "Some d"]
  have hd: "sv_handlers (read_step cl (Some d) sv) cl = Some \<lparr>hd_cmds = cs1, hd_rest = drop n1 (prev @ d), hd_error = e1\<rparr>"
    using 1(1) by (simp add: r(4) begin_handler_def prev_def Let_def)
  have "expects cl cs coming (read_step cl (Some d) sv)"
    unfolding expects_def hd using c(2) r(3) 1 2 cs parse_none_rest [of "prev @ d" cs1 n1] rest_no_command [OF 1]
    by (auto simp: Let_def)
  then show ?thesis using c r(2,3) by (simp add: client_ok_def Let_def)
qed

lemma client_ok_hang_up:
  assumes ok: "client_ok p cl cs coming rs sv" and h: "sv_handlers sv cl = None"
    and rd: "tc_reads (n_clients (co_net (sv_system sv)) cl) \<noteq> []" and p: "\<not> p"
  shows "client_ok p cl cs coming rs (read_step cl None sv)"
proof -
  obtain got where c: "sv_received sv cl = Some got" "tc_connected (n_clients (co_net (sv_system sv)) cl)"
    "got @ tc_writes (n_clients (co_net (sv_system sv)) cl) = rs" "expects cl cs coming sv"
    using client_ok_connected [OF ok] rd by blast
  obtain pv where pv: "tc_reads (n_clients (co_net (sv_system sv)) cl) = [(1024, pv)]" by (rule expects_reads [OF c(4) h])
  note r = read_step_cases [OF pv, of None]
  show ?thesis using c(1-3) r(2-4) h p by (auto simp: client_ok_def Let_def)
qed

lemma client_ok_write:
  assumes ok: "client_ok p cl cs coming rs sv" and wr: "tc_writes (n_clients (co_net (sv_system sv)) cl) \<noteq> []"
    and p: "taken \<or> \<not> p"
  shows "client_ok p cl cs coming rs (write_step cl taken sv)"
proof -
  obtain got where c: "sv_received sv cl = Some got" "tc_connected (n_clients (co_net (sv_system sv)) cl)"
    "got @ tc_writes (n_clients (co_net (sv_system sv)) cl) = rs" "expects cl cs coming sv"
    using client_ok_connected [OF ok] wr by blast
  obtain w rest where w: "tc_writes (n_clients (co_net (sv_system sv)) cl) = w # rest"
    using wr by (cases "tc_writes (n_clients (co_net (sv_system sv)) cl)") auto
  note r = write_step_cases [OF w, of taken]
  show ?thesis
  proof (cases "taken \<and> \<not> snd w")
    case True
    have "expects cl cs coming (write_step cl taken sv)"
      by (rule expects_frame [OF c(4)]) (use True r(2,4) in \<open>simp_all add: Let_def\<close>)
    with True c(1-3) w r(3,4) show ?thesis by (simp add: client_ok_def Let_def)
  next
    case False
    have h: "prefix (hd_cmds h) cs" if "sv_handlers sv cl = Some h" for h
      using c(4) that by (auto simp: expects_def)
    have "\<exists>x. (x, True) \<in> set (got @ [w])" if "taken" using False that by (cases w) auto
    with False c(1-3) w r(2-4) p h show ?thesis by (cases taken) (auto simp: client_ok_def Let_def)
  qed
qed

lemma client_ok_command:
  assumes ok: "client_ok p cl cs coming rs sv" and h: "sv_handlers sv cl = Some h" "hd_cmds h = c # cs'"
    and ad: "adds_answer cl r (sv_system sv) (dispatch_request call cl c (sv_system sv))"
  shows "\<exists>cs2. cs = c # cs2 \<and> client_ok p cl cs2 coming (rs @ [r]) (command_step call cl h c cs' sv)"
proof -
  let ?c = "n_clients (co_net (sv_system sv)) cl"
  obtain got where g: "sv_received sv cl = Some got" using ok h(1) by (auto simp: client_ok_def Let_def split: option.splits)
  show ?thesis
  proof (cases "tc_connected ?c")
    case True
    then have ex: "expects cl cs coming sv" "got @ tc_writes ?c = rs" using ok g by (simp_all add: client_ok_def Let_def)
    then obtain cs2 where "cs = c # cs2" "expects cl cs2 coming (command_step call cl h c cs' sv)"
      using h ad True by (auto simp: expects_def adds_answer_def)
    with True g ex(2) ad show ?thesis by (simp add: client_ok_def adds_answer_def owed_def)
  next
    case False
    then obtain cs2 where "cs = c # cs2" "prefix cs' cs2"
      using ok g h by (auto simp: client_ok_def Let_def prefix_def)
    with False ok g ad show ?thesis by (simp add: client_ok_def Let_def adds_answer_def)
  qed
qed

lemma client_ok_end:
  assumes ok: "client_ok p cl cs coming rs sv" and h: "sv_handlers sv cl = Some h" "hd_cmds h = []"
  shows "client_ok p cl cs coming rs (end_step cl h sv)"
proof -
  let ?c = "n_clients (co_net (sv_system sv)) cl" and ?s = "sv_system sv"
  obtain got where g: "sv_received sv cl = Some got" using ok h(1) by (auto simp: client_ok_def Let_def split: option.splits)
  show ?thesis
  proof (cases "tc_connected ?c")
    case False
    with ok g end_step_gone [OF False, of h] show ?thesis by (simp add: client_ok_def Let_def)
  next
    case True
    let ?p = "if hd_error h = None then None else Some (hd_rest h)"
    have ex: "expects cl cs coming sv" "got @ tc_writes ?c = rs" using ok g True by (simp_all add: client_ok_def Let_def)
    then have c: "tc_reads ?c = []" "resumable (hd_error h)" "hd_error h = None \<longrightarrow> hd_rest h = []" "no_command (hd_rest h)"
      "parses_to (hd_rest h @ coming) cs"
      using h by (auto simp: expects_def parses_to_def)
    have st: "sv_system (end_step cl h sv) = read_again cl ?p ?s"
      using c(2) by (simp add: end_step_def handle_command_error_def resumable_def split: option.splits)
    have "waits_with cl (hd_rest h) (sv_system (end_step cl h sv))"
      using read_again_waits [OF True c(1), of ?p] c(3) unfolding st by (auto split: if_splits)
    with c(4,5) have "expects cl cs coming (end_step cl h sv)" by (auto simp: expects_def parses_to_def)
    moreover have "tc_connected (n_clients (co_net (sv_system (end_step cl h sv))) cl)"
      "tc_writes (n_clients (co_net (sv_system (end_step cl h sv))) cl) = tc_writes ?c"
      using True by (simp_all add: st read_again_def async_read_def put_client_def Let_def)
    ultimately show ?thesis using g ex(2) by (simp add: client_ok_def Let_def)
  qed
qed

section \<open>Every run is explained\<close>

text \<open>The clients \<open>C\<close> send what has been agreed, those of \<open>P\<close> patiently; the others do as they like.\<close>

definition clients_ok ::
    "nat set \<Rightarrow> nat set \<Rightarrow> (nat \<Rightarrow> command list) \<Rightarrow> (nat \<Rightarrow> string) \<Rightarrow> (nat \<Rightarrow> reply list) \<Rightarrow> client_event list
     \<Rightarrow> 'w serving \<Rightarrow> bool" where
  "clients_ok C P cs later rs evs sv \<longleftrightarrow>
     (\<forall>cl \<in> C. client_ok (cl \<in> P) cl (cs cl) (sent cl evs @ later cl) (rs cl) sv \<and> (cl \<in> P \<longrightarrow> patient cl evs))"

lemma clients_ok_step:
  assumes "clients_ok C P cs later rs (ev # evs) sv" "own_step cl sv sv1"
    "cl \<in> C \<Longrightarrow> client_ok (cl \<in> P) cl cs1 (sent cl evs @ later cl) rs1 sv1"
    "\<And>b. b \<noteq> cl \<Longrightarrow> sent b (ev # evs) = sent b evs"
  shows "clients_ok C P (cs(cl := cs1)) later (rs(cl := rs1)) evs sv1"
proof -
  have "client_ok (b \<in> P) b (cs b) (sent b evs @ later b) (rs b) sv1" if "b \<in> C" "b \<noteq> cl" for b
    by (rule client_ok_frame [of _ _ _ _ _ sv]) (use assms(1,2,4) that in \<open>auto simp: clients_ok_def own_step_def\<close>)
  with assms(1,3) show ?thesis by (auto simp: clients_ok_def patient_def)
qed

lemma clients_ok_net_step:
  assumes "clients_ok C P cs later rs (ev # evs) sv" "own_step cl sv sv1"
    "cl \<in> C \<Longrightarrow> client_ok (cl \<in> P) cl (cs cl) (sent cl evs @ later cl) (rs cl) sv1"
    "\<And>b. b \<noteq> cl \<Longrightarrow> sent b (ev # evs) = sent b evs"
  shows "clients_ok C P cs later rs evs sv1"
  using clients_ok_step [OF assms(1,2), of "cs cl" "rs cl"] assms(3,4) by simp

lemma clients_ok_quiet:
  assumes "clients_ok C P cs later rs (ev # evs) sv" "sv_handlers sv1 = sv_handlers sv" "sv_received sv1 = sv_received sv"
    "co_net (sv_system sv1) = co_net (sv_system sv)" "\<And>cl. sent cl (ev # evs) = sent cl evs"
  shows "clients_ok C P cs later rs evs sv1"
proof -
  have "client_ok (b \<in> P) b (cs b) (sent b evs @ later b) (rs b) sv1" if "b \<in> C" for b
    by (rule client_ok_frame [of _ _ _ _ _ sv]) (use assms that in \<open>auto simp: clients_ok_def\<close>)
  with assms(1) show ?thesis by (auto simp: clients_ok_def patient_def)
qed

lemma next_id_bound:
  fixes n n' :: u32
  assumes "unat n + Suc k < 2 ^ 32" "n' = n \<or> n' = n + 1"
  shows "n + 1 \<noteq> 0" "unat n' + k < 2 ^ 32"
proof -
  have "unat (n + 1) = unat n + 1"
    using assms(1) by (simp add: unat_word_ariths)
  then show "n + 1 \<noteq> 0" "unat n' + k < 2 ^ 32" using assms by (auto simp flip: unat_eq_zero)
qed

text \<open>The heartbeat calls the participants of the configuration only.\<close>

definition pings_common :: "client_event list \<Rightarrow> 'db cluster serving \<Rightarrow> bool" where
  "pings_common evs sv \<longleftrightarrow>
     (\<forall>addr. Pings addr \<in> set evs \<or> sv_pinged sv = Some addr \<longrightarrow> addr \<in> common (sv_system sv))"

lemma pings_common_step:
  assumes "pings_common (ev # evs) sv" "sv_pinged sv1 = sv_pinged sv" "co_conf (sv_system sv1) = co_conf (sv_system sv)"
  shows "pings_common evs sv1"
  using assms by (simp add: pings_common_def common_def)

text \<open>The state in which a run can go on.\<close>

definition good_state ::
    "bool \<Rightarrow> ('db \<Rightarrow> store) \<Rightarrow> nat set \<Rightarrow> nat set \<Rightarrow> (nat \<Rightarrow> command list) \<Rightarrow> (nat \<Rightarrow> string) \<Rightarrow> (nat \<Rightarrow> reply list)
     \<Rightarrow> client_event list \<Rightarrow> store \<Rightarrow> 'db cluster serving \<Rightarrow> bool" where
  "good_state rec view C P cs later rs evs m sv \<longleftrightarrow>
     sound_system view (sv_system sv) m \<and> clients_ok C P cs later rs evs sv \<and> pings_common evs sv
     \<and> (if rec then co_recovered (sv_system sv) else Joins \<notin> set evs)
     \<and> unat (co_next_id (sv_system sv)) + length evs < 2 ^ 32"

lemma good_net_step:
  assumes "good_state rec view C P cs later rs (ev # evs) m sv" "net_step cl sv sv1"
    "cl \<in> C \<Longrightarrow> client_ok (cl \<in> P) cl (cs cl) (sent cl evs @ later cl) (rs cl) sv1"
    "\<And>b. b \<noteq> cl \<Longrightarrow> sent b (ev # evs) = sent b evs"
  shows "good_state rec view C P cs later rs evs m sv1"
proof -
  from assms(2) obtain net where n: "own_step cl sv sv1" "sv_system sv1 = (sv_system sv)\<lparr>co_net := net\<rparr>"
    by (auto simp: net_step_def)
  have "clients_ok C P cs later rs (ev # evs) sv" using assms(1) by (simp add: good_state_def)
  from clients_ok_net_step [where cl = cl, OF this n(1)] assms(3,4) have "clients_ok C P cs later rs evs sv1" by blast
  with assms(1) n show ?thesis
    using pings_common_step [of ev evs sv sv1] by (simp add: good_state_def own_step_def split: if_splits)
qed

definition explained ::
    "bool \<Rightarrow> ('db \<Rightarrow> store) \<Rightarrow> nat set \<Rightarrow> nat set \<Rightarrow> (nat \<Rightarrow> command list) \<Rightarrow> (nat \<Rightarrow> string) \<Rightarrow> (nat \<Rightarrow> reply list)
     \<Rightarrow> history \<Rightarrow> store \<Rightarrow> 'db cluster serving \<Rightarrow> bool" where
  "explained rec view C P cs later rs hist m sv' \<longleftrightarrow>
     (\<exists>new m' cs'. explains hist new m m' \<and> sound_system view (sv_system sv') m' \<and> pings_common [] sv'
        \<and> (rec \<longrightarrow> co_recovered (sv_system sv'))
        \<and> (\<forall>cl \<in> C. cs cl = commands_of cl hist @ cs' cl
             \<and> client_ok (cl \<in> P) cl (cs' cl) (later cl) (rs cl @ replies_to cl hist new) sv'))"

lemma explained_command:
  assumes "explained rec view C P (cs(cl := cs2)) later (rs(cl := rs cl @ [r])) hist m1 sv'" "outcome c m r m1"
    "left \<longrightarrow> r = (answer c m, False)" "cl \<in> C \<Longrightarrow> cs cl = c # cs2"
  shows "explained rec view C P cs later rs ((cl, c, left) # hist) m sv'"
proof -
  from assms(1) obtain new m' cs' where e: "explains hist new m1 m'"
    "sound_system view (sv_system sv') m' \<and> pings_common [] sv' \<and> (rec \<longrightarrow> co_recovered (sv_system sv'))"
    "\<forall>b \<in> C. (cs(cl := cs2)) b = commands_of b hist @ cs' b
       \<and> client_ok (b \<in> P) b (cs' b) (later b) ((rs(cl := rs cl @ [r])) b @ replies_to b hist new) sv'"
    by (auto simp: explained_def)
  have "explains ((cl, c, left) # hist) (r # new) m m'" using e(1) assms(2,3) by auto
  moreover have "\<forall>b \<in> C. cs b = commands_of b ((cl, c, left) # hist) @ cs' b
      \<and> client_ok (b \<in> P) b (cs' b) (later b) (rs b @ replies_to b ((cl, c, left) # hist) (r # new)) sv'"
    using e(3) assms(4) by (auto split: if_splits)
  ultimately show ?thesis using e(2) unfolding explained_def by blast
qed

lemma ping_step_cases:
  assumes "rpc_call call addr Rpc_HEARTBEAT (sv_system sv) = (res, s1)" "sv_pinged sv = None"
  shows "sv_system (ping_step call addr sv) = (if res = None then drop_participant addr s1 else s1)"
    and "sv_pinged (ping_step call addr sv) = (if res = None then None else Some addr)"
    and "sv_handlers (ping_step call addr sv) = sv_handlers sv" "sv_received (ping_step call addr sv) = sv_received sv"
  using assms by (simp_all add: ping_step_def split: option.split)

lemma good_locked_step:
  assumes st: "leveldb_store ldb view" and good: "good_state rec view C P cs later rs (ev # evs) m sv"
    and ping: "sv_pinged sv = Some addr" and step: "locked_step (cluster_call ldb be) addr sv = Inr sv1"
    and may: "co_recovered (sv_system sv) \<or> addr \<in> set (co_participants (sv_system sv))"
    and quiet: "\<And>cl. sent cl (ev # evs) = sent cl evs"
  shows "good_state rec view C P cs later rs evs m sv1"
proof -
  have g: "sound_system view (sv_system sv) m" "clients_ok C P cs later rs (ev # evs) sv" "pings_common (ev # evs) sv"
    "unat (co_next_id (sv_system sv)) + length evs < 2 ^ 32" "if rec then co_recovered (sv_system sv) else Joins \<notin> set evs"
    using good by (simp_all add: good_state_def split: if_splits)
  have a: "addr \<in> common (sv_system sv)" using g(3) ping by (simp add: pings_common_def)
  from heartbeat_locked_sound [OF st g(1) a may, of be] step
  have s1: "sound_system view (sv_system sv1) m" "co_net (sv_system sv1) = co_net (sv_system sv)"
    "co_next_id (sv_system sv1) = co_next_id (sv_system sv)" "co_conf (sv_system sv1) = co_conf (sv_system sv)"
    "sv_handlers sv1 = sv_handlers sv" "sv_received sv1 = sv_received sv" "sv_pinged sv1 = None"
    "co_recovered (sv_system sv1) = co_recovered (sv_system sv)"
    by (auto simp: locked_step_def)
  have "clients_ok C P cs later rs evs sv1" by (rule clients_ok_quiet [OF g(2) s1(5,6,2) quiet])
  moreover have "pings_common evs sv1" using g(3) s1 by (auto simp: pings_common_def common_def)
  ultimately show ?thesis using s1 g(4,5) by (simp add: good_state_def)
qed

lemma runs_explained:
  assumes st: "leveldb_store ldb view"
  shows "runs (cluster_call ldb be) evs sv hist sv' \<Longrightarrow> good_state rec view C P cs later rs evs m sv \<Longrightarrow>
    \<forall>(cl, c, left) \<in> set hist. small_command c \<Longrightarrow> explained rec view C P cs later rs hist m sv'"
proof (induction arbitrary: m cs rs rule: runs.induct)
  case (runs_nil sv)
  then have "explains [] [] m m" "\<forall>cl \<in> C. cs cl = commands_of cl [] @ cs cl
      \<and> client_ok (cl \<in> P) cl (cs cl) (later cl) (rs cl @ replies_to cl [] []) sv"
    "sound_system view (sv_system sv) m" "pings_common [] sv" "rec \<longrightarrow> co_recovered (sv_system sv)"
    by (simp_all add: good_state_def clients_ok_def)
  then show ?case unfolding explained_def by blast
next
  case (runs_accept sv cl evs fd hist sv')
  have "client_ok (cl \<in> P) cl (cs cl) (sent cl evs @ later cl) (rs cl) (accept_step cl fd sv)" if "cl \<in> C"
    using runs_accept.prems(1) runs_accept.hyps(1) that
    by (intro client_ok_accept) (auto simp: good_state_def clients_ok_def)
  from good_net_step [OF runs_accept.prems(1) accept_step_net this] show ?case
    by (intro runs_accept.IH [OF _ runs_accept.prems(2)]) simp
next
  case (runs_send sv cl evs dat hist sv')
  obtain n pv rest where "tc_reads (n_clients (co_net (sv_system sv)) cl) = (n, pv) # rest"
    using runs_send.hyps(2) by (cases "tc_reads (n_clients (co_net (sv_system sv)) cl)") auto
  note step = read_step_cases(1) [OF this]
  have "client_ok (cl \<in> P) cl (cs cl) (sent cl evs @ later cl) (rs cl) (read_step cl (Some dat) sv)" if "cl \<in> C"
    using runs_send.prems(1) that by (intro client_ok_send runs_send.hyps(1,2)) (auto simp: good_state_def clients_ok_def)
  from good_net_step [OF runs_send.prems(1) step this] show ?case
    by (intro runs_send.IH [OF _ runs_send.prems(2)]) simp
next
  case (runs_hang_up sv cl evs hist sv')
  obtain n pv rest where "tc_reads (n_clients (co_net (sv_system sv)) cl) = (n, pv) # rest"
    using runs_hang_up.hyps(2) by (cases "tc_reads (n_clients (co_net (sv_system sv)) cl)") auto
  note step = read_step_cases(1) [OF this]
  have "client_ok (cl \<in> P) cl (cs cl) (sent cl evs @ later cl) (rs cl) (read_step cl None sv)" if "cl \<in> C"
    using runs_hang_up.prems(1) that
    by (intro client_ok_hang_up runs_hang_up.hyps(1,2)) (auto simp: good_state_def clients_ok_def patient_def)
  from good_net_step [OF runs_hang_up.prems(1) step this] show ?case
    by (intro runs_hang_up.IH [OF _ runs_hang_up.prems(2)]) simp
next
  case (runs_write sv cl evs ok hist sv')
  obtain w rest where "tc_writes (n_clients (co_net (sv_system sv)) cl) = w # rest"
    using runs_write.hyps(1) by (cases "tc_writes (n_clients (co_net (sv_system sv)) cl)") auto
  note step = write_step_cases(1) [OF this]
  have "client_ok (cl \<in> P) cl (cs cl) (sent cl evs @ later cl) (rs cl) (write_step cl ok sv)" if "cl \<in> C"
    using runs_write.prems(1) that
    by (intro client_ok_write runs_write.hyps(1)) (auto simp: good_state_def clients_ok_def patient_def)
  from good_net_step [OF runs_write.prems(1) step this] show ?case
    by (intro runs_write.IH [OF _ runs_write.prems(2)]) simp
next
  case (runs_command sv cl h c cs' evs hist sv' left)
  let ?call = "cluster_call ldb be" and ?s = "sv_system sv"
  let ?s1 = "dispatch_request ?call cl c ?s" and ?sv1 = "command_step ?call cl h c cs' sv"
  have g: "sound_system view ?s m" "clients_ok C P cs later rs (Works cl # evs) sv" "pings_common (Works cl # evs) sv"
    and len: "unat (co_next_id ?s) + Suc (length evs) < 2 ^ 32"
    and rec: "if rec then co_recovered ?s else Joins \<notin> set evs"
    using runs_command.prems(1) by (simp_all add: good_state_def split: if_splits)
  have small: "small_command c" "\<forall>(cl, c, left) \<in> set hist. small_command c" using runs_command.prems(2) by auto
  have "served_request view cl c m ?s ?s1"
    by (rule served_any_request [OF st g(1) next_id_bound(1) [OF len disjI1 [OF refl]] small(1)])
  then obtain r m1 where r: "outcome c m r m1" "sound_system view ?s1 m1" "adds_answer cl r ?s ?s1"
    "co_participants ?s1 \<noteq> [] \<longrightarrow> r = (answer c m, False)" "co_conf ?s1 = co_conf ?s"
    "co_next_id ?s1 = co_next_id ?s \<or> co_next_id ?s1 = co_next_id ?s + 1" "co_recovered ?s1 = co_recovered ?s"
    by (auto simp: served_request_def)
  define cs2 where "cs2 = tl (cs cl)"
  have cs2: "cs cl = c # cs2 \<and> client_ok (cl \<in> P) cl cs2 (sent cl evs @ later cl) (rs cl @ [r]) ?sv1" if "cl \<in> C"
  proof -
    have "client_ok (cl \<in> P) cl (cs cl) (sent cl evs @ later cl) (rs cl) sv" using g(2) that by (auto simp: clients_ok_def)
    from client_ok_command [OF this runs_command.hyps(1,2) r(3)] show ?thesis by (auto simp: cs2_def)
  qed
  note own = command_step_own [OF r(3)]
  have "clients_ok C P (cs(cl := cs2)) later (rs(cl := rs cl @ [r])) evs ?sv1"
    by (rule clients_ok_step [OF g(2) own]) (use cs2 in auto)
  then have "good_state rec view C P (cs(cl := cs2)) later (rs(cl := rs cl @ [r])) evs m1 ?sv1"
    using r(2,5,7) next_id_bound(2) [OF len r(6)] pings_common_step [OF g(3), of ?sv1] own rec
    by (simp add: good_state_def own_step_def)
  from runs_command.IH [OF this small(2)]
  show ?case by (rule explained_command [OF _ r(1)]) (use r(4) cs2 runs_command.hyps(4) in auto)
next
  case (runs_end sv cl h evs hist sv')
  have "client_ok (cl \<in> P) cl (cs cl) (sent cl evs @ later cl) (rs cl) (end_step cl h sv)" if "cl \<in> C"
    using runs_end.prems(1) that by (intro client_ok_end runs_end.hyps(1,2)) (auto simp: good_state_def clients_ok_def)
  from good_net_step [OF runs_end.prems(1) end_step_net this] show ?case
    by (intro runs_end.IH [OF _ runs_end.prems(2)]) simp
next
  case (runs_ping sv evs addr hist sv')
  let ?call = "cluster_call ldb be" and ?s = "sv_system sv"
  let ?sv1 = "ping_step ?call addr sv"
  have g: "sound_system view ?s m" "clients_ok C P cs later rs (Pings addr # evs) sv" "pings_common (Pings addr # evs) sv"
    "unat (co_next_id ?s) + length evs < 2 ^ 32" "if rec then co_recovered ?s else Joins \<notin> set evs"
    using runs_ping.prems(1) by (simp_all add: good_state_def split: if_splits)
  obtain res s1 where r: "rpc_call ?call addr Rpc_HEARTBEAT ?s = (res, s1)" by fastforce
  have "addr \<in> common ?s" using g(3) by (simp add: pings_common_def)
  note s = heartbeat_call_sound [OF g(1) this r refl] and sys = ping_step_cases [OF r runs_ping.hyps(1)]
  have "clients_ok C P cs later rs evs ?sv1" by (rule clients_ok_quiet [OF g(2) sys(3,4)]) (use s sys(1) in simp_all)
  moreover have "pings_common evs ?sv1" using g(3) s sys(1,2) by (auto simp: pings_common_def common_def)
  ultimately show ?case using s g(4,5) sys(1) runs_ping.prems(2) by (intro runs_ping.IH) (simp_all add: good_state_def)
next
  case (runs_stay sv addr sv1 evs hist sv')
  have "good_state rec view C P cs later rs evs m sv1"
    by (rule good_locked_step [OF st runs_stay.prems(1) runs_stay.hyps(1,3)]) (use runs_stay.hyps(2) in simp_all)
  then show ?case by (intro runs_stay.IH [OF _ runs_stay.prems(2)])
next
  case (runs_join sv addr sv1 evs hist sv')
  have "co_recovered (sv_system sv)" using runs_join.prems(1) by (simp add: good_state_def split: if_splits)
  then have "good_state rec view C P cs later rs evs m sv1"
    by (intro good_locked_step [OF st runs_join.prems(1) runs_join.hyps(1,3)]) simp_all
  then show ?case by (intro runs_join.IH [OF _ runs_join.prems(2)])
qed

section \<open>One store for all\<close>

definition sent_by :: "string list list \<Rightarrow> string" where
  "sent_by wss = concat (map resp_array wss)"

definition meant_by :: "string list list \<Rightarrow> command list" where
  "meant_by wss = map (the \<circ> command_of_words) wss"

definition good_request :: "string list \<Rightarrow> bool" where
  "good_request ws \<longleftrightarrow> resp_sized ws \<and> command_of_words ws \<noteq> None"

text \<open>A system whose server has been started and has no client yet, and what a client has got and is owed.\<close>

definition nobody_connected :: "'w coordinator \<Rightarrow> bool" where
  "nobody_connected s \<longleftrightarrow>
     (\<forall>cl. let c = n_clients (co_net s) cl in \<not> tc_connected c \<and> tc_reads c = [] \<and> tc_writes c = [])"

definition serves_nobody_yet :: "'w coordinator \<Rightarrow> 'w serving" where
  "serves_nobody_yet s = \<lparr>sv_system = s, sv_handlers = (\<lambda>_. None), sv_pinged = None, sv_received = (\<lambda>_. None)\<rparr>"

definition received :: "nat \<Rightarrow> 'w serving \<Rightarrow> reply list" where
  "received cl sv = (case sv_received sv cl of None \<Rightarrow> [] | Some got \<Rightarrow> got)"

definition connected :: "nat \<Rightarrow> 'w serving \<Rightarrow> bool" where
  "connected cl sv \<longleftrightarrow> tc_connected (n_clients (co_net (sv_system sv)) cl)"

lemma serves_nobody_yet_sel [simp]:
  "sv_system (serves_nobody_yet s) = s" "sv_handlers (serves_nobody_yet s) cl = None"
  "sv_pinged (serves_nobody_yet s) = None" "sv_received (serves_nobody_yet s) cl = None"
  by (simp_all add: serves_nobody_yet_def)

lemma parse_requests: "list_all good_request wss \<Longrightarrow> parse_db_requests (sent_by wss) = (meant_by wss, length (sent_by wss), None)"
  using parse_requests_from [OF _ new_parser_ahead(1), of wss "sent_by wss"]
  by (simp add: parse_db_requests_def new_parser_ahead meant_by_def good_request_def list_all_iff)
    (simp add: new_parser_def sent_by_def)

lemma good_start:
  assumes "sound_system view s m" "nobody_connected s"
    "\<forall>cl \<in> C. list_all good_request (wss cl) \<and> prefix (sent cl evs) (sent_by (wss cl))"
    "\<forall>addr. Pings addr \<in> set evs \<longrightarrow> addr \<in> common s" "unat (co_next_id s) + length evs < 2 ^ 32"
    "co_recovered s \<or> Joins \<notin> set evs"
  shows "good_state (co_recovered s) view C {cl. patient cl evs} (meant_by \<circ> wss) (\<lambda>cl. drop (length (sent cl evs)) (sent_by (wss cl)))
    (\<lambda>_. []) evs m (serves_nobody_yet s)"
proof -
  have "client_ok p cl (meant_by (wss cl)) (sent cl evs @ drop (length (sent cl evs)) (sent_by (wss cl))) []
      (serves_nobody_yet s)" if "cl \<in> C" for cl p
  proof -
    have "sent cl evs @ drop (length (sent cl evs)) (sent_by (wss cl)) = sent_by (wss cl)"
      using assms(3) that by (metis append_eq_conv_conj prefix_def)
    then show ?thesis
      using parse_requests [of "wss cl"] assms(2,3) that
      by (simp add: client_ok_def nobody_connected_def parses_to_def resumable_def Let_def)
  qed
  with assms show ?thesis by (auto simp: good_state_def clients_ok_def pings_common_def)
qed

text \<open>What a run that is explained has given a client.\<close>

lemma client_ok_end_state:
  assumes "client_ok (patient cl evs) cl cs coming rs sv"
  shows "prefix (received cl sv) rs"
    and "connected cl sv \<Longrightarrow> received cl sv @ owed cl (sv_system sv) = rs"
    and "connected cl sv \<Longrightarrow> coming = [] \<Longrightarrow> sv_handlers sv cl = None \<Longrightarrow> cs = []"
    and "patient cl evs \<Longrightarrow> sv_received sv cl \<noteq> None \<Longrightarrow> connected cl sv \<or> (\<exists>x. (x, True) \<in> set (received cl sv))"
  using assms
  by (auto simp: client_ok_def received_def connected_def owed_def expects_def no_command_def Let_def
      split: option.splits if_splits)


definition sample_streams :: "nat \<Rightarrow> string list list" where
  "sample_streams cl = (if cl = 2 then [[''SET'', ''k'', ''v'']] else if cl = 3 then [[''GET'', ''k'']] else [])"

lemma sample_streams_good:
  "list_all good_request (sample_streams cl)"
  "meant_by (sample_streams 2) = [Set_Command 0 ''k'' ''v'']" "meant_by (sample_streams 3) = [Get_Command ''k'']"
  by (simp_all add: sample_streams_def good_request_def resp_sized_def command_of_words_def new_set_command_def
      new_get_command_def meant_by_def)

definition sample_service :: "fault list \<Rightarrow> (string, string) omap cluster coordinator" where
  "sample_service fs =
     (sample_system fs)\<lparr>co_net := sample_net\<lparr>n_clients := (\<lambda>_. (new_client 5)\<lparr>tc_connected := False\<rparr>)\<rparr>\<rparr>"

definition sample_events :: "client_event list" where
  "sample_events = [Accepts 2 5, Pings ''a:1'', Accepts 3 6, Accepts 4 7, Sends 2 (sent_by (sample_streams 2)),
     Sends 3 (sent_by (sample_streams 3)), Hangs_Up 4, Works 3, Works 2, Works 2, Works 3]"

lemma ping_step_clients:
  "co_net (sv_system (ping_step call addr sv)) = co_net (sv_system sv)"
  "sv_handlers (ping_step call addr sv) = sv_handlers sv" "sv_received (ping_step call addr sv) = sv_received sv"
proof -
  obtain res s1 where r: "rpc_call call addr Rpc_HEARTBEAT (sv_system sv) = (res, s1)" by fastforce
  from rpc_call_rest [OF r] r show "co_net (sv_system (ping_step call addr sv)) = co_net (sv_system sv)"
    "sv_handlers (ping_step call addr sv) = sv_handlers sv" "sv_received (ping_step call addr sv) = sv_received sv"
    by (cases res; simp add: ping_step_def drop_participant_def)+
qed

lemma read_step_request:
  assumes "tc_reads (n_clients (co_net (sv_system sv)) cl) = [(1024, None)]" "list_all good_request wss"
  shows "sv_handlers (read_step cl (Some (sent_by wss)) sv) =
      (sv_handlers sv)(cl \<mapsto> \<lparr>hd_cmds = meant_by wss, hd_rest = [], hd_error = None\<rparr>)"
  using parse_requests [OF assms(2)] by (simp add: read_step_cases(4) [OF assms(1)] begin_handler_def Let_def)

lemma read_step_others:
  assumes "tc_reads (n_clients (co_net (sv_system sv)) cl) = [(1024, None)]" "b \<noteq> cl"
  shows "n_clients (co_net (sv_system (read_step cl dat sv))) b = n_clients (co_net (sv_system sv)) b"
    "sv_handlers (read_step cl dat sv) b = sv_handlers sv b"
  using read_step_cases(1) [OF assms(1), of dat] assms(2) by (simp_all add: net_step_def own_step_def)

lemma accept_step_others:
  "b \<noteq> cl \<Longrightarrow> n_clients (co_net (sv_system (accept_step cl fd sv))) b = n_clients (co_net (sv_system sv)) b"
  "b \<noteq> cl \<Longrightarrow> sv_received (accept_step cl fd sv) b = sv_received sv b"
  "sv_pinged (accept_step cl fd sv) = sv_pinged sv"
  using accept_step_net [of cl sv fd] by (simp_all add: net_step_def own_step_def)

lemma sample_run:
  "\<exists>l0 l1 sv'. runs (cluster_call ldb be) sample_events (serves_nobody_yet (sample_service fs))
     [(3, Get_Command ''k'', l0), (2, Set_Command 0 ''k'' ''v'', l1)] sv'"
proof -
  let ?call = "cluster_call ldb be" and ?sv = "serves_nobody_yet (sample_service fs)"
  let ?h = "\<lambda>cs. \<lparr>hd_cmds = cs, hd_rest = [], hd_error = None\<rparr>" and ?get = "Get_Command ''k''"
    and ?set = "Set_Command 0 ''k'' ''v''"
  let ?sv1 = "accept_step 2 5 ?sv"
  let ?sv2 = "ping_step ?call ''a:1'' ?sv1"
  let ?sv3 = "accept_step 3 6 ?sv2"
  let ?sv4 = "accept_step 4 7 ?sv3"
  let ?reads = "\<lambda>sv cl. tc_reads (n_clients (co_net (sv_system sv)) cl)"
  have r4: "?reads ?sv4 2 = [(1024, None)]" "?reads ?sv4 3 = [(1024, None)]" "?reads ?sv4 4 = [(1024, None)]"
    "sv_handlers ?sv4 b = None" for b
    by (simp_all add: accept_step_others accept_step_clients ping_step_clients)
  let ?sv5 = "read_step 2 (Some (sent_by (sample_streams 2))) ?sv4"
  have r5: "?reads ?sv5 3 = [(1024, None)]" "?reads ?sv5 4 = [(1024, None)]"
    "sv_handlers ?sv5 = [2 \<mapsto> ?h [?set]]"
    using r4 read_step_others [OF r4(1)] read_step_request [OF r4(1) sample_streams_good(1) [of 2]]
    by (simp_all add: sample_streams_good(2) fun_eq_iff)
  let ?sv6 = "read_step 3 (Some (sent_by (sample_streams 3))) ?sv5"
  have r6: "?reads ?sv6 4 = [(1024, None)]" "sv_handlers ?sv6 = [2 \<mapsto> ?h [?set], 3 \<mapsto> ?h [?get]]"
    using r5 read_step_others [OF r5(1)] read_step_request [OF r5(1) sample_streams_good(1) [of 3]]
    by (simp_all add: sample_streams_good(3))
  let ?sv7 = "read_step 4 None ?sv6"
  have h7: "sv_handlers ?sv7 2 = Some (?h [?set])" "sv_handlers ?sv7 3 = Some (?h [?get])"
    using r6 read_step_others [OF r6(1)] by simp_all
  let ?sv8 = "command_step ?call 3 (?h [?get]) ?get [] ?sv7"
  let ?sv9 = "command_step ?call 2 (?h [?set]) ?set [] ?sv8"
  let ?sv10 = "end_step 2 (?h []) ?sv9"
  let ?sv11 = "end_step 3 (?h []) ?sv10"
  have h: "sv_handlers ?sv8 2 = Some (?h [?set])" "sv_handlers ?sv9 2 = Some (?h [])" "sv_handlers ?sv10 3 = Some (?h [])"
    using h7 by simp_all
  have "runs ?call [Works 3] ?sv10 [] ?sv11" by (rule runs_end [OF h(3) _ runs_nil]) simp
  then have "runs ?call [Works 2, Works 3] ?sv9 [] ?sv11" by (rule runs_end [OF h(2), rotated]) simp
  then obtain l0 where "runs ?call [Works 2, Works 2, Works 3] ?sv8 [(2, ?set, l0)] ?sv11"
    using runs_command [OF h(1) _ _ refl] by fastforce
  then obtain l1 where run7: "runs ?call [Works 3, Works 2, Works 2, Works 3] ?sv7 [(3, ?get, l1), (2, ?set, l0)] ?sv11"
    using runs_command [OF h7(2) _ _ refl] by fastforce
  have "runs ?call sample_events ?sv [(3, ?get, l1), (2, ?set, l0)] ?sv11"
    unfolding sample_events_def
  proof (intro runs_accept runs_ping runs_send runs_hang_up)
    show "runs ?call [Works 3, Works 2, Works 2, Works 3] ?sv7 [(3, ?get, l1), (2, ?set, l0)] ?sv11" by (rule run7)
  qed (use r4 r5 r6 in \<open>simp_all add: accept_step_others accept_step_clients ping_step_clients\<close>)
  then show ?thesis by blast
qed

lemma explains_length: "explains hist rs m m' \<Longrightarrow> length rs = length hist"
  by (induction hist rs m m' rule: explains.induct) auto


end
