(* ===== verification/Late_Calls.thy ===== *)
theory Late_Calls
  imports Fault_Tolerance
begin

text \<open>
  Calls that outlive their timeout. The coordinator waits 600 ms for an answer
  (\<^verbatim>\<open>RPC_TIMEOUT\<close>, \<^verbatim>\<open>Lab3/src/common.hpp\<close>) and then takes the call for failed; the participant may
  execute it all the same, at any later time. When it does so before it serves the next call,
  as a participant with one worker does with what has reached it, the call is one that is
  answered in vain, which the network of \<open>Cluster\<close> has. When a later call overtakes it, the
  replicas can be broken, and no version number keeps the participant from that. The last section
  is about the assumption on the disk.
\<close>

section \<open>A late call that is not overtaken\<close>

fun calls_in_order :: "'db leveldb \<Rightarrow> bool \<Rightarrow> (string \<times> rpc_request) list \<Rightarrow> 'db cluster
    \<Rightarrow> 'db cluster \<times> rpc_response option list" where
  "calls_in_order ldb be [] w = (w, [])"
| "calls_in_order ldb be ((b, req) # cs) w =
     (let (w1, res) = cluster_call ldb be w b req; (w2, rs) = calls_in_order ldb be cs w1
      in (w2, res # rs))"

lemma deliver_other:
  assumes "b \<noteq> a"
  shows "deliver ldb be b req' (fst (deliver ldb be a req w)) =
    (let (w', res) = deliver ldb be b req' w in (fst (deliver ldb be a req w'), res))"
  using assms
  by (auto simp: deliver_def fun_upd_twist split: option.splits sum.splits prod.splits)

lemma deliver_faults:
  "deliver ldb be a req (w\<lparr>cl_faults := fs\<rparr>) = (case deliver ldb be a req w of (w', res) \<Rightarrow> (w'\<lparr>cl_faults := fs\<rparr>, res))"
  "cl_faults (fst (deliver ldb be a req w)) = cl_faults w"
  by (auto simp: deliver_def split: option.splits sum.splits)

lemma deliver_down:
  assumes "b \<noteq> a"
  shows "fst (deliver ldb be a req (w\<lparr>cl_nodes := (cl_nodes w)(b := None)\<rparr>)) =
    (fst (deliver ldb be a req w))\<lparr>cl_nodes := (cl_nodes (fst (deliver ldb be a req w)))(b := None)\<rparr>"
  using assms by (auto simp: deliver_def fun_upd_twist split: option.splits sum.splits)

lemma next_fault_deliver:
  "next_fault (fst (deliver ldb be a req w)) = (case next_fault w of (f, w1) \<Rightarrow> (f, fst (deliver ldb be a req w1)))"
  by (simp add: next_fault_def deliver_faults split: list.split prod.split)

lemma cluster_call_other:
  assumes "b \<noteq> a"
  shows "cluster_call ldb be (fst (deliver ldb be a req w)) b req' =
    (let (w', res) = cluster_call ldb be w b req' in (fst (deliver ldb be a req w'), res))"
proof -
  obtain f w1 where f: "next_fault w = (f, w1)" by fastforce
  then have f': "next_fault (fst (deliver ldb be a req w)) = (f, fst (deliver ldb be a req w1))"
    by (simp add: next_fault_deliver)
  obtain w2 res where d: "deliver ldb be b req' w1 = (w2, res)" by fastforce
  with deliver_other [OF assms, of ldb be req' req w1]
  have "deliver ldb be b req' (fst (deliver ldb be a req w1)) = (fst (deliver ldb be a req w2), res)" by simp
  with f f' d deliver_down [OF assms, of ldb be req w1] show ?thesis
    by (cases f) (simp_all add: cluster_call_def Let_def)
qed

text \<open>
  A call to \<open>a\<close> whose answer is lost might as well have been executed at any later time before
  the next call to \<open>a\<close>: the calls in between have the same answers and lead to the same nodes.
\<close>

lemma late_call_is_lost_answer:
  assumes "next_fault w = (Lose_Answer, w1)" "a \<notin> fst ` set cs"
  shows "calls_in_order ldb be cs (fst (cluster_call ldb be w a req)) =
    (let (w2, rs) = calls_in_order ldb be cs w1 in (fst (deliver ldb be a req w2), rs))"
proof -
  have "calls_in_order ldb be cs (fst (deliver ldb be a req w1)) =
      (let (w2, rs) = calls_in_order ldb be cs w1 in (fst (deliver ldb be a req w2), rs))"
    using assms(2)
  proof (induction cs arbitrary: w1)
    case (Cons c cs)
    obtain b req' where c: "c = (b, req')" by fastforce
    then have "b \<noteq> a" using Cons.prems by auto
    note 1 = cluster_call_other [OF this, of ldb be req w1 req']
    obtain w3 res where r: "cluster_call ldb be w1 b req' = (w3, res)" by fastforce
    have "a \<notin> fst ` set cs" using Cons.prems by simp
    from Cons.IH [OF this, of w3] 1 r c show ?case by (auto simp: Let_def split: prod.splits)
  qed simp
  then show ?thesis by (simp add: cluster_call_def assms(1))
qed

section \<open>A late RECOVER\<close>

text \<open>
  The heartbeat thread gives up a RECOVER that takes too long, and gives the participant a newer
  snapshot in the next round, or finds that it needs none. When the participant executes the
  first RECOVER only then, it puts the pairs of the old snapshot over its store, at whatever id
  it is: it is in the map, at the coordinator's id, and differs from the others.
\<close>

theorem late_recover_breaks_replicas:
  assumes "leveldb_store ldb view" "sound_system view s m" "a \<in> set (co_participants s)" "b \<in> set (co_participants s)"
    "a \<noteq> b" "small_store old" "view db = old" "old k = Some v" "m k \<noteq> Some v"
    "w' = fst (deliver ldb be a (Rpc_RECOVER (foldl encode_pair [] (ldb_entries ldb db)) ks) (co_world s))"
  shows "\<exists>p q. cl_nodes w' a = Some p \<and> cl_nodes w' b = Some q
    \<and> pt_next_id p = co_next_id s \<and> pt_next_id q = co_next_id s
    \<and> view (pt_db p) = (m |` (- set ks)) ++ old \<and> view (pt_db q) = m
    \<and> (\<forall>m'. \<not> sound_system view (s\<lparr>co_world := w'\<rparr>) m')"
proof -
  obtain p0 where p0: "cl_nodes (co_world s) a = Some p0" "pt_next_id p0 = co_next_id s" "view (pt_db p0) = m"
    using sound_store [OF assms(2,3)] by blast
  obtain q where q: "cl_nodes (co_world s) b = Some q" "pt_next_id q = co_next_id s" "view (pt_db q) = m"
    using sound_store [OF assms(2,4)] by blast
  have "list_all pair_small (ldb_entries ldb db)" by (rule small_entries [OF assms(1)]) (simp add: assms(6,7))
  from leveldb_store.recover_handler_spec [OF assms(1) this, of be ks p0] obtain p
    where p: "serve ldb be (Rpc_RECOVER (foldl encode_pair [] (ldb_entries ldb db)) ks) p0 = Inr (Res_Bool True, p)"
      "view (pt_db p) = (m |` (- set ks)) ++ old" "pt_next_id p = co_next_id s"
    using p0 assms(7) by (auto simp: respond_Inr)
  have w': "cl_nodes w' a = Some p" "cl_nodes w' b = Some q"
    using assms(5,10) p0 p q by (simp_all add: deliver_def)
  have "view (pt_db p) k = Some v" using p(2) assms(8) by (simp add: map_add_def)
  then have ne: "view (pt_db p) \<noteq> m" using assms(9) by auto
  have "\<not> sound_system view (s\<lparr>co_world := w'\<rparr>) m'" for m'
  proof
    assume "sound_system view (s\<lparr>co_world := w'\<rparr>) m'"
    from sound_store [OF this, of a] sound_store [OF this, of b] assms(3,4) w' have "view (pt_db p) = m'" "view (pt_db q) = m'"
      by auto
    with ne q(3) show False by simp
  qed
  with w' p q show ?thesis by blast
qed

theorem late_recover_breaks_replicas_witness:
  "\<exists>p q. cl_nodes (fst (deliver memtable False ''a:1''
        (Rpc_RECOVER (foldl encode_pair [] (ldb_entries memtable [(''k'', ''old'')])) []) (co_world (sample_system [])))) ''a:1'' = Some p
     \<and> map_of (pt_db p) = [''k'' \<mapsto> ''old'']
     \<and> cl_nodes (fst (deliver memtable False ''a:1''
        (Rpc_RECOVER (foldl encode_pair [] (ldb_entries memtable [(''k'', ''old'')])) []) (co_world (sample_system [])))) ''b:1'' = Some q
     \<and> map_of (pt_db q) = Map.empty"
proof -
  have "''a:1'' \<in> set (co_participants (sample_system []))" "''b:1'' \<in> set (co_participants (sample_system []))"
    by (simp_all add: sample_system_def)
  moreover have "small_store [''k'' \<mapsto> ''old'']" by (simp add: small_store_def Map.graph_def pair_small_def)
  ultimately show ?thesis
    using late_recover_breaks_replicas [OF mem.leveldb_store_axioms sample_sound_system, of "''a:1''" "[]" "''b:1''"
        "[''k'' \<mapsto> ''old'']" "[(''k'', ''old'')]" "''k''" "''old''" _ False "[]"] by auto
qed


section \<open>A RECOVER that is refused\<close>

text \<open>
  A participant whose disk does not take the snapshot answers RECOVER with false. The coordinator
  does not look at the answer (\<^verbatim>\<open>coordinator.cpp\<close>, \<^verbatim>\<open>recover_participant\<close>): it sets the participant's
  id and puts it into the map.
\<close>

theorem refused_recover_joins:
  assumes "in_agreement view s m" "quiet (co_world s)" "co_recovered s" "rm_records (co_log s) = []"
    "addr \<notin> set (co_participants s)" "cl_nodes (co_world s) addr = Some p" "pt_next_id p \<noteq> co_next_id s"
    "co_participants s = a # as" "cl_nodes (co_world s) a = Some pa"
    "recover_handler ldb be (foldl encode_pair [] (ldb_entries ldb (pt_db pa))) (co_del_keys s) p = Inr (False, p')"
    "view (pt_db p') \<noteq> m"
  shows "\<exists>s'. heartbeat_participant (cluster_call ldb be) addr s = Inr s'
    \<and> addr \<in> set (co_participants s') \<and> (\<forall>m'. \<not> in_agreement view s' m')"
proof -
  obtain s' where s': "heartbeat_participant (cluster_call ldb be) addr s = Inr s'"
    "joined addr (p'\<lparr>pt_next_id := co_next_id s\<rparr>) s s'"
    using snapshot_heartbeat_steps [OF assms(2,3,5,6,7,4,8,9,10)] by blast
  have "view (pt_db (p'\<lparr>pt_next_id := co_next_id s\<rparr>)) \<noteq> m" using assms(11) by simp
  from joined_disagrees [OF assms(1) _ assms(5) s'(2) this] s' assms(8) show ?thesis
    by (auto simp: joined_def)
qed

theorem refused_recover_joins_witness:
  "\<exists>s'. heartbeat_participant (cluster_call full_disk False) ''b:1''
      ((sample_system [])\<lparr>co_participants := [''a:1''], co_next_id := 2,
        co_world := \<lparr>cl_nodes = [''a:1'' \<mapsto> idle_node\<lparr>pt_next_id := 2, pt_db := [(''k'', ''v'')]\<rparr>, ''b:1'' \<mapsto> idle_node],
                     cl_faults = []\<rparr>\<rparr>)
      = Inr s' \<and> ''b:1'' \<in> set (co_participants s') \<and> (\<forall>m'. \<not> in_agreement map_of s' m')"
proof -
  have e: "ldb_entries full_disk [(''k'', ''v'')] = [(''k'', ''v'')]" by (simp add: full_disk_def memtable_def)
  have "recover_pairs full_disk False (encode_pair [] (''k'', ''v'')) 0 [] = Inr (False, [])"
    using recover_pairs_step [of "encode_pair [] (''k'', ''v'')" "[]" "''k''" "''v''" "[]" 0 full_disk False "[]"]
    by (simp add: full_disk_def pair_small_def)
  then have "recover_handler full_disk False (foldl encode_pair [] (ldb_entries full_disk [(''k'', ''v'')])) [] idle_node = Inr (False, idle_node)"
    by (simp add: e recover_handler_def idle_node_def)
  then show ?thesis
    by (intro refused_recover_joins [where m = "[''k'' \<mapsto> ''v'']" and p = idle_node and p' = idle_node and a = "''a:1''"
          and as = "[]" and pa = "idle_node\<lparr>pt_next_id := 2, pt_db := [(''k'', ''v'')]\<rparr>"])
      (simp_all add: in_agreement_def sample_system_def node_synced_def idle_node_def quiet_def
        fresh_log_def map_upd_nonempty [THEN not_sym])
qed

end
