(* ===== verification/Node_Typing.thy ===== *)
theory Node_Typing
  imports Coordinator
begin

text \<open>
  A discipline of types for the calls between coordinator and participant: which requests are
  well formed, what their answers are converted to, and what the queue of a participant looks
  like. Participants that keep to it do not run into undefined behaviour, one case aside.
\<close>

section \<open>Types\<close>

text \<open>
  The RPC library decodes the parameter of a PREPARE as the command class it is declared with;
  a snapshot is one that some node has sent, of keys and values that are short enough.
\<close>

fun request_typed :: "'db leveldb \<Rightarrow> rpc_request \<Rightarrow> bool" where
  "request_typed ldb (Rpc_GET c) = (cmd_type c = CMD_GET)"
| "request_typed ldb (Rpc_PREPARE_SET c) = (cmd_type c = CMD_SET)"
| "request_typed ldb (Rpc_PREPARE_DEL c) = (cmd_type c = CMD_DEL)"
| "request_typed ldb (Rpc_RECOVER dat ks) =
     (\<exists>db. dat = foldl encode_pair [] (ldb_entries ldb db) \<and> list_all pair_small (ldb_entries ldb db))"
| "request_typed ldb _ = True"

text \<open>
  The coordinator's conversion of the answer to a request succeeds, and where it is a truth value
  the participant agrees.
\<close>

fun response_typed :: "rpc_request \<Rightarrow> rpc_response \<Rightarrow> bool" where
  "response_typed (Rpc_GET _) res = (as_string (Some res) \<noteq> None)"
| "response_typed (Rpc_PREPARE_SET _) res = (as_bool (Some res) = Some True)"
| "response_typed (Rpc_PREPARE_DEL _) res = (as_bool (Some res) = Some True)"
| "response_typed (Rpc_COMMIT _) res = (as_string (Some res) \<noteq> None)"
| "response_typed (Rpc_ABORT _) res = (as_bool (Some res) = Some True)"
| "response_typed (Rpc_RECOVER _ _) res = (as_bool (Some res) = Some True)"
| "response_typed Rpc_NEXT_ID res = (as_u32 (Some res) \<noteq> None)"
| "response_typed Rpc_GET_SNAPSHOT res = (as_bytes (Some res) \<noteq> None)"
| "response_typed _ res = True"

text \<open>The queue holds updates, no null pointers, in ascending order of their ids.\<close>

definition before :: "command option \<Rightarrow> command option \<Rightarrow> bool" where
  "before a b \<longleftrightarrow> cmd_id (the a) < cmd_id (the b)"

definition queue_typed :: "command option list \<Rightarrow> bool" where
  "queue_typed rs \<longleftrightarrow> (\<forall>r \<in> set rs. \<exists>c. r = Some c \<and> is_update c) \<and> sorted_wrt before rs"

section \<open>The queue\<close>

lemma sorted_before_filter:
  assumes "sorted_wrt before rs"
  shows "sorted_wrt before (filter (\<lambda>r. cmd_id (the r) < cmd_id (the c)) rs @ c
                # filter (\<lambda>r. cmd_id (the c) < cmd_id (the r)) rs)"
  using assms sorted_wrt_filter [of before rs]
  by (auto simp: sorted_wrt_append before_def)

lemma insert_request_typed:
  assumes "queue_typed rs" "is_update c"
  shows "\<exists>rs'. insert_request (Some c) rs = Inr rs' \<and> queue_typed rs'"
proof -
  have "None \<notin> set rs" using assms(1) by (auto simp: queue_typed_def)
  with assms sorted_before_filter [of rs "Some c"] show ?thesis
    by (auto simp: insert_request_def queue_typed_def)
qed

lemma drop_queue_typed: "queue_typed rs \<Longrightarrow> queue_typed (drop 1 rs)"
  by (cases rs) (auto simp: queue_typed_def)

lemma log_and_queue_typed:
  assumes "queue_typed (pt_requests p)" "is_update c"
  shows "\<exists>p'. log_and_queue c p = Inr (True, p') \<and> queue_typed (pt_requests p')"
  using insert_request_typed [OF assms] encode_command_update [OF assms(2)]
  by (auto simp: log_and_queue_def rm_log_command_def)

text \<open>
  A COMMIT is misplaced when the participant has not come to its id, or when the first command
  it has queued is not the one with this id.
\<close>

definition misplaced :: "rpc_request \<Rightarrow> 'db participant \<Rightarrow> bool" where
  "misplaced req p \<longleftrightarrow>
     (\<exists>i. req = Rpc_COMMIT i
        \<and> (pt_next_id p < i
           \<or> i = pt_next_id p \<and> (case pt_requests p of Some c # rest \<Rightarrow> cmd_id c \<noteq> i | _ \<Rightarrow> True)))"

lemma dispatchers_update: "is_update c \<Longrightarrow> \<exists>h. dispatchers ldb (cmd_type c) = Some h"
  by (cases c) (auto simp: dispatchers_def cmd_tags)

lemma commit_typed:
  assumes "queue_typed (pt_requests p)"
  shows "case commit_handler ldb i p of
      Inr (x, p') \<Rightarrow> queue_typed (pt_requests p') \<and> \<not> misplaced (Rpc_COMMIT i) p
    | Inl e \<Rightarrow> misplaced (Rpc_COMMIT i) p \<and> is_undefined e = (i = pt_next_id p \<and> pt_requests p = [])"
proof -
  consider (seen) "i < pt_next_id p" | (ahead) "pt_next_id p < i" | (due) "i = pt_next_id p" by fastforce
  then show ?thesis
  proof cases
    case seen
    then show ?thesis using assms by (auto simp: commit_handler_def misplaced_def)
  next
    case ahead
    then show ?thesis by (auto simp: commit_handler_def misplaced_def)
  next
    case due
    show ?thesis
    proof (cases "pt_requests p")
      case Nil
      with due show ?thesis by (simp add: commit_handler_def misplaced_def)
    next
      case (Cons x rest)
      with assms obtain c where c: "x = Some c" "is_update c" by (auto simp: queue_typed_def)
      moreover obtain h where "dispatchers ldb (cmd_type c) = Some h" using dispatchers_update c(2) by blast
      moreover have "queue_typed rest" using drop_queue_typed [OF assms] Cons by simp
      ultimately show ?thesis
        using Cons due by (simp add: commit_handler_def misplaced_def Let_def split: prod.split)
    qed
  qed
qed

section \<open>Properties\<close>

text \<open>C29: well-typed nodes do not get stuck. A participant whose queue holds updates in ascending
  order, on a disk that works, answers every well-formed request, with the type of value the
  coordinator converts the answer to, agreeing to every PREPARE, ABORT and RECOVER, and its queue
  stays so. The one request it does not answer, which ends it with an exception, is a COMMIT that is
  misplaced: of an id it has not come to, or of its next id when the first command queued
  is another one or there is none; only the last is undefined behaviour.\<close>

theorem typed_node_not_stuck:
  assumes "leveldb_store ldb view" "queue_typed (pt_requests p)" "request_typed ldb req"
  shows "case serve ldb be req p of
      Inr (res, p') \<Rightarrow> response_typed req res \<and> queue_typed (pt_requests p') \<and> \<not> misplaced req p
    | Inl e \<Rightarrow> misplaced req p \<and> is_undefined e = (req = Rpc_COMMIT (pt_next_id p) \<and> pt_requests p = [])"
proof (cases req)
  case (Rpc_PREPARE_SET c)
  with assms(3) have "is_update c" by (simp add: is_update_def cmd_tags)
  from log_and_queue_typed [OF assms(2) this] Rpc_PREPARE_SET show ?thesis
    by (auto simp: prepare_set_def respond_def as_bool_def misplaced_def)
next
  case (Rpc_PREPARE_DEL c)
  with assms(3) have "is_update c" by (simp add: is_update_def cmd_tags)
  from log_and_queue_typed [OF assms(2) this] Rpc_PREPARE_DEL show ?thesis
    by (auto simp: prepare_del_def respond_def as_bool_def misplaced_def)
next
  case (Rpc_COMMIT i)
  with commit_typed [OF assms(2), of i ldb] show ?thesis
    by (auto simp: respond_def as_string_def split: sum.splits prod.splits)
next
  case (Rpc_ABORT i)
  with assms(2) drop_queue_typed [OF assms(2)] show ?thesis
    by (auto simp: respond_def as_bool_def abort_handler_def misplaced_def Let_def)
next
  case (Rpc_RECOVER dat ks)
  with assms(3) obtain db where "dat = foldl encode_pair [] (ldb_entries ldb db)"
      "list_all pair_small (ldb_entries ldb db)" by auto
  with leveldb_store.recover_handler_spec [OF assms(1), of db be ks p] assms(2) Rpc_RECOVER show ?thesis
    by (auto simp: respond_def misplaced_def as_bool_def)
qed (use assms(2) in \<open>auto simp: respond_def get_handler_def set_next_id_handler_def next_id_handler_def
    heartbeat_def get_snapshot_def as_string_def as_u32_def as_bytes_def misplaced_def\<close>)

theorem typed_node_not_stuck_witness:
  "\<exists>res p'. serve memtable False (Rpc_PREPARE_SET (Set_Command 6 ''k'' ''v''))
      (sample_node\<lparr>pt_requests := [Some (Del_Command 5 [''k'']), Some (Set_Command 7 ''k'' ''w'')]\<rparr>) = Inr (res, p')
     \<and> as_bool (Some res) = Some True \<and> queue_typed (pt_requests p')"
proof -
  let ?p = "sample_node\<lparr>pt_requests := [Some (Del_Command 5 [''k'']), Some (Set_Command 7 ''k'' ''w'')]\<rparr>"
  let ?req = "Rpc_PREPARE_SET (Set_Command 6 ''k'' ''v'')"
  have "queue_typed (pt_requests ?p)" by (simp add: queue_typed_def before_def)
  from typed_node_not_stuck [OF mem.leveldb_store_axioms this, of ?req False] show ?thesis
    by (auto simp: misplaced_def simp del: serve.simps split: sum.splits prod.splits)
qed

end
