(* ===== verification/Poll_Loop.thy ===== *)
theory Poll_Loop
  imports Reactor
begin

text \<open>
  The poll thread of the reactor against everything else that runs: that it never sleeps on
  outdated sets of descriptors, and what becomes of a descriptor whose callback throws
  (\<^verbatim>\<open>Lab3/src/tcp_server/reactor.cpp\<close>, \<^verbatim>\<open>thread_pool.cpp\<close>).
\<close>

section \<open>The loop of the poll thread\<close>

text \<open>
  Where the poll thread is: at the test of its loop, in \<^verbatim>\<open>select\<close>, or back from it. Users and
  workers go on in every phase. \<open>select\<close> reports the read end of the pipe exactly if there is
  a byte in the pipe.
\<close>

datatype poll_phase = Loop_Top | Selecting | Selected

inductive loop_step :: "poll_phase \<times> 'cb reactor_run \<Rightarrow> poll_phase \<times> 'cb reactor_run \<Rightarrow> bool" where
  other: "work_step s s' \<Longrightarrow> loop_step (ph, s) (ph, s')"
| init: "\<not> re_poll_stop r \<Longrightarrow> loop_step (Loop_Top, (r, run)) (Selecting, (snd (init_select_fds r), run))"
| select: "get_read_fd (re_notifier r) \<in> set rd \<longleftrightarrow> pipe_readable (re_notifier r) \<Longrightarrow>
    loop_step (Selecting, (r, run)) (Selected, (select_ready rd wr r, run))"
| select_fails: "loop_step (Selecting, s) (Loop_Top, s)"
| dispatch: "loop_step (Selected, (r, run)) (Loop_Top, (dispatch_select r, run))"

inductive loop_reach :: "pipe \<Rightarrow> nat \<Rightarrow> poll_phase \<times> 'cb reactor_run \<Rightarrow> bool" for nf n where
  start: "loop_reach nf n (Loop_Top, (new_reactor nf n, []))"
| step: "loop_reach nf n s \<Longrightarrow> loop_step s s' \<Longrightarrow> loop_reach nf n s'"

text \<open>The table stays in order.\<close>

lemmas reactor_ops =
  register_fd_def set_rd_callback_def set_wr_callback_def unregister_def finish_read_def
  finish_write_def put_info_def erase_info_def notify_def stop_reactor_def Let_def

lemma dispatch_one_wf:
  "om_wf (re_tracked r) \<Longrightarrow> om_wf (re_tracked (dispatch_read fd r))"
  "om_wf (re_tracked r) \<Longrightarrow> om_wf (re_tracked (dispatch_write fd r))"
  by (simp_all add: dispatch_read_def dispatch_write_def put_info_def om_wf_put Let_def split: option.split)

lemma dispatch_fd_wf: "om_wf (re_tracked r) \<Longrightarrow> om_wf (re_tracked (dispatch_fd fd r))"
  by (simp add: dispatch_fd_def erase_info_def dispatch_one_wf om_wf_erase Let_def)

lemma dispatch_wf: "om_wf (re_tracked r) \<Longrightarrow> om_wf (re_tracked (dispatch_select r))"
proof -
  have "om_wf (re_tracked r) \<Longrightarrow> om_wf (re_tracked (fold dispatch_fd fds r))" for fds
    by (induction fds arbitrary: r) (simp_all add: dispatch_fd_wf)
  then show "om_wf (re_tracked r) \<Longrightarrow> om_wf (re_tracked (dispatch_select r))"
    by (simp add: dispatch_select_def)
qed

lemma work_wf:
  assumes "work_step s s'" "om_wf (re_tracked (fst s))"
  shows "om_wf (re_tracked (fst s'))"
  using assms
proof cases
  case (finish run run1 t run2 r)
  with assms(2) show ?thesis
    by (cases t) (auto simp: reactor_ops om_wf_put om_wf_erase split: option.split)
qed (use assms(2) in \<open>auto simp: reactor_ops om_wf_put om_wf_erase split: option.split\<close>)

section \<open>No wake-up is lost\<close>

text \<open>The sets that \<^verbatim>\<open>select\<close> is called with depend on the table and the pipe alone.\<close>

definition same_view :: "'cb reactor \<Rightarrow> 'cb reactor \<Rightarrow> bool" where
  "same_view r r' \<longleftrightarrow> re_tracked r' = re_tracked r \<and> re_notifier r' = re_notifier r \<and>
     re_polled r' = re_polled r \<and> re_rd_set r' = re_rd_set r \<and> re_wr_set r' = re_wr_set r"

lemma same_view_refl [simp]: "same_view r r"
  by (simp add: same_view_def)

definition up_to_date :: "'cb reactor \<Rightarrow> bool" where
  "up_to_date r \<longleftrightarrow> snd (init_select_fds r) = r"

lemma same_view_up_to_date: "same_view r r' \<Longrightarrow> up_to_date r \<Longrightarrow> up_to_date r'"
  by (cases r; cases r') (simp add: same_view_def up_to_date_def init_select_fds_def Let_def)

lemma init_up_to_date: "up_to_date (snd (init_select_fds r))"
  by (simp add: up_to_date_def init_select_fds_def Let_def)

text \<open>A step of the users and the workers changes nothing the poll thread looks at, or wakes it.\<close>

lemma work_step_wakes:
  assumes "work_step (r, run) (r', run')"
  shows "pipe_readable (re_notifier r') \<or> same_view r r'"
  using assms
proof cases
  case (finish run1 t run2)
  then show ?thesis by (cases t) (auto simp: reactor_ops split: option.split)
qed (auto simp: reactor_ops same_view_def split: option.split)

definition awake :: "poll_phase \<times> 'cb reactor_run \<Rightarrow> bool" where
  "awake s \<longleftrightarrow> om_wf (re_tracked (fst (snd s))) \<and>
     (fst s = Selecting \<longrightarrow> pipe_readable (re_notifier (fst (snd s))) \<or> up_to_date (fst (snd s)))"

lemma pipe_stays_readable:
  assumes "work_step (r, run) (r', run')" "pipe_readable (re_notifier r)"
  shows "pipe_readable (re_notifier r')"
  using work_step_wakes [OF assms(1)] assms(2) by (auto simp: same_view_def)

lemma loop_step_awake:
  assumes "loop_step s s'" "awake s"
  shows "awake s'"
  using assms
proof cases
  case (other u u' ph)
  obtain r run r' run' where u: "u = (r, run)" "u' = (r', run')" by fastforce
  with other have w: "work_step (r, run) (r', run')" by simp
  from work_wf [OF w] assms(2) other u have "om_wf (re_tracked r')" by (simp add: awake_def)
  with work_step_wakes [OF w] pipe_stays_readable [OF w] same_view_up_to_date [of r r'] assms(2) other u
  show ?thesis by (auto simp: awake_def)
next
  case (init r run)
  with assms(2) show ?thesis
    by (simp add: awake_def init_up_to_date) (simp add: init_select_fds_def Let_def)
next
  case (dispatch r run)
  with assms(2) show ?thesis by (simp add: awake_def dispatch_wf)
qed (use assms(2) in \<open>auto simp: awake_def select_ready_def\<close>)

lemma loop_reach_awake: "loop_reach nf n s \<Longrightarrow> awake s"
proof (induction rule: loop_reach.induct)
  case start
  then show ?case by (simp add: awake_def new_reactor_def om_wf_def)
next
  case (step s s')
  then show ?case using loop_step_awake by blast
qed

lemma up_to_date_sets:
  assumes "up_to_date r" "om_wf (re_tracked r)"
  shows "fd \<in> set (re_rd_set r) \<longleftrightarrow>
      fd = get_read_fd (re_notifier r) \<or> (\<exists>i. map_of (re_tracked r) fd = Some i \<and> wants_read i)"
    and "fd \<in> set (re_wr_set r) \<longleftrightarrow> (\<exists>i. map_of (re_tracked r) fd = Some i \<and> wants_write i)"
proof -
  have d: "distinct (map fst (re_tracked r))"
    using assms(2) by (auto simp: om_wf_def strict_sorted_iff)
  have "re_rd_set r = re_rd_set (snd (init_select_fds r))" "re_wr_set r = re_wr_set (snd (init_select_fds r))"
    using assms(1) by (simp_all add: up_to_date_def)
  with d show "fd \<in> set (re_rd_set r) \<longleftrightarrow>
      fd = get_read_fd (re_notifier r) \<or> (\<exists>i. map_of (re_tracked r) fd = Some i \<and> wants_read i)"
    and "fd \<in> set (re_wr_set r) \<longleftrightarrow> (\<exists>i. map_of (re_tracked r) fd = Some i \<and> wants_write i)"
    by (force simp: init_select_fds_def Let_def image_iff)+
qed

text \<open>
  C23: The poll thread never sleeps on outdated sets: whatever its users and workers do and
  whenever, while it is in \<^verbatim>\<open>select\<close> with no byte in its pipe it watches exactly the
  descriptors that have a callback of that kind which is not being executed.
\<close>

theorem no_lost_wakeup:
  assumes "loop_reach nf n (Selecting, (r, run))" "\<not> pipe_readable (re_notifier r)"
  shows "(fd \<in> set (re_rd_set r) \<longleftrightarrow>
      fd = get_read_fd (re_notifier r) \<or> (\<exists>i. map_of (re_tracked r) fd = Some i \<and> wants_read i))
    \<and> (fd \<in> set (re_wr_set r) \<longleftrightarrow> (\<exists>i. map_of (re_tracked r) fd = Some i \<and> wants_write i))"
  using up_to_date_sets [of r] loop_reach_awake [OF assms(1)] assms(2) by (auto simp: awake_def)

theorem no_lost_wakeup_witness:
  "5 \<in> set (re_rd_set (snd (init_select_fds (dispatch_select (select_ready [3] [] (set_rd_callback 5 (Some ''cb'')
     (snd (init_select_fds (new_reactor sample_pipe 2)))))))))"
proof -
  let ?r0 = "new_reactor sample_pipe 2 :: string reactor"
  let ?r1 = "snd (init_select_fds ?r0)"
  let ?r2 = "set_rd_callback 5 (Some ''cb'') ?r1"
  let ?r3 = "select_ready [3] [] ?r2"
  let ?r4 = "snd (init_select_fds (dispatch_select ?r3))"
  note evals = new_reactor_def init_select_fds_def set_rd_callback_def select_ready_def dispatch_select_def
    dispatch_fd_def put_info_def om_put_def notify_def pipe_notify_def clear_pipe_def get_read_fd_def
    sample_pipe_def pipe_readable_def tracked_info_def new_fd_info_def wants_read_def wants_write_def Let_def
  have "loop_reach sample_pipe 2 (Loop_Top, (?r0, []))" by (rule loop_reach.start)
  then have "loop_reach sample_pipe 2 (Selecting, (?r1, []))"
    by (rule loop_reach.step) (rule loop_step.init, simp add: new_reactor_def)
  then have "loop_reach sample_pipe 2 (Selecting, (?r2, []))"
    by (rule loop_reach.step) (intro loop_step.other work_step.set_rd)
  then have "loop_reach sample_pipe 2 (Selected, (?r3, []))"
    by (rule loop_reach.step) (rule loop_step.select, simp add: evals)
  then have "loop_reach sample_pipe 2 (Loop_Top, (dispatch_select ?r3, []))"
    by (rule loop_reach.step) (rule loop_step.dispatch)
  then have "loop_reach sample_pipe 2 (Selecting, (?r4, []))"
    by (rule loop_reach.step) (rule loop_step.init, simp add: evals)
  from no_lost_wakeup [OF this, of 5] show ?thesis by (simp add: evals)
qed

section \<open>Callbacks that throw\<close>

text \<open>A flag that is set although no task for it is left.\<close>

definition dead_flag :: "bool \<Rightarrow> nat \<Rightarrow> 'cb reactor_run \<Rightarrow> bool" where
  "dead_flag rd fd s \<longleftrightarrow>
     busy rd fd (fst s) \<and> pending rd fd (tp_tasks (re_pool (fst s)) @ snd s) = 0"

lemma dead_flag_kept:
  assumes "dead_flag rd fd (r, run)" "busy rd fd r'"
    "pending rd fd (tp_tasks (re_pool r') @ run') \<le> pending rd fd (tp_tasks (re_pool r) @ run)"
  shows "dead_flag rd fd (r', run')"
  using assms by (simp add: dead_flag_def)

lemma dead_dispatch_one:
  assumes "dead_flag rd fd (r, run)"
  shows "wants_read (tracked_info fd' r) \<Longrightarrow> dead_flag rd fd (dispatch_read fd' r, run)"
    and "wants_write (tracked_info fd' r) \<Longrightarrow> dead_flag rd fd (dispatch_write fd' r, run)"
  using assms
  by (auto simp: dead_flag_def dispatch_read_def dispatch_write_def Let_def busy_def add_task_def
      wants_read_def wants_write_def split: option.splits if_splits dest: tracked_info_Some)

lemma dead_dispatch_fd:
  assumes "dead_flag rd fd (r, run)"
  shows "dead_flag rd fd (dispatch_fd fd' r, run)"
proof -
  define r1 where "r1 = (if fd' \<in> set (re_rd_set r) \<and> wants_read (tracked_info fd' r)
    then dispatch_read fd' r else r)"
  define r2 where "r2 = (if fd' \<in> set (re_wr_set r1) \<and> wants_write (tracked_info fd' r1)
    then dispatch_write fd' r1 else r1)"
  have 1: "dead_flag rd fd (r1, run)" using assms dead_dispatch_one(1) by (auto simp: r1_def)
  have 2: "dead_flag rd fd (r2, run)" using 1 dead_dispatch_one(2) by (auto simp: r2_def)
  have "dead_flag rd fd (r\<lparr>re_notifier := clear_pipe (re_notifier r)\<rparr>, run)"
    by (rule dead_flag_kept [OF assms]) (use assms in \<open>simp_all add: dead_flag_def busy_def\<close>)
  moreover have "dead_flag rd fd (erase_info fd' r2, run)"
    if "\<not> fi_exec_rd (tracked_info fd' r2)" "\<not> fi_exec_wr (tracked_info fd' r2)"
    by (rule dead_flag_kept [OF 2]) (use 2 that in \<open>auto simp: dead_flag_def busy_def split: if_splits\<close>)
  moreover have "dispatch_fd fd' r =
    (if fd' = get_read_fd (re_notifier r) \<and> fd' \<in> set (re_rd_set r)
     then r\<lparr>re_notifier := clear_pipe (re_notifier r)\<rparr>
     else if map_of (re_tracked r) fd' = None then r
     else if fi_untrack (tracked_info fd' r2) \<and> \<not> fi_exec_rd (tracked_info fd' r2)
       \<and> \<not> fi_exec_wr (tracked_info fd' r2) then erase_info fd' r2 else r2)"
    unfolding r2_def r1_def dispatch_fd_def Let_def by (rule refl)
  ultimately show ?thesis using assms 2 by simp
qed

lemma dead_dispatch: "dead_flag rd fd (r, run) \<Longrightarrow> dead_flag rd fd (dispatch_select r, run)"
proof -
  have "dead_flag rd fd (r, run) \<Longrightarrow> dead_flag rd fd (fold dispatch_fd fds r, run)" for fds
    by (induction fds arbitrary: r) (simp_all add: dead_dispatch_fd)
  then show "dead_flag rd fd (r, run) \<Longrightarrow> dead_flag rd fd (dispatch_select r, run)"
    by (simp add: dispatch_select_def)
qed

text \<open>A task of another kind or descriptor leaves the flag alone when it ends.\<close>

lemma busy_finish_other:
  assumes "busy rd fd r" "\<not> is_task rd fd t"
  shows "busy rd fd (finish_task t r)"
  using assms
  by (cases t) (auto simp: busy_def finish_read_def finish_write_def Let_def
      split: option.splits dest: tracked_info_Some)

lemma re_pool_finish [simp]: "re_pool (finish_task t r) = re_pool r"
  by (cases t) (auto simp: finish_read_def finish_write_def Let_def split: option.splits)

lemma dead_work:
  assumes "work_step s s'" "dead_flag rd fd s"
  shows "dead_flag rd fd s'"
  using assms
proof cases
  case (finish run run1 t run2 r)
  with assms(2) have "\<not> is_task rd fd t" "busy rd fd r" by (auto simp: dead_flag_def split: if_splits)
  with busy_finish_other finish assms(2) show ?thesis by (auto simp: dead_flag_def)
next
  case (stop r run)
  with assms(2) show ?thesis
    by (auto simp: dead_flag_def busy_def stop_reactor_def Let_def stop_pool_def)
next
  case (take r t p run)
  with assms(2) show ?thesis by (auto simp: dead_flag_def busy_def worker_runs_iff split: if_splits)
qed (use assms(2) in \<open>auto simp: dead_flag_def busy_user_ops\<close>)

lemma dead_step: "reactor_step s s' \<Longrightarrow> dead_flag rd fd s \<Longrightarrow> dead_flag rd fd s'"
proof (induction rule: reactor_step.induct)
  case (work s s')
  then show ?case by (rule dead_work)
next
  case (poll_dispatch r run)
  then show ?case by (rule dead_dispatch)
qed (simp_all add: dead_flag_def busy_user_ops)

text \<open>
  C24: A callback that throws takes its descriptor out of service for good: the flag stays up, so
  whatever happens afterwards, unregistering and registering again included, no callback of
  that kind is queued for the descriptor any more and whoever waits for its removal waits for ever.
\<close>

theorem throwing_callback_kills_descriptor:
  assumes "reactor_reach nf n (r, run1 @ t # run2)" "is_task rd fd t"
    "reactor_step\<^sup>*\<^sup>* (r, run1 @ run2) (r', run')"
  shows "pending rd fd (tp_tasks (re_pool r') @ run') = 0 \<and> \<not> removal_cond fd r'"
proof -
  have "pending rd fd (tp_tasks (re_pool r) @ run1 @ t # run2) \<le> (if busy rd fd r then 1 else 0)"
    using reactor_reach_flags [OF assms(1)] by (simp add: flags_cover_def)
  then have "dead_flag rd fd (r, run1 @ run2)" using assms(2) by (auto simp: dead_flag_def split: if_splits)
  with assms(3) have "dead_flag rd fd (r', run')"
    by (induction rule: rtranclp_induct) (simp_all add: dead_step)
  then show ?thesis using busy_untracked [of r' fd rd] by (auto simp: dead_flag_def removal_cond_def)
qed

theorem throwing_callback_kills_descriptor_witness:
  "\<not> removal_cond 5 (unregister 5 (dispatch_select (select_ready [5] []
     (snd (init_select_fds (set_rd_callback 5 (Some ''cb'') (new_reactor sample_pipe 2)))))))"
proof -
  let ?r1 = "set_rd_callback 5 (Some ''cb'') (new_reactor sample_pipe 2) :: string reactor"
  let ?r2 = "snd (init_select_fds ?r1)"
  let ?r3 = "dispatch_select (select_ready [5] [] ?r2)"
  let ?r4 = "?r3\<lparr>re_pool := (re_pool ?r3)\<lparr>tp_tasks := []\<rparr>\<rparr>"
  have "reactor_reach sample_pipe 2 (?r1, [])"
    by (intro reactor_reach.step [OF reactor_reach.start] reactor_step.work work_step.set_rd)
  then have "reactor_reach sample_pipe 2 (?r3, [])"
    by (meson reactor_reach.step reactor_step.poll_init reactor_step.poll_select reactor_step.poll_dispatch)
  moreover have "reactor_step (?r3, []) (?r4, [] @ [Read_Task 5 ''cb''])"
    by (intro reactor_step.work work_step.take)
      (simp add: worker_runs_iff dispatch_select_def dispatch_fd_def select_ready_def init_select_fds_def
        set_rd_callback_def new_reactor_def put_info_def om_put_def notify_def tracked_info_def
        wants_read_def wants_write_def new_fd_info_def dispatch_read_def add_task_def
        new_thread_pool_def should_stop_def get_read_fd_def pipe_notify_def sample_pipe_def Let_def)
  ultimately have r: "reactor_reach sample_pipe 2 (?r4, [] @ Read_Task 5 ''cb'' # [])"
    using reactor_reach.step by fastforce
  have "reactor_step\<^sup>*\<^sup>* (?r4, [] @ []) (unregister 5 ?r4, [])"
    using reactor_step.work [OF work_step.unregister [of ?r4 "[]" 5]] by simp
  from throwing_callback_kills_descriptor [OF r _ this, of True 5]
  have "\<not> removal_cond 5 (unregister 5 ?r4)" by simp
  moreover have "re_tracked (unregister 5 (r\<lparr>re_pool := p\<rparr>)) = re_tracked (unregister 5 r)"
    for r :: "string reactor" and p
    by (simp add: reactor_ops split: option.split)
  ultimately show ?thesis by (simp add: removal_cond_def)
qed

text \<open>
  A reactor that is destroyed without being stopped first leaves its poll thread asleep: the
  destructor changes nothing that \<^verbatim>\<open>select\<close> looks at.
\<close>

theorem destructor_wakes_nobody:
  assumes "\<not> pipe_readable (re_notifier r)"
  shows "\<not> pipe_readable (re_notifier (destroy_reactor r)) \<and> same_view r (destroy_reactor r)"
  using assms by (simp add: destroy_reactor_def same_view_def)

end
