(* ===== verification/Net_Run.thy ===== *)
theory Net_Run
  imports Poll_Loop Tcp_Net
begin

text \<open>
  Clients and servers (\<^verbatim>\<open>Lab3/src/tcp_server/tcp_client.cpp\<close>, \<^verbatim>\<open>tcp_server.cpp\<close>) on the running
  reactor: user threads that connect, accept, request and disconnect, the workers that run the
  callbacks, and the poll thread, interleaved in any way. What the reactor watches is tied to what
  the clients have asked for.
\<close>

section \<open>Steps\<close>

text \<open>
  A descriptor that a new connection can get: the system does not hand out one that is open. That the
  reactor has no entry for it any more is an assumption: a descriptor is closed at once when its client
  disconnects, but while one of its callbacks is running its entry stays, and a new connection that gets
  the number in this time can lose its callbacks (\<open>reused_descriptor_is_dropped\<close>).
\<close>

definition free_fd :: "nat \<Rightarrow> ('r, 'w) net \<Rightarrow> bool" where
  "free_fd fd n \<longleftrightarrow>
     fd \<noteq> get_read_fd (re_notifier (n_reactor n)) \<and> fd \<noteq> n_server_fd n
     \<and> (\<forall>h. tc_connected (n_clients n h) \<longrightarrow> tc_fd (n_clients n h) \<noteq> fd)
     \<and> map_of (re_tracked (n_reactor n)) fd = None"

text \<open>
  What the users do, at any time. An accepted client is followed by the user's callback for new clients,
  whose requests are steps of their own; so are the two halves of \<^verbatim>\<open>on_read_available\<close> and
  \<^verbatim>\<open>on_write_available\<close>, the read or write and, when it has failed, the disconnection.
\<close>

inductive net_op :: "('r, 'w) net \<Rightarrow> ('r, 'w) net \<Rightarrow> bool" where
  connects: "free_fd fd n \<Longrightarrow> client_connect h (Inr fd) n = Inr n' \<Longrightarrow> net_op n n'"
| starts: "server_start n = Inr n' \<Longrightarrow> net_op n n'"
| accepts: "free_fd fd n \<Longrightarrow> \<not> tc_connected (n_clients n h) \<Longrightarrow>
    net_op n (server_accept (\<lambda>h n. n) h (Some fd) n)"
| accept_fails: "net_op n (server_accept (\<lambda>h n. n) h None n)"
| stops: "net_op n (server_stop n)"
| asks_read: "async_read h req n = Inr n' \<Longrightarrow> net_op n n'"
| asks_write: "async_write h wreq n = Inr n' \<Longrightarrow> net_op n n'"
| disconnects: "net_op n (disconnect h n)"
| reads: "do_read h rcv junk n = (cb, ok, dat, n') \<Longrightarrow> net_op n n'"
| writes: "do_write h snd_ok junk n = (wcb, ok, k, n') \<Longrightarrow> net_op n n'"

text \<open>The poll thread, the network, and the tasks whose callbacks are running.\<close>

type_synonym ('r, 'w) net_run = "poll_phase \<times> ('r, 'w) net \<times> net_cb io_task list"

inductive net_run_step :: "('r, 'w) net_run \<Rightarrow> ('r, 'w) net_run \<Rightarrow> bool" where
  op: "net_op n n' \<Longrightarrow> net_run_step (ph, n, run) (ph, n', run)"
| take: "worker_turn (re_pool (n_reactor n)) = (Worker_Runs t, p) \<Longrightarrow>
    net_run_step (ph, n, run) (ph, n\<lparr>n_reactor := (n_reactor n)\<lparr>re_pool := p\<rparr>\<rparr>, run @ [t])"
| finish: "run = run1 @ t # run2 \<Longrightarrow>
    net_run_step (ph, n, run) (ph, n\<lparr>n_reactor := finish_task t (n_reactor n)\<rparr>, run1 @ run2)"
| throws: "run = run1 @ t # run2 \<Longrightarrow> net_run_step (ph, n, run) (ph, n, run1 @ run2)"
| poll: "loop_step (ph, (n_reactor n, run)) (ph', (r', run)) \<Longrightarrow> ph' \<noteq> ph \<Longrightarrow>
    net_run_step (ph, n, run) (ph', n\<lparr>n_reactor := r'\<rparr>, run)"

definition nobody_yet :: "pipe \<Rightarrow> nat \<Rightarrow> ('r, 'w) net \<Rightarrow> bool" where
  "nobody_yet nf k n \<longleftrightarrow>
     n_reactor n = new_reactor nf k \<and> \<not> n_running n \<and> n_server_fd n \<noteq> get_read_fd nf
     \<and> (\<forall>h. \<not> tc_connected (n_clients n h) \<and> tc_reads (n_clients n h) = [] \<and> tc_writes (n_clients n h) = [])"

inductive net_reach :: "pipe \<Rightarrow> nat \<Rightarrow> ('r, 'w) net_run \<Rightarrow> bool" for nf k where
  start: "nobody_yet nf k n \<Longrightarrow> net_reach nf k (Loop_Top, n, [])"
| step: "net_reach nf k s \<Longrightarrow> net_run_step s s' \<Longrightarrow> net_reach nf k s'"

section \<open>The reactor underneath\<close>

text \<open>A run of the network is a run of its reactor.\<close>

lemma loop_reach_ops:
  assumes "loop_reach nf k (ph, (r, run))"
  shows "loop_reach nf k (ph, (register_fd fd rd wr r, run))" "loop_reach nf k (ph, (set_rd_callback fd rd r, run))"
    "loop_reach nf k (ph, (set_wr_callback fd wr r, run))" "loop_reach nf k (ph, (unregister fd r, run))"
  using loop_reach.step [OF assms] loop_step.other work_step.register work_step.set_rd work_step.set_wr
    work_step.unregister by blast+

lemma disconnect_reach:
  assumes "loop_reach nf k (ph, (n_reactor n, run))"
  shows "loop_reach nf k (ph, (n_reactor (disconnect h n), run))"
  using assms loop_reach_ops(4) [OF assms] by (simp add: disconnect_def on_client_disconnect_def Let_def)

lemma disconnects_reach:
  "loop_reach nf k (ph, (n_reactor n, run)) \<Longrightarrow> loop_reach nf k (ph, (n_reactor (fold disconnect hs n), run))"
  by (induction hs arbitrary: n) (simp_all add: disconnect_reach)

lemma server_stop_reach:
  assumes "loop_reach nf k (ph, (n_reactor n, run))"
  shows "loop_reach nf k (ph, (n_reactor (server_stop n), run))"
  using assms disconnects_reach [where n = "n\<lparr>n_running := False, n_reactor := unregister (n_server_fd n) (n_reactor n)\<rparr>"]
    loop_reach_ops(4) [OF assms] by (simp add: server_stop_def Let_def)

lemma net_op_reach:
  assumes "net_op n n'" "loop_reach nf k (ph, (n_reactor n, run))"
  shows "loop_reach nf k (ph, (n_reactor n', run))"
  using assms(1)
proof cases
  case (accepts fd h)
  with assms(2) show ?thesis by (simp add: server_accept_def Let_def)
next
  case (accept_fails h)
  with server_stop_reach [OF assms(2)] show ?thesis by (simp add: server_accept_def)
next
  case stops
  with server_stop_reach [OF assms(2)] show ?thesis by simp
next
  case (disconnects h)
  with disconnect_reach [OF assms(2)] show ?thesis by simp
qed (use assms(2) loop_reach_ops [OF assms(2)] in
    \<open>auto simp: client_connect_def server_start_def async_read_def async_write_def do_read_def do_write_def Let_def
      split: if_splits list.splits\<close>)

lemma net_reach_loop:
  "net_reach nf k s \<Longrightarrow> (case s of (ph, n, run) \<Rightarrow> loop_reach nf k (ph, (n_reactor n, run)))"
proof (induction rule: net_reach.induct)
  case (start n)
  then show ?case using loop_reach.start by (simp add: nobody_yet_def)
next
  case (step s s')
  from step.hyps(2) step.IH show ?case
  proof cases
    case (op n n' ph run)
    with step.IH net_op_reach show ?thesis by simp
  next
    case (take n t p ph run)
    with step.IH show ?thesis using loop_reach.step loop_step.other work_step.take by fastforce
  next
    case (finish run run1 t run2 ph n)
    with step.IH show ?thesis using loop_reach.step loop_step.other work_step.finish by fastforce
  next
    case (throws run run1 t run2 ph n)
    with step.IH show ?thesis using loop_reach.step loop_step.other work_step.throws by fastforce
  next
    case (poll ph n run ph' r')
    with step.IH show ?thesis using loop_reach.step by fastforce
  qed
qed

text \<open>The workers and the poll thread keep the callbacks of every entry that is not to be removed.\<close>

definition keeps :: "'cb reactor \<Rightarrow> 'cb reactor \<Rightarrow> bool" where
  "keeps r r' \<longleftrightarrow>
     get_read_fd (re_notifier r') = get_read_fd (re_notifier r)
     \<and> (\<forall>fd. \<not> fi_untrack (tracked_info fd r) \<longrightarrow>
          \<not> fi_untrack (tracked_info fd r') \<and> fi_rd (tracked_info fd r') = fi_rd (tracked_info fd r)
          \<and> fi_wr (tracked_info fd r') = fi_wr (tracked_info fd r))"

lemma keeps_refl [simp]: "keeps r r"
  by (simp add: keeps_def)

lemma keeps_trans: "keeps r s \<Longrightarrow> keeps s t \<Longrightarrow> keeps r t"
  by (simp add: keeps_def)

lemma notify_read_fd [simp]:
  "get_read_fd (re_notifier (notify r)) = get_read_fd (re_notifier r)"
  "get_read_fd (re_notifier (put_info fd i r)) = get_read_fd (re_notifier r)"
  "get_read_fd (re_notifier (erase_info fd r)) = get_read_fd (re_notifier r)"
  "get_read_fd (clear_pipe p) = get_read_fd p"
  by (simp_all add: notify_def put_info_def erase_info_def get_read_fd_def pipe_notify_def clear_pipe_def)

lemma keeps_same_table:
  "re_tracked r' = re_tracked r \<Longrightarrow> get_read_fd (re_notifier r') = get_read_fd (re_notifier r) \<Longrightarrow> keeps r r'"
  by (simp add: keeps_def tracked_info_def)

lemma keeps_dispatch_one: "keeps r (dispatch_read fd r)" "keeps r (dispatch_write fd r)"
  by (auto simp: keeps_def dispatch_read_def dispatch_write_def Let_def split: option.split dest: tracked_info_Some)

lemma keeps_erase: "fi_untrack (tracked_info fd r) \<Longrightarrow> keeps r (erase_info fd r)"
  by (simp add: keeps_def)

lemma keeps_dispatch_fd: "keeps r (dispatch_fd fd r)"
proof -
  define r1 where "r1 = (if fd \<in> set (re_rd_set r) \<and> wants_read (tracked_info fd r) then dispatch_read fd r else r)"
  define r2 where "r2 = (if fd \<in> set (re_wr_set r1) \<and> wants_write (tracked_info fd r1) then dispatch_write fd r1 else r1)"
  have "keeps r r1" by (simp add: r1_def keeps_dispatch_one)
  moreover have "keeps r1 r2" by (simp add: r2_def keeps_dispatch_one)
  ultimately have 2: "keeps r r2" by (rule keeps_trans)
  have "keeps r (r\<lparr>re_notifier := clear_pipe (re_notifier r)\<rparr>)" by (rule keeps_same_table) simp_all
  moreover have "dispatch_fd fd r =
    (if fd = get_read_fd (re_notifier r) \<and> fd \<in> set (re_rd_set r)
      then r\<lparr>re_notifier := clear_pipe (re_notifier r)\<rparr>
     else if map_of (re_tracked r) fd = None then r
     else if fi_untrack (tracked_info fd r2) \<and> \<not> fi_exec_rd (tracked_info fd r2)
       \<and> \<not> fi_exec_wr (tracked_info fd r2) then erase_info fd r2 else r2)"
    unfolding r2_def r1_def dispatch_fd_def Let_def by (rule refl)
  ultimately show ?thesis using 2 keeps_trans [OF 2 keeps_erase] by simp
qed

lemma keeps_dispatch_select: "keeps r (dispatch_select r)"
proof -
  have "keeps r (fold dispatch_fd fds r)" for fds
    by (induction fds arbitrary: r) (auto intro: keeps_trans keeps_dispatch_fd)
  then show ?thesis by (simp add: dispatch_select_def)
qed

lemma keeps_finish: "keeps r (finish_task t r)"
  by (cases t) (auto simp: keeps_def finish_read_def finish_write_def Let_def split: option.split dest: tracked_info_Some)

lemma keeps_poll:
  assumes "loop_step (ph, (r, run)) (ph', (r', run'))" "ph' \<noteq> ph"
  shows "keeps r r'"
  using assms(1)
proof cases
  case init
  then show ?thesis by (auto intro!: keeps_same_table simp: init_select_fds_def Let_def)
next
  case (select rd wr)
  then show ?thesis by (auto intro!: keeps_same_table simp: select_ready_def)
qed (use assms(2) keeps_dispatch_select in auto)

section \<open>The clients\<close>

text \<open>
  What holds at any time: every client is watched for exactly what it has asked for, no two
  connected clients share a descriptor, and no entry of one is to be removed.
\<close>

definition net_ok :: "('r, 'w) net \<Rightarrow> bool" where
  "net_ok n \<longleftrightarrow>
     (\<forall>h. armed_exact h n)
     \<and> (\<forall>h. tc_connected (n_clients n h) \<longrightarrow>
          tc_fd (n_clients n h) \<noteq> n_server_fd n \<and> tc_fd (n_clients n h) \<noteq> get_read_fd (re_notifier (n_reactor n))
          \<and> \<not> fi_untrack (tracked_info (tc_fd (n_clients n h)) (n_reactor n))
          \<and> (\<forall>h'. tc_connected (n_clients n h') \<and> tc_fd (n_clients n h') = tc_fd (n_clients n h) \<longrightarrow> h' = h))"

lemma net_ok_keeps:
  assumes "net_ok n" "keeps (n_reactor n) r'"
  shows "net_ok (n\<lparr>n_reactor := r'\<rparr>)"
proof -
  let ?n = "n\<lparr>n_reactor := r'\<rparr>"
  have a: "armed_exact h n" for h using assms(1) by (simp add: net_ok_def)
  have u: "\<not> fi_untrack (tracked_info (tc_fd (n_clients n h)) (n_reactor n))"
    if "tc_connected (n_clients n h)" for h using assms(1) that by (simp add: net_ok_def)
  have k: "\<not> fi_untrack (tracked_info (tc_fd (n_clients n h)) r')"
    "fi_rd (tracked_info (tc_fd (n_clients n h)) r') = fi_rd (tracked_info (tc_fd (n_clients n h)) (n_reactor n))"
    "fi_wr (tracked_info (tc_fd (n_clients n h)) r') = fi_wr (tracked_info (tc_fd (n_clients n h)) (n_reactor n))"
    if "tc_connected (n_clients n h)" for h using assms(2) u [OF that] by (simp_all add: keeps_def)
  have "armed_exact h ?n" for h
    using a [of h] k [of h] by (cases "tc_connected (n_clients n h)") (simp_all add: armed_defs)
  moreover have "get_read_fd (re_notifier r') = get_read_fd (re_notifier (n_reactor n))"
    using assms(2) by (simp add: keeps_def)
  ultimately show ?thesis using assms(1) k(1) by (simp add: net_ok_def)
qed

text \<open>A change to one client and to the entry of its descriptor.\<close>

definition own_change :: "nat \<Rightarrow> nat \<Rightarrow> ('r, 'w) net \<Rightarrow> ('r, 'w) net \<Rightarrow> bool" where
  "own_change h fd n n' \<longleftrightarrow>
     (\<forall>h'. h' \<noteq> h \<longrightarrow> n_clients n' h' = n_clients n h')
     \<and> (\<forall>fd'. fd' \<noteq> fd \<longrightarrow> tracked_info fd' (n_reactor n') = tracked_info fd' (n_reactor n))
     \<and> n_server_fd n' = n_server_fd n
     \<and> get_read_fd (re_notifier (n_reactor n')) = get_read_fd (re_notifier (n_reactor n))"

lemma net_ok_own:
  assumes ok: "net_ok n" and ch: "own_change h fd n n'" and armed: "armed_exact h n'"
    and own: "tc_connected (n_clients n' h) \<Longrightarrow> tc_fd (n_clients n' h) = fd \<and> fd \<noteq> n_server_fd n
       \<and> fd \<noteq> get_read_fd (re_notifier (n_reactor n)) \<and> \<not> fi_untrack (tracked_info fd (n_reactor n'))"
    and others: "\<And>h'. h' \<noteq> h \<Longrightarrow> tc_connected (n_clients n h') \<Longrightarrow> tc_fd (n_clients n h') \<noteq> fd"
  shows "net_ok n'"
proof -
  have o: "n_clients n' h' = n_clients n h'"
    "tc_connected (n_clients n h') \<Longrightarrow> tracked_info (tc_fd (n_clients n h')) (n_reactor n') =
       tracked_info (tc_fd (n_clients n h')) (n_reactor n)" if "h' \<noteq> h" for h'
    using ch others [OF that] that by (simp_all add: own_change_def)
  have "armed_exact h' n'" for h'
  proof (cases "h' = h")
    case False
    have "armed_exact h' n" using ok by (simp add: net_ok_def)
    with o [OF False] show ?thesis by (auto simp: armed_defs)
  qed (use armed in simp)
  moreover have "tc_fd (n_clients n' g) \<noteq> n_server_fd n'
      \<and> tc_fd (n_clients n' g) \<noteq> get_read_fd (re_notifier (n_reactor n'))
      \<and> \<not> fi_untrack (tracked_info (tc_fd (n_clients n' g)) (n_reactor n'))
      \<and> (\<forall>h'. tc_connected (n_clients n' h') \<and> tc_fd (n_clients n' h') = tc_fd (n_clients n' g) \<longrightarrow> h' = g)"
    if g: "tc_connected (n_clients n' g)" for g
  proof (cases "g = h")
    case True
    with own g ch o(1) others show ?thesis by (auto simp: own_change_def) metis
  next
    case False
    then have c: "n_clients n' g = n_clients n g" "tc_connected (n_clients n g)" using o(1) g by auto
    have "h' = g" if "tc_connected (n_clients n' h')" "tc_fd (n_clients n' h') = tc_fd (n_clients n' g)" for h'
    proof (cases "h' = h")
      case True
      with that own others [OF False c(2)] c(1) show ?thesis by auto
    next
      case h': False
      with that o(1) c ok show ?thesis by (auto simp: net_ok_def)
    qed
    moreover have "tracked_info (tc_fd (n_clients n g)) (n_reactor n') = tracked_info (tc_fd (n_clients n g)) (n_reactor n)"
      by (rule o(2) [OF False c(2)])
    ultimately show ?thesis using ok c ch by (auto simp: net_ok_def own_change_def)
  qed
  ultimately show ?thesis by (simp add: net_ok_def)
qed

lemma net_ok_connected:
  "net_ok n \<Longrightarrow> tc_connected (n_clients n h) \<Longrightarrow>
     tc_fd (n_clients n h) \<noteq> n_server_fd n \<and> tc_fd (n_clients n h) \<noteq> get_read_fd (re_notifier (n_reactor n))
     \<and> \<not> fi_untrack (tracked_info (tc_fd (n_clients n h)) (n_reactor n))"
  by (simp add: net_ok_def)

lemma net_ok_others:
  "net_ok n \<Longrightarrow> tc_connected (n_clients n h) \<Longrightarrow> h' \<noteq> h \<Longrightarrow> tc_connected (n_clients n h') \<Longrightarrow>
     tc_fd (n_clients n h') \<noteq> tc_fd (n_clients n h)"
  unfolding net_ok_def by blast

lemma net_ok_armed: "net_ok n \<Longrightarrow> armed_exact h n"
  by (simp add: net_ok_def)

text \<open>An operation of a client on its own descriptor.\<close>

lemma net_ok_client_op:
  assumes ok: "net_ok n" and c: "tc_connected (n_clients n h)" and armed: "armed_exact h n'"
    and ch: "own_change h (tc_fd (n_clients n h)) n n'"
    and fd: "tc_connected (n_clients n' h) \<Longrightarrow> tc_fd (n_clients n' h) = tc_fd (n_clients n h)
       \<and> fi_untrack (tracked_info (tc_fd (n_clients n h)) (n_reactor n')) =
         fi_untrack (tracked_info (tc_fd (n_clients n h)) (n_reactor n))"
  shows "net_ok n'"
  by (rule net_ok_own [OF ok ch armed])
    (use net_ok_connected [OF ok c] net_ok_others [OF ok c] fd in auto)

lemma callback_read_fd [simp]:
  "get_read_fd (re_notifier (set_rd_callback fd cb r)) = get_read_fd (re_notifier r)"
  "get_read_fd (re_notifier (set_wr_callback fd cb r)) = get_read_fd (re_notifier r)"
  "get_read_fd (re_notifier (register_fd fd rd wr r)) = get_read_fd (re_notifier r)"
  "get_read_fd (re_notifier (unregister fd r)) = get_read_fd (re_notifier r)"
  by (simp_all add: set_rd_callback_def set_wr_callback_def register_fd_def unregister_def split: option.split)

lemma register_other [simp]:
  "fd' \<noteq> fd \<Longrightarrow> tracked_info fd' (register_fd fd rd wr r) = tracked_info fd' r"
  "fd' \<noteq> fd \<Longrightarrow> tracked_info fd' (unregister fd r) = tracked_info fd' r"
  by (simp_all add: register_fd_def unregister_def split: option.split)

lemma put_client_server [simp]: "n_server_fd (put_client h c n) = n_server_fd n"
  by (simp add: put_client_def)

lemma net_ok_async_read:
  assumes "net_ok n" "async_read h req n = Inr n'"
  shows "net_ok n'"
  by (rule net_ok_client_op [OF assms(1) _ armed_async_read [OF net_ok_armed [OF assms(1)] assms(2)]])
    (use assms(2) in \<open>auto simp: async_read_def Let_def own_change_def split: if_splits\<close>)

lemma net_ok_async_write:
  assumes "net_ok n" "async_write h req n = Inr n'"
  shows "net_ok n'"
  by (rule net_ok_client_op [OF assms(1) _ armed_async_write [OF net_ok_armed [OF assms(1)] assms(2)]])
    (use assms(2) in \<open>auto simp: async_write_def Let_def own_change_def split: if_splits\<close>)

text \<open>A client that is not connected has no requests to serve.\<close>

lemma idle_client:
  assumes "net_ok n" "\<not> tc_connected (n_clients n h)"
  shows "tc_reads (n_clients n h) = []" "tc_writes (n_clients n h) = []"
  using net_ok_armed [OF assms(1), of h] assms(2) by (simp_all add: armed_exact_def)

lemma net_ok_do_read:
  assumes "net_ok n" "do_read h rcv junk n = (cb, ok, dat, n')"
  shows "net_ok n'"
proof (cases "tc_connected (n_clients n h)")
  case True
  show ?thesis
    by (rule net_ok_client_op [OF assms(1) True armed_do_read [OF net_ok_armed [OF assms(1)] assms(2)]])
      (use assms(2) in \<open>auto simp: do_read_def Let_def own_change_def split: list.splits if_splits\<close>)
next
  case False
  with idle_client [OF assms(1) False] assms show ?thesis by (simp add: do_read_def)
qed

lemma net_ok_do_write:
  assumes "net_ok n" "do_write h snd_ok junk n = (cb, ok, k, n')"
  shows "net_ok n'"
proof (cases "tc_connected (n_clients n h)")
  case True
  show ?thesis
    by (rule net_ok_client_op [OF assms(1) True armed_do_write [OF net_ok_armed [OF assms(1)] assms(2)]])
      (use assms(2) in \<open>auto simp: do_write_def Let_def own_change_def split: list.splits if_splits\<close>)
next
  case False
  with idle_client [OF assms(1) False] assms show ?thesis by (simp add: do_write_def)
qed

lemma net_ok_disconnect:
  assumes "net_ok n"
  shows "net_ok (disconnect h n)"
proof (cases "tc_connected (n_clients n h)")
  case True
  show ?thesis
    by (rule net_ok_client_op [OF assms True armed_disconnect [OF net_ok_armed [OF assms]]])
      (auto simp: disconnect_def on_client_disconnect_def Let_def own_change_def split: if_splits)
next
  case False
  with assms show ?thesis by (simp add: disconnect_def)
qed

lemma net_ok_disconnects: "net_ok n \<Longrightarrow> net_ok (fold disconnect hs n)"
  by (induction hs arbitrary: n) (simp_all add: net_ok_disconnect)

text \<open>A new connection: its descriptor is free.\<close>

lemma net_ok_new:
  assumes ok: "net_ok n" and free: "free_fd fd n" and ch: "own_change h fd n n'"
    and armed: "armed_exact h n'" and fd: "tc_fd (n_clients n' h) = fd"
    and u: "\<not> fi_untrack (tracked_info fd (n_reactor n'))"
  shows "net_ok n'"
  by (rule net_ok_own [OF ok ch armed]) (use free fd u in \<open>auto simp: free_fd_def\<close>)

lemma net_ok_connect:
  assumes "net_ok n" "free_fd fd n" "client_connect h (Inr fd) n = Inr n'"
  shows "net_ok n'"
  by (rule net_ok_new [OF assms(1,2) _ armed_connect [OF net_ok_armed [OF assms(1)] assms(3)]])
    (use assms(3) in \<open>auto simp: client_connect_def Let_def own_change_def split: if_splits\<close>)

lemma net_ok_accept:
  assumes "net_ok n" "free_fd fd n"
  shows "net_ok (server_accept (\<lambda>h n. n) h (Some fd) n)"
  by (rule net_ok_new [OF assms, where h = h])
    (use assms(2) in \<open>auto simp: server_accept_def Let_def own_change_def new_client_def armed_defs free_fd_def
      tracked_info_def\<close>)

lemma net_ok_server:
  assumes "net_ok n"
  shows "server_start n = Inr n' \<Longrightarrow> net_ok n'"
    and "net_ok (n\<lparr>n_running := b, n_reactor := unregister (n_server_fd n) (n_reactor n)\<rparr>)"
    and "net_ok (n\<lparr>n_server_clients := hs\<rparr>)"
  using assms
  by (auto simp: server_start_def net_ok_def armed_defs split: if_splits)

lemma net_ok_stop: "net_ok n \<Longrightarrow> net_ok (server_stop n)"
  by (auto simp: server_stop_def Let_def intro!: net_ok_server(3) net_ok_disconnects net_ok_server(2))

lemma net_op_ok:
  assumes "net_op n n'" "net_ok n"
  shows "net_ok n'"
  using assms
proof cases
  case (connects fd h)
  with assms(2) net_ok_connect show ?thesis by blast
next
  case starts
  with assms(2) net_ok_server(1) show ?thesis by blast
next
  case (accepts fd h)
  with assms(2) net_ok_accept show ?thesis by blast
next
  case (accept_fails h)
  with net_ok_stop [OF assms(2)] show ?thesis by (simp add: server_accept_def)
next
  case stops
  with net_ok_stop [OF assms(2)] show ?thesis by simp
next
  case (asks_read h req)
  with assms(2) net_ok_async_read show ?thesis by blast
next
  case (asks_write h req)
  with assms(2) net_ok_async_write show ?thesis by blast
next
  case (disconnects h)
  with net_ok_disconnect [OF assms(2)] show ?thesis by simp
next
  case (reads h rcv junk cb ok dat)
  with assms(2) net_ok_do_read show ?thesis by blast
next
  case (writes h snd_ok junk wcb ok k)
  with assms(2) net_ok_do_write show ?thesis by blast
qed

lemma net_run_step_ok:
  assumes "net_run_step (ph, n, run) (ph', n', run')" "net_ok n"
  shows "net_ok n'"
  using assms(1)
proof cases
  case op
  with assms(2) net_op_ok show ?thesis by blast
next
  case (take t p)
  with assms(2) show ?thesis by (auto intro!: net_ok_keeps keeps_same_table)
next
  case (finish run1 t run2)
  with assms(2) show ?thesis by (auto intro!: net_ok_keeps keeps_finish)
next
  case (poll r')
  with assms(2) keeps_poll show ?thesis by (auto intro!: net_ok_keeps)
qed (use assms(2) in auto)

lemma net_ok_start: "nobody_yet nf k n \<Longrightarrow> net_ok n"
  by (simp add: nobody_yet_def net_ok_def armed_exact_def)

lemma net_reach_ok: "net_reach nf k s \<Longrightarrow> net_ok (fst (snd s))"
proof (induction rule: net_reach.induct)
  case (start n)
  then show ?case by (simp add: net_ok_start)
next
  case (step s s')
  moreover obtain ph n run ph' n' run' where "s = (ph, n, run)" "s' = (ph', n', run')"
    by (cases s, cases s') blast
  ultimately show ?case using net_run_step_ok [of ph n run ph' n' run'] by simp
qed

section \<open>What is watched\<close>

text \<open>
  C25: A connected client is watched for exactly what it has asked for. Users connect, accept, request,
  read, write, disconnect and stop the server in any order, interleaved with workers that take, finish or
  give up callbacks and with the poll thread; the one exclusion is that a new connection does not get the
  number of a descriptor whose entry a running callback still holds (\<open>free_fd\<close>). Then at any time
  the reactor has a read callback for a connected client if and only if a read is pending, a write
  callback if and only if a write is; and while the poll thread sleeps in \<^verbatim>\<open>select\<close> with no byte in its
  pipe, the client's descriptor is in the read set if and only if a read is pending and no read
  callback of it is under way, or has thrown, and in the write set likewise.
\<close>

theorem client_watched_exactly_for_requests:
  assumes "net_reach nf k (ph, n, run)" "tc_connected (n_clients n h)"
  shows "rd_armed h n = (tc_reads (n_clients n h) \<noteq> []) \<and> wr_armed h n = (tc_writes (n_clients n h) \<noteq> [])
    \<and> (ph = Selecting \<and> \<not> pipe_readable (re_notifier (n_reactor n)) \<longrightarrow>
        (tc_fd (n_clients n h) \<in> set (re_rd_set (n_reactor n)) \<longleftrightarrow>
           tc_reads (n_clients n h) \<noteq> [] \<and> \<not> busy True (tc_fd (n_clients n h)) (n_reactor n))
        \<and> (tc_fd (n_clients n h) \<in> set (re_wr_set (n_reactor n)) \<longleftrightarrow>
           tc_writes (n_clients n h) \<noteq> [] \<and> \<not> busy False (tc_fd (n_clients n h)) (n_reactor n)))"
proof -
  let ?r = "n_reactor n" and ?fd = "tc_fd (n_clients n h)"
  have ok: "net_ok n" using net_reach_ok [OF assms(1)] by simp
  have armed: "rd_armed h n = (tc_reads (n_clients n h) \<noteq> [])" "wr_armed h n = (tc_writes (n_clients n h) \<noteq> [])"
    using net_ok_armed [OF ok, of h] assms(2) by (simp_all add: armed_exact_def)
  have sets: "(?fd \<in> set (re_rd_set ?r) \<longleftrightarrow> rd_armed h n \<and> \<not> busy True ?fd ?r)
      \<and> (?fd \<in> set (re_wr_set ?r) \<longleftrightarrow> wr_armed h n \<and> \<not> busy False ?fd ?r)"
    if "ph = Selecting" "\<not> pipe_readable (re_notifier ?r)"
  proof -
    have "awake (Selecting, (?r, run))"
      using net_reach_loop [OF assms(1)] that(1) by (auto intro: loop_reach_awake)
    with that(2) have u: "up_to_date ?r" "om_wf (re_tracked ?r)" by (simp_all add: awake_def)
    have "?fd \<noteq> get_read_fd (re_notifier ?r)" using net_ok_connected [OF ok assms(2)] by simp
    with up_to_date_sets [OF u, of ?fd] show ?thesis
      by (auto simp: rd_armed_def wr_armed_def busy_def wants_read_def wants_write_def tracked_info_def
          split: option.splits)
  qed
  with armed show ?thesis by blast
qed

theorem client_watched_exactly_for_requests_witness:
  "let n0 = (sample_net :: (string option, bool) net)
         \<lparr>n_running := False, n_clients := (\<lambda>_. (new_client 0)\<lparr>tc_connected := False\<rparr>)\<rparr>;
       n1 = (case client_connect 0 (Inr 5) n0 of Inr n \<Rightarrow> n);
       n2 = (case async_read 0 (8, Some ''cb'') n1 of Inr n \<Rightarrow> n);
       n3 = n2\<lparr>n_reactor := snd (init_select_fds (n_reactor n2))\<rparr>;
       n4 = n3\<lparr>n_reactor := dispatch_select (select_ready [3] [] (n_reactor n3))\<rparr>;
       n5 = n4\<lparr>n_reactor := snd (init_select_fds (n_reactor n4))\<rparr>
   in 5 \<in> set (re_rd_set (n_reactor n5)) \<and> 5 \<notin> set (re_wr_set (n_reactor n5))"
proof -
  define n0 where "n0 = (sample_net :: (string option, bool) net)
    \<lparr>n_running := False, n_clients := (\<lambda>_. (new_client 0)\<lparr>tc_connected := False\<rparr>)\<rparr>"
  define n1 where "n1 = (case client_connect 0 (Inr 5) n0 of Inr n \<Rightarrow> n)"
  define n2 where "n2 = (case async_read 0 (8, Some ''cb'') n1 of Inr n \<Rightarrow> n)"
  define n3 where "n3 = n2\<lparr>n_reactor := snd (init_select_fds (n_reactor n2))\<rparr>"
  define n4' where "n4' = n3\<lparr>n_reactor := select_ready [3] [] (n_reactor n3)\<rparr>"
  define n4 where "n4 = n3\<lparr>n_reactor := dispatch_select (select_ready [3] [] (n_reactor n3))\<rparr>"
  define n5 where "n5 = n4\<lparr>n_reactor := snd (init_select_fds (n_reactor n4))\<rparr>"
  note evals = new_reactor_def init_select_fds_def set_rd_callback_def register_fd_def select_ready_def dispatch_select_def
    dispatch_fd_def put_info_def om_put_def notify_def pipe_notify_def clear_pipe_def get_read_fd_def
    sample_pipe_def pipe_readable_def tracked_info_def new_fd_info_def wants_read_def wants_write_def Let_def
    sample_net_def new_client_def put_client_def client_connect_def async_read_def busy_def
  have "nobody_yet sample_pipe 2 n0"
    by (simp add: nobody_yet_def n0_def sample_net_def new_client_def sample_pipe_def get_read_fd_def)
  then have "net_reach sample_pipe 2 (Loop_Top, n0, [])" by (rule net_reach.start)
  moreover have "net_op n0 n1"
    by (rule net_op.connects [of 5 _ 0]) (simp_all add: n0_def n1_def free_fd_def evals)
  ultimately have "net_reach sample_pipe 2 (Loop_Top, n1, [])" by (blast intro: net_reach.step net_run_step.op)
  moreover have "net_op n1 n2"
    by (rule net_op.asks_read [of 0 "(8, Some ''cb'')"]) (simp add: n0_def n1_def n2_def evals)
  ultimately have "net_reach sample_pipe 2 (Loop_Top, n2, [])" by (blast intro: net_reach.step net_run_step.op)
  moreover have "net_run_step (Loop_Top, n2, []) (Selecting, n3, [])"
    unfolding n3_def by (intro net_run_step.poll loop_step.init) (simp_all add: n0_def n1_def n2_def evals)
  ultimately have "net_reach sample_pipe 2 (Selecting, n3, [])" by (rule net_reach.step)
  moreover have "net_run_step (Selecting, n3, []) (Selected, n4', [])"
    unfolding n4'_def
    by (intro net_run_step.poll loop_step.select) (simp_all add: n0_def n1_def n2_def n3_def evals)
  ultimately have "net_reach sample_pipe 2 (Selected, n4', [])" by (rule net_reach.step)
  moreover have "net_run_step (Selected, n4', []) (Loop_Top, n4, [])"
    using net_run_step.poll [OF loop_step.dispatch, of n4' "[]"] by (simp add: n4_def n4'_def)
  ultimately have "net_reach sample_pipe 2 (Loop_Top, n4, [])" by (rule net_reach.step)
  moreover have "net_run_step (Loop_Top, n4, []) (Selecting, n5, [])"
    unfolding n5_def by (intro net_run_step.poll loop_step.init) (simp_all add: n0_def n1_def n2_def n3_def n4_def evals)
  ultimately have "net_reach sample_pipe 2 (Selecting, n5, [])" by (rule net_reach.step)
  from client_watched_exactly_for_requests [OF this, of 0]
  have "5 \<in> set (re_rd_set (n_reactor n5)) \<and> 5 \<notin> set (re_wr_set (n_reactor n5))"
    by (simp add: n0_def n1_def n2_def n3_def n4_def n5_def evals)
  then show ?thesis
    unfolding Let_def n0_def n1_def n2_def n3_def n4_def n5_def .
qed

end
