(* ===== verification/Tcp_Socket.thy ===== *)
theory Tcp_Socket
  imports Cpp_Prelude
begin

text \<open>
  The sockets of the Lab3 server, \<^verbatim>\<open>Lab3/src/tcp_server/tcp_socket.hpp\<close> and
  \<^verbatim>\<open>tcp_socket.cpp\<close>. A member function may throw and still leave the object changed, so an
  operation returns its result or exception, the object, and the system calls it made. What
  the system answers is an argument.
\<close>

section \<open>State and system calls\<close>

datatype socket_type = UNKNOWN | CLIENT | SERVER

record sock =
  sk_fd :: int
  sk_host :: string
  sk_port :: u32
  sk_type :: socket_type

datatype syscall =
    Sys_socket int
  | Sys_setsockopt int
  | Sys_recv int nat
  | Sys_send int string
  | Sys_connect int
  | Sys_bind int
  | Sys_listen int nat
  | Sys_accept int
  | Sys_close int

type_synonym 'a sock_op = "sock \<Rightarrow> 'a result \<times> sock \<times> syscall list"

definition sreturn :: "'a \<Rightarrow> 'a sock_op" where
  "sreturn x s = (Inr x, s, [])"

definition sthrow :: "string \<Rightarrow> 'a sock_op" where
  "sthrow msg s = (Inl (Std_Exception msg), s, [])"

definition scall :: "syscall \<Rightarrow> unit sock_op" where
  "scall c s = (Inr (), s, [c])"

definition sbind :: "'a sock_op \<Rightarrow> ('a \<Rightarrow> 'b sock_op) \<Rightarrow> 'b sock_op" where
  "sbind m f s =
     (case m s of
        (Inl e, s1, cs) \<Rightarrow> (Inl e, s1, cs)
      | (Inr x, s1, cs) \<Rightarrow> (case f x s1 of (r, s2, ds) \<Rightarrow> (r, s2, cs @ ds)))"

definition new_sock :: sock where
  "new_sock = \<lparr>sk_fd = -1, sk_host = [], sk_port = 0, sk_type = UNKNOWN\<rparr>"

definition make_sock :: "int \<Rightarrow> string \<Rightarrow> u32 \<Rightarrow> socket_type \<Rightarrow> sock" where
  "make_sock fd host port t = \<lparr>sk_fd = fd, sk_host = host, sk_port = port, sk_type = t\<rparr>"

text \<open>
  Moving a socket, as construction and as assignment; both return the new object and the one
  moved from. The assignment overwrites the descriptor of its target.
\<close>

definition move_sock :: "sock \<Rightarrow> sock \<times> sock" where
  "move_sock s = (s, s\<lparr>sk_fd := -1, sk_type := UNKNOWN\<rparr>)"

definition assign_sock :: "sock \<Rightarrow> sock \<Rightarrow> sock \<times> sock" where
  "assign_sock target s =
     (target\<lparr>sk_fd := sk_fd s, sk_host := sk_host s, sk_port := sk_port s, sk_type := sk_type s\<rparr>,
      s\<lparr>sk_fd := -1, sk_type := UNKNOWN\<rparr>)"

section \<open>Operations\<close>

text \<open>\<open>opened\<close> is what \<^verbatim>\<open>socket()\<close> returns.\<close>

definition ensure_fd :: "int \<Rightarrow> unit sock_op" where
  "ensure_fd opened s =
     (if sk_fd s \<noteq> -1 then sreturn () s
      else sbind (scall (Sys_socket opened)) (\<lambda>_.
           sbind (scall (Sys_setsockopt opened)) (\<lambda>_.
           if opened = -1 then sthrow ''error socket()'' else sreturn ()))
             (s\<lparr>sk_fd := opened, sk_type := UNKNOWN\<rparr>))"

definition ensure_type :: "socket_type \<Rightarrow> unit sock_op" where
  "ensure_type t s =
     (let s1 = (if sk_type s = UNKNOWN then s\<lparr>sk_type := t\<rparr> else s)
      in if sk_type s1 \<noteq> t
         then sthrow ''unmatch socket type for performing operations'' s1
         else sreturn () s1)"

definition on_fd :: "(int \<Rightarrow> syscall) \<Rightarrow> unit sock_op" where
  "on_fd c s = scall (c (sk_fd s)) s"

definition sock_close :: "unit sock_op" where
  "sock_close s =
     sbind (if sk_fd s \<noteq> -1 then on_fd Sys_close else sreturn ())
       (\<lambda>_ s. sreturn () (s\<lparr>sk_fd := -1, sk_type := UNKNOWN\<rparr>)) s"

text \<open>\<open>delivered\<close>: the bytes \<^verbatim>\<open>recv\<close> delivers, \<open>None\<close> for a negative return value.\<close>

definition sock_recv :: "int \<Rightarrow> (nat \<Rightarrow> string option) \<Rightarrow> nat \<Rightarrow> string sock_op" where
  "sock_recv opened delivered len =
     sbind (ensure_fd opened) (\<lambda>_.
     sbind (ensure_type CLIENT) (\<lambda>_.
     sbind (on_fd (\<lambda>fd. Sys_recv fd len)) (\<lambda>_.
       case delivered len of
         None \<Rightarrow> sthrow ''error recv()''
       | Some dat \<Rightarrow> if dat = [] then sthrow ''nothing to read'' else sreturn dat)))"

text \<open>
  What successive calls of \<^verbatim>\<open>send\<close> do: take some bytes (perhaps none), or fail, for a signal or
  for good. Once the list is used up every call takes all bytes.
\<close>

datatype sent = Sent nat | Send_Interrupted | Send_Failed

fun sock_send_loop :: "sent list \<Rightarrow> string \<Rightarrow> unit sock_op" where
  "sock_send_loop outcomes [] = sreturn ()"
| "sock_send_loop [] data = on_fd (\<lambda>fd. Sys_send fd data)"
| "sock_send_loop (Sent n # outcomes) data =
     sbind (on_fd (\<lambda>fd. Sys_send fd (take n data))) (\<lambda>_. sock_send_loop outcomes (drop n data))"
| "sock_send_loop (Send_Interrupted # outcomes) data =
     sbind (on_fd (\<lambda>fd. Sys_send fd [])) (\<lambda>_. sock_send_loop outcomes data)"
| "sock_send_loop (Send_Failed # outcomes) data =
     sbind (on_fd (\<lambda>fd. Sys_send fd [])) (\<lambda>_. sthrow ''error send()'')"

definition sock_send :: "int \<Rightarrow> sent list \<Rightarrow> string \<Rightarrow> unit sock_op" where
  "sock_send opened outcomes data =
     sbind (ensure_fd opened) (\<lambda>_.
     sbind (ensure_type CLIENT) (\<lambda>_. sock_send_loop outcomes data))"

text \<open>\<open>resolved\<close>: whether \<^verbatim>\<open>getaddrinfo\<close> finds the host; \<open>ok\<close>: whether the call succeeds.\<close>

definition sock_connect :: "int \<Rightarrow> bool \<Rightarrow> bool \<Rightarrow> string \<Rightarrow> u32 \<Rightarrow> unit sock_op" where
  "sock_connect opened resolved ok host port s =
     sbind (ensure_fd opened) (\<lambda>_.
     sbind (ensure_type CLIENT) (\<lambda>_.
     if \<not> resolved then sthrow ''error getaddrinfo()''
     else sbind (on_fd Sys_connect) (\<lambda>_.
       if ok then sreturn ()
       else sbind sock_close (\<lambda>_. sthrow ''error connect()''))))
         (s\<lparr>sk_host := host, sk_port := port\<rparr>)"

definition sock_bind :: "int \<Rightarrow> bool \<Rightarrow> bool \<Rightarrow> string \<Rightarrow> u32 \<Rightarrow> unit sock_op" where
  "sock_bind opened resolved ok host port s =
     sbind (ensure_fd opened) (\<lambda>_.
     sbind (ensure_type SERVER) (\<lambda>_.
     if \<not> resolved then sthrow ''error getaddrinfo()''
     else sbind (on_fd Sys_bind) (\<lambda>_.
       if ok then sreturn () else sthrow ''error bind()'')))
         (s\<lparr>sk_host := host, sk_port := port\<rparr>)"

definition sock_listen :: "int \<Rightarrow> bool \<Rightarrow> nat \<Rightarrow> unit sock_op" where
  "sock_listen opened ok backlog =
     sbind (ensure_fd opened) (\<lambda>_.
     sbind (ensure_type SERVER) (\<lambda>_.
     sbind (on_fd (\<lambda>fd. Sys_listen fd backlog)) (\<lambda>_.
       if ok then sreturn () else sthrow ''error listen()'')))"

text \<open>
  \<open>peer\<close>: the descriptor \<^verbatim>\<open>accept\<close> returns with the address of the peer. The port is taken as it
  stands in the address, in network byte order.
\<close>

definition sock_accept :: "int \<Rightarrow> (int \<times> string \<times> u16) \<Rightarrow> sock sock_op" where
  "sock_accept opened peer =
     sbind (ensure_fd opened) (\<lambda>_.
     sbind (ensure_type SERVER) (\<lambda>_.
     sbind (on_fd Sys_accept) (\<lambda>_.
       case peer of (client_fd, host, sin_port) \<Rightarrow>
         if client_fd = -1 then sthrow ''error accept()''
         else sreturn (make_sock client_fd host (ucast sin_port) CLIENT))))"

definition same_sock :: "sock \<Rightarrow> sock \<Rightarrow> bool" where
  "same_sock a b \<longleftrightarrow> sk_fd a = sk_fd b \<and> sk_type a = sk_type b"

section \<open>The discipline of descriptors\<close>

text \<open>
  What a correct user of the socket interface does with a descriptor: it opens one only when it
  has none, uses it only while it is open, for the calls of a client or for those of a server
  but not both, and closes it once. The state is the open descriptor and its use so far.
\<close>

fun role_of :: "syscall \<Rightarrow> (int \<times> socket_type) option" where
  "role_of (Sys_recv fd _) = Some (fd, CLIENT)"
| "role_of (Sys_send fd _) = Some (fd, CLIENT)"
| "role_of (Sys_connect fd) = Some (fd, CLIENT)"
| "role_of (Sys_bind fd) = Some (fd, SERVER)"
| "role_of (Sys_listen fd _) = Some (fd, SERVER)"
| "role_of (Sys_accept fd) = Some (fd, SERVER)"
| "role_of _ = None"

fun discipline :: "(int \<times> socket_type) option \<Rightarrow> syscall \<Rightarrow> (int \<times> socket_type) option option" where
  "discipline cur (Sys_socket fd) =
     (if cur \<noteq> None then None else if fd = -1 then Some None else Some (Some (fd, UNKNOWN)))"
| "discipline cur (Sys_setsockopt fd) =
     (case cur of None \<Rightarrow> if fd = -1 then Some None else None
      | Some (open_fd, t) \<Rightarrow> if fd = open_fd then Some cur else None)"
| "discipline cur (Sys_close fd) =
     (case cur of None \<Rightarrow> None | Some (open_fd, t) \<Rightarrow> if fd = open_fd then Some None else None)"
| "discipline cur c =
     (case role_of c of
        None \<Rightarrow> None
      | Some (fd, role) \<Rightarrow>
          (case cur of
             None \<Rightarrow> None
           | Some (open_fd, t) \<Rightarrow>
               if fd = open_fd \<and> (t = UNKNOWN \<or> t = role) then Some (Some (fd, role)) else None))"

fun disciplined :: "(int \<times> socket_type) option \<Rightarrow> syscall list \<Rightarrow> (int \<times> socket_type) option option" where
  "disciplined cur [] = Some cur"
| "disciplined cur (c # cs) =
     (case discipline cur c of None \<Rightarrow> None | Some cur' \<Rightarrow> disciplined cur' cs)"

lemma disciplined_append:
  "disciplined cur (cs @ ds) =
     (case disciplined cur cs of None \<Rightarrow> None | Some cur' \<Rightarrow> disciplined cur' ds)"
  by (induction cs arbitrary: cur) (auto split: option.splits)

text \<open>
  The state of the discipline that fits an object: its descriptor, used so far as the object's
  type says or not at all. An operation is safe when it takes objects that fit to objects
  that fit, by disciplined calls.
\<close>

definition fits :: "(int \<times> socket_type) option \<Rightarrow> sock \<Rightarrow> bool" where
  "fits cur s \<longleftrightarrow>
     (if sk_fd s = -1 then cur = None
      else \<exists>t. cur = Some (sk_fd s, t) \<and> (t = UNKNOWN \<or> t = sk_type s))"

definition safe_op :: "'a sock_op \<Rightarrow> bool" where
  "safe_op m \<longleftrightarrow>
     (\<forall>cur s r s' cs. fits cur s \<and> m s = (r, s', cs) \<longrightarrow>
        (\<exists>cur'. disciplined cur cs = Some cur' \<and> fits cur' s'))"

text \<open>Operations that need an open descriptor of a given type, after \<open>ensure_fd\<close> and \<open>ensure_type\<close>.\<close>

definition safe_open :: "socket_type \<Rightarrow> 'a sock_op \<Rightarrow> bool" where
  "safe_open t m \<longleftrightarrow>
     (\<forall>cur s r s' cs. fits cur s \<and> sk_fd s \<noteq> -1 \<and> sk_type s = t \<and> m s = (r, s', cs) \<longrightarrow>
        (\<exists>cur'. disciplined cur cs = Some cur' \<and> fits cur' s'))"

lemma safe_op_open: "safe_op m \<Longrightarrow> safe_open t m"
  unfolding safe_op_def safe_open_def by blast

lemma safe_return [simp]: "safe_op (sreturn x)" and safe_throw [simp]: "safe_op (sthrow e)"
  by (auto simp: safe_op_def sreturn_def sthrow_def)

lemma safe_close: "safe_op sock_close"
  by (auto simp: safe_op_def sock_close_def sbind_def on_fd_def scall_def sreturn_def fits_def
      split: if_splits)

text \<open>A call in the role the object has, and what follows it on the same open object.\<close>

lemma safe_role_call:
  assumes "\<And>fd. role_of (c fd) = Some (fd, t)" "safe_open t (f ())"
  shows "safe_open t (sbind (on_fd c) f)"
proof -
  have d: "discipline (Some (fd, u)) (c fd) = Some (Some (fd, t))" if "u = UNKNOWN \<or> u = t" for fd u
    using assms(1) [of fd] that by (cases "c fd") auto
  show ?thesis
    unfolding safe_open_def
  proof (intro allI impI, elim conjE)
    fix cur s r s' cs
    assume s: "fits cur s" "sk_fd s \<noteq> -1" "sk_type s = t" and run: "sbind (on_fd c) f s = (r, s', cs)"
    then obtain ds where ds: "f () s = (r, s', ds)" "cs = c (sk_fd s) # ds"
      by (auto simp: sbind_def on_fd_def scall_def split: prod.splits)
    from s obtain u where u: "cur = Some (sk_fd s, u)" "u = UNKNOWN \<or> u = t" by (auto simp: fits_def)
    have "fits (Some (sk_fd s, t)) s" using s by (simp add: fits_def)
    with assms(2) s ds(1) obtain cur' where "disciplined (Some (sk_fd s, t)) ds = Some cur'" "fits cur' s'"
      unfolding safe_open_def by blast
    with d [OF u(2)] u(1) ds(2) show "\<exists>cur'. disciplined cur cs = Some cur' \<and> fits cur' s'" by simp
  qed
qed

lemma safe_ensured:
  assumes "safe_open t (f ())" "t \<noteq> UNKNOWN"
  shows "safe_op (sbind (ensure_fd opened) (\<lambda>_. sbind (ensure_type t) f))"
proof -
  have *: "\<exists>cur'. disciplined cur cs = Some cur' \<and> fits cur' s'"
    if s: "fits cur s" "sk_fd s \<noteq> -1" and run: "sbind (ensure_type t) f s = (r, s', cs)" for cur s r s' cs
  proof (cases "sk_type s = UNKNOWN \<or> sk_type s = t")
    case True
    define s1 where "s1 = s\<lparr>sk_type := t\<rparr>"
    have "s1 = s" if "sk_type s = t" using that by (simp add: s1_def)
    with True run have "f () s1 = (r, s', cs)"
      by (auto simp: sbind_def ensure_type_def sreturn_def s1_def Let_def split: prod.splits if_splits)
    moreover have "fits cur s1" "sk_fd s1 \<noteq> -1" "sk_type s1 = t"
      using s True by (auto simp: fits_def s1_def)
    ultimately show ?thesis using assms(1) unfolding safe_open_def by blast
  next
    case False
    with s run show ?thesis
      by (auto simp: sbind_def ensure_type_def sthrow_def Let_def)
  qed
  show ?thesis
    unfolding safe_op_def
  proof (intro allI impI, elim conjE)
    fix cur s r s' cs
    assume s: "fits cur s"
      and run: "sbind (ensure_fd opened) (\<lambda>_. sbind (ensure_type t) f) s = (r, s', cs)"
    show "\<exists>cur'. disciplined cur cs = Some cur' \<and> fits cur' s'"
    proof (cases "sk_fd s = -1")
      case False
      with run have "sbind (ensure_type t) f s = (r, s', cs)"
        by (auto simp: sbind_def [of "ensure_fd opened"] ensure_fd_def sreturn_def split: prod.splits)
      with * s False show ?thesis by blast
    next
      case True
      with s have cur: "cur = None" by (simp add: fits_def)
      define s1 where "s1 = s\<lparr>sk_fd := opened, sk_type := UNKNOWN\<rparr>"
      show ?thesis
      proof (cases "opened = -1")
        case True
        with \<open>sk_fd s = -1\<close> run cur show ?thesis
          by (auto simp: sbind_def ensure_fd_def scall_def sthrow_def fits_def)
      next
        case False
        with True run obtain ds where ds: "sbind (ensure_type t) f s1 = (r, s', ds)"
          "cs = Sys_socket opened # Sys_setsockopt opened # ds"
          by (auto simp: sbind_def [of "ensure_fd opened"] ensure_fd_def sbind_def [of "scall _"]
              scall_def sreturn_def s1_def split: prod.splits)
        have "fits (Some (opened, UNKNOWN)) s1" "sk_fd s1 \<noteq> -1"
          using False by (simp_all add: fits_def s1_def)
        with * ds(1) obtain cur' where "disciplined (Some (opened, UNKNOWN)) ds = Some cur'" "fits cur' s'"
          by blast
        with ds(2) cur False show ?thesis by simp
      qed
    qed
  qed
qed

lemma fits_address [simp]: "fits cur (s\<lparr>sk_host := host, sk_port := port\<rparr>) \<longleftrightarrow> fits cur s"
  by (simp add: fits_def)

lemma safe_after:
  "safe_op m \<Longrightarrow> safe_op (\<lambda>s. m (s\<lparr>sk_host := host, sk_port := port\<rparr>))"
  unfolding safe_op_def using fits_address by blast

lemma safe_bind:
  assumes m: "safe_op m" and f: "\<And>x. safe_op (f x)"
  shows "safe_op (sbind m f)"
  unfolding safe_op_def
proof (intro allI impI, elim conjE)
  fix cur s r s' cs
  assume s: "fits cur s" and run: "sbind m f s = (r, s', cs)"
  obtain r1 s1 cs1 where m1: "m s = (r1, s1, cs1)" by (cases "m s")
  with m s obtain cur1 where c1: "disciplined cur cs1 = Some cur1" "fits cur1 s1"
    unfolding safe_op_def by blast
  show "\<exists>cur'. disciplined cur cs = Some cur' \<and> fits cur' s'"
  proof (cases r1)
    case (Inl e)
    with run m1 c1 show ?thesis by (simp add: sbind_def)
  next
    case (Inr x)
    obtain r2 s2 cs2 where f2: "f x s1 = (r2, s2, cs2)" by (cases "f x s1")
    with f [of x] c1(2) obtain cur2 where "disciplined cur1 cs2 = Some cur2" "fits cur2 s2"
      unfolding safe_op_def by blast
    with Inr run m1 c1(1) f2 show ?thesis by (auto simp: sbind_def disciplined_append)
  qed
qed

lemmas safe_ops = safe_return safe_throw safe_close safe_bind safe_op_open

lemma safe_send_loop: "safe_open CLIENT (sock_send_loop outcomes data)"
proof (induction outcomes data rule: sock_send_loop.induct)
  case (2 c cs)
  have "sbind (on_fd (\<lambda>fd. Sys_send fd (c # cs))) sreturn = on_fd (\<lambda>fd. Sys_send fd (c # cs))"
    by (rule ext) (simp add: sbind_def on_fd_def scall_def sreturn_def)
  moreover have "safe_open CLIENT (sbind (on_fd (\<lambda>fd. Sys_send fd (c # cs))) sreturn)"
    by (rule safe_role_call) (simp_all add: safe_ops)
  ultimately show ?case by simp
next
  case 1
  then show ?case by (simp add: safe_ops)
qed (auto intro!: safe_role_call simp: safe_ops)

lemma safe_recv: "safe_op (sock_recv opened delivered len)"
  unfolding sock_recv_def
  by (intro safe_ensured safe_role_call) (auto simp: safe_ops split: option.splits)

lemma safe_send: "safe_op (sock_send opened outcomes data)"
  unfolding sock_send_def by (intro safe_ensured safe_send_loop) simp

lemma safe_connect: "safe_op (sock_connect opened resolved ok host port)"
  unfolding sock_connect_def
  by (intro safe_after safe_ensured) (auto intro!: safe_role_call simp: safe_ops)

lemma safe_bind_call: "safe_op (sock_bind opened resolved ok host port)"
  unfolding sock_bind_def
  by (intro safe_after safe_ensured) (auto intro!: safe_role_call simp: safe_ops)

lemma safe_listen: "safe_op (sock_listen opened ok backlog)"
  unfolding sock_listen_def
  by (intro safe_ensured safe_role_call) (auto simp: safe_ops)

lemma safe_accept: "safe_op (sock_accept opened peer)"
  unfolding sock_accept_def
  by (intro safe_ensured safe_role_call) (auto simp: safe_ops split: prod.splits)

text \<open>An operation opens no descriptor but the one that \<^verbatim>\<open>socket()\<close> returns.\<close>

definition opens_only :: "int \<Rightarrow> 'a sock_op \<Rightarrow> bool" where
  "opens_only opened m \<longleftrightarrow>
     (\<forall>s r s' cs fd. m s = (r, s', cs) \<and> Sys_socket fd \<in> set cs \<longrightarrow> fd = opened)"

lemma opens_return [simp]: "opens_only opened (sreturn x)" and opens_throw [simp]: "opens_only opened (sthrow e)"
  by (auto simp: opens_only_def sreturn_def sthrow_def)

lemma opens_bind [intro]:
  assumes "opens_only opened m" "\<And>x. opens_only opened (f x)"
  shows "opens_only opened (sbind m f)"
  unfolding opens_only_def
proof (intro allI impI, elim conjE)
  fix s r s' cs fd assume run: "sbind m f s = (r, s', cs)" and fd: "Sys_socket fd \<in> set cs"
  obtain r1 s1 cs1 where m: "m s = (r1, s1, cs1)" by (cases "m s")
  show "fd = opened"
  proof (cases r1)
    case (Inl e)
    with run m fd assms(1) show ?thesis by (auto simp: sbind_def opens_only_def)
  next
    case (Inr x)
    obtain r2 s2 cs2 where "f x s1 = (r2, s2, cs2)" by (cases "f x s1")
    with Inr run m fd assms(1) assms(2) [of x] show ?thesis by (auto simp: sbind_def opens_only_def)
  qed
qed

lemma opens_on_fd [intro]: "(\<And>fd fd'. c fd \<noteq> Sys_socket fd') \<Longrightarrow> opens_only opened (on_fd c)"
  by (auto simp: opens_only_def on_fd_def scall_def) metis

lemma opens_ensure [intro]: "opens_only opened (ensure_fd opened)" "opens_only opened (ensure_type t)"
  by (auto simp: opens_only_def ensure_fd_def ensure_type_def sbind_def scall_def sreturn_def sthrow_def Let_def split: if_splits)

lemma opens_close [intro]: "opens_only opened sock_close"
  by (auto simp: opens_only_def sock_close_def sbind_def on_fd_def scall_def sreturn_def split: if_splits)

lemma opens_after: "opens_only opened m \<Longrightarrow> opens_only opened (\<lambda>s. m (s\<lparr>sk_host := host, sk_port := port\<rparr>))"
  unfolding opens_only_def by blast

lemma opens_send_loop [intro]: "opens_only opened (sock_send_loop outcomes dat)"
  by (induction outcomes dat rule: sock_send_loop.induct) auto

lemmas opens_intros = opens_bind opens_ensure opens_on_fd opens_send_loop opens_close

lemma opens_ops:
  "opens_only opened (sock_recv opened delivered len)" "opens_only opened (sock_send opened outcomes dat)"
  "opens_only opened (sock_listen opened ok backlog)" "opens_only opened (sock_accept opened peer)"
  by (auto simp: sock_recv_def sock_send_def sock_listen_def sock_accept_def
      intro!: opens_intros split: option.split prod.split)

lemma opens_connect: "opens_only opened (sock_connect opened resolved ok host port)"
  unfolding sock_connect_def by (intro opens_after) (auto intro!: opens_intros)

lemma opens_bind_call: "opens_only opened (sock_bind opened resolved ok host port)"
  unfolding sock_bind_def by (intro opens_after) (auto intro!: opens_intros)

section \<open>Any number of sockets\<close>

text \<open>What is done with one socket object.\<close>

datatype sock_call =
    Call_recv int "nat \<Rightarrow> string option" nat
  | Call_send int "sent list" string
  | Call_connect int bool bool string u32
  | Call_bind int bool bool string u32
  | Call_listen int bool nat
  | Call_close

fun sock_step :: "sock_call \<Rightarrow> sock \<Rightarrow> sock \<times> syscall list" where
  "sock_step (Call_recv opened delivered len) s = snd (sock_recv opened delivered len s)"
| "sock_step (Call_send opened outcomes dat) s = snd (sock_send opened outcomes dat s)"
| "sock_step (Call_connect opened resolved ok host port) s =
     snd (sock_connect opened resolved ok host port s)"
| "sock_step (Call_bind opened resolved ok host port) s =
     snd (sock_bind opened resolved ok host port s)"
| "sock_step (Call_listen opened ok backlog) s = snd (sock_listen opened ok backlog s)"
| "sock_step Call_close s = snd (sock_close s)"

fun opened_by :: "sock_call \<Rightarrow> int" where
  "opened_by (Call_recv opened _ _) = opened"
| "opened_by (Call_send opened _ _) = opened"
| "opened_by (Call_connect opened _ _ _ _) = opened"
| "opened_by (Call_bind opened _ _ _ _) = opened"
| "opened_by (Call_listen opened _ _) = opened"
| "opened_by Call_close = -1"

text \<open>
  A program with a list of socket objects: it makes a new one, uses one, accepts a client on one
  and keeps the socket returned, move-constructs one from another, or move-assigns one to another.
  A step is possible when the objects exist; when the descriptors the system hands out are not in
  use; and, for an assignment, when its target is the source itself or has no descriptor, because
  the assignment does not close it.
\<close>

datatype sock_event =
    Make_Sock
  | Use_Sock nat sock_call
  | Accept_Sock nat int "int \<times> string \<times> u16"
  | Move_Sock nat
  | Assign_Sock nat nat

datatype kernel_event = Sys syscall | Accepted int

definition fresh_fd :: "int \<Rightarrow> sock list \<Rightarrow> bool" where
  "fresh_fd fd ws \<longleftrightarrow> fd = -1 \<or> fd \<notin> sk_fd ` set ws"

fun world_step :: "sock_event \<Rightarrow> sock list \<Rightarrow> (sock list \<times> kernel_event list) option" where
  "world_step Make_Sock ws = Some (ws @ [new_sock], [])"
| "world_step (Use_Sock k c) ws =
     (if k < length ws \<and> fresh_fd (opened_by c) ws
      then case sock_step c (ws ! k) of (s, cs) \<Rightarrow> Some (ws[k := s], map Sys cs)
      else None)"
| "world_step (Accept_Sock k opened peer) ws =
     (if k < length ws \<and> fresh_fd opened ws
      then case sock_accept opened peer (ws ! k) of
             (Inl e, s, cs) \<Rightarrow> Some (ws[k := s], map Sys cs)
           | (Inr client, s, cs) \<Rightarrow>
               if fresh_fd (sk_fd client) (ws[k := s])
               then Some (ws[k := s] @ [client], map Sys cs @ [Accepted (sk_fd client)]) else None
      else None)"
| "world_step (Move_Sock k) ws =
     (if k < length ws then case move_sock (ws ! k) of (s, old) \<Rightarrow> Some (ws[k := old] @ [s], []) else None)"
| "world_step (Assign_Sock j k) ws =
     (if j < length ws \<and> k < length ws \<and> (j = k \<or> sk_fd (ws ! j) = -1)
      then if j = k then Some (ws, [])
           else case assign_sock (ws ! j) (ws ! k) of (s, old) \<Rightarrow> Some (ws[j := s, k := old], [])
      else None)"

fun world_run :: "sock_event list \<Rightarrow> sock list \<Rightarrow> (sock list \<times> kernel_event list) option" where
  "world_run [] ws = Some (ws, [])"
| "world_run (ev # evs) ws =
     (case world_step ev ws of
        None \<Rightarrow> None
      | Some (ws1, cs) \<Rightarrow> (case world_run evs ws1 of None \<Rightarrow> None | Some (ws2, ds) \<Rightarrow> Some (ws2, cs @ ds)))"

text \<open>
  The system's side: the open descriptors, each with its use so far. \<open>None\<close>: a call the discipline
  forbids, or a new descriptor that is open already. The option of a descriptor that \<^verbatim>\<open>socket()\<close> has
  refused is set all the same, on -1.
\<close>

type_synonym open_fds = "int \<Rightarrow> socket_type option"

fun kernel_call :: "syscall \<Rightarrow> open_fds \<Rightarrow> open_fds option" where
  "kernel_call (Sys_socket fd) op =
     (if fd = -1 then Some op else if op fd = None then Some (op(fd \<mapsto> UNKNOWN)) else None)"
| "kernel_call (Sys_setsockopt fd) op = (if fd = -1 \<or> op fd \<noteq> None then Some op else None)"
| "kernel_call (Sys_close fd) op = (if op fd = None then None else Some (op(fd := None)))"
| "kernel_call c op =
     (case role_of c of
        None \<Rightarrow> None
      | Some (fd, role) \<Rightarrow>
          (case op fd of
             None \<Rightarrow> None
           | Some t \<Rightarrow> if t = UNKNOWN \<or> t = role then Some (op(fd \<mapsto> role)) else None))"

fun kernel_run :: "kernel_event list \<Rightarrow> open_fds \<Rightarrow> open_fds option" where
  "kernel_run [] op = Some op"
| "kernel_run (Sys c # es) op = (case kernel_call c op of None \<Rightarrow> None | Some op' \<Rightarrow> kernel_run es op')"
| "kernel_run (Accepted fd # es) op = (if op fd = None then kernel_run es (op(fd \<mapsto> CLIENT)) else None)"

text \<open>Every object has its descriptor to itself, used as its type says or not at all, and every open descriptor has an object.\<close>

definition world_ok :: "sock list \<Rightarrow> open_fds \<Rightarrow> bool" where
  "world_ok ws op \<longleftrightarrow>
     (\<forall>i < length ws. sk_fd (ws ! i) \<noteq> -1 \<longrightarrow>
        (op (sk_fd (ws ! i)) = Some UNKNOWN \<or> op (sk_fd (ws ! i)) = Some (sk_type (ws ! i)))
        \<and> (\<forall>j < length ws. sk_fd (ws ! j) = sk_fd (ws ! i) \<longrightarrow> j = i))
     \<and> (\<forall>fd. op fd \<noteq> None \<longrightarrow> fd \<noteq> -1 \<and> (\<exists>i < length ws. sk_fd (ws ! i) = fd))"

text \<open>One object's discipline within the system: \<open>cur\<close> is its share of the open descriptors, \<open>base\<close> the rest.\<close>

definition with_share :: "open_fds \<Rightarrow> (int \<times> socket_type) option \<Rightarrow> open_fds" where
  "with_share base cur = (case cur of None \<Rightarrow> base | Some (fd, t) \<Rightarrow> base(fd \<mapsto> t))"

definition apart :: "open_fds \<Rightarrow> (int \<times> socket_type) option \<Rightarrow> bool" where
  "apart base cur \<longleftrightarrow> (case cur of None \<Rightarrow> True | Some (fd, t) \<Rightarrow> fd \<noteq> -1 \<and> base fd = None)"

lemma kernel_discipline:
  assumes "discipline cur c = Some cur'" "apart base cur" "\<And>fd. c = Sys_socket fd \<Longrightarrow> base fd = None"
  shows "kernel_call c (with_share base cur) = Some (with_share base cur') \<and> apart base cur'"
  using assms
  by (cases c) (auto simp: with_share_def apart_def fun_upd_twist split: option.splits prod.splits if_splits)

lemma kernel_run_append:
  "kernel_run (es @ fs) op = (case kernel_run es op of None \<Rightarrow> None | Some op' \<Rightarrow> kernel_run fs op')"
  by (induction es op rule: kernel_run.induct) (auto split: option.split simp del: fun_upd_apply)

lemma kernel_disciplined:
  "disciplined cur cs = Some cur' \<Longrightarrow> apart base cur \<Longrightarrow> (\<And>fd. Sys_socket fd \<in> set cs \<Longrightarrow> base fd = None) \<Longrightarrow>
     kernel_run (map Sys cs) (with_share base cur) = Some (with_share base cur') \<and> apart base cur'"
proof (induction cs arbitrary: cur)
  case (Cons c cs)
  then obtain cur1 where d: "discipline cur c = Some cur1" "disciplined cur1 cs = Some cur'"
    by (auto split: option.splits)
  have "kernel_call c (with_share base cur) = Some (with_share base cur1) \<and> apart base cur1"
    by (rule kernel_discipline [OF d(1) Cons.prems(2)]) (use Cons.prems(3) in simp)
  with Cons.IH [OF d(2)] Cons.prems(3) show ?case by simp
qed simp

lemma sock_step_safe:
  assumes "fits cur s" "sock_step c s = (s', cs)"
  shows "(\<exists>cur'. disciplined cur cs = Some cur' \<and> fits cur' s')
    \<and> (\<forall>fd. Sys_socket fd \<in> set cs \<longrightarrow> fd = opened_by c)"
proof -
  have step: "(\<exists>cur'. disciplined cur cs = Some cur' \<and> fits cur' s') \<and> (\<forall>fd. Sys_socket fd \<in> set cs \<longrightarrow> fd = opened)"
    if "safe_op m" "opens_only opened m" "snd (m s) = (s', cs)" for m :: "'z sock_op" and opened
  proof -
    have "m s = (fst (m s), s', cs)" using that(3) by (simp add: prod_eq_iff)
    with that(1,2) assms(1) show ?thesis unfolding safe_op_def opens_only_def by blast
  qed
  show ?thesis
    using assms(2)
    by (cases c) (use step [OF safe_recv opens_ops(1)] step [OF safe_send opens_ops(2)] step [OF safe_connect opens_connect]
        step [OF safe_bind_call opens_bind_call] step [OF safe_listen opens_ops(3)] step [OF safe_close opens_close [of "-1"]]
        in \<open>simp_all\<close>)
qed

text \<open>What is left of the open descriptors without an object's own, and its own.\<close>

definition share :: "sock \<Rightarrow> open_fds \<Rightarrow> (int \<times> socket_type) option" where
  "share s op = (if sk_fd s = -1 then None else Some (sk_fd s, the (op (sk_fd s))))"

definition rest_of :: "sock \<Rightarrow> open_fds \<Rightarrow> open_fds" where
  "rest_of s op = (if sk_fd s = -1 then op else op(sk_fd s := None))"

lemma share_of:
  assumes "world_ok ws op" "k < length ws" "s = ws ! k"
  shows "with_share (rest_of s op) (share s op) = op" "apart (rest_of s op) (share s op)" "fits (share s op) s"
proof -
  have "sk_fd s \<noteq> -1 \<Longrightarrow> op (sk_fd s) = Some UNKNOWN \<or> op (sk_fd s) = Some (sk_type s)"
    using assms unfolding world_ok_def by blast
  then show "with_share (rest_of s op) (share s op) = op" "apart (rest_of s op) (share s op)" "fits (share s op) s"
    by (auto simp: with_share_def rest_of_def share_def apart_def fits_def fun_upd_idem)
qed

lemma world_ok_update:
  assumes ok: "world_ok ws op" and k: "k < length ws"
    and s': "apart (rest_of (ws ! k) op) cur" "fits cur s'"
  shows "world_ok (ws[k := s']) (with_share (rest_of (ws ! k) op) cur)"
proof -
  let ?s = "ws ! k" let ?base = "rest_of ?s op" let ?op = "with_share ?base cur" let ?ws = "ws[k := s']"
  have wi: "op (sk_fd (ws ! i)) = Some UNKNOWN \<or> op (sk_fd (ws ! i)) = Some (sk_type (ws ! i))"
      "\<And>j. j < length ws \<Longrightarrow> sk_fd (ws ! j) = sk_fd (ws ! i) \<Longrightarrow> j = i"
    if "i < length ws" "sk_fd (ws ! i) \<noteq> -1" for i
    using ok that unfolding world_ok_def by blast+
  have base: "?base (sk_fd (ws ! i)) = op (sk_fd (ws ! i))" if "i < length ws" "i \<noteq> k" "sk_fd (ws ! i) \<noteq> -1" for i
    using wi(2) [OF that(1,3) k] that(2) by (auto simp: rest_of_def)
  have own: "sk_fd s' \<noteq> -1 \<Longrightarrow> ?base (sk_fd s') = None \<and> (?op (sk_fd s') = Some UNKNOWN \<or> ?op (sk_fd s') = Some (sk_type s'))"
    using s' by (auto simp: fits_def apart_def with_share_def)
  have other: "?op fd = ?base fd" if "fd \<noteq> sk_fd s' \<or> ?base fd \<noteq> None" for fd
    using s' that by (auto simp: fits_def apart_def with_share_def split: if_splits option.splits)
  show ?thesis
    unfolding world_ok_def
  proof (intro conjI allI impI)
    fix i assume i: "i < length ?ws" "sk_fd (?ws ! i) \<noteq> -1"
    show "?op (sk_fd (?ws ! i)) = Some UNKNOWN \<or> ?op (sk_fd (?ws ! i)) = Some (sk_type (?ws ! i))"
    proof (cases "i = k")
      case True
      with own i k show ?thesis by simp
    next
      case False
      then have w: "?ws ! i = ws ! i" "i < length ws" "sk_fd (ws ! i) \<noteq> -1" using i by simp_all
      have ne: "?base (sk_fd (ws ! i)) \<noteq> None" using base [OF w(2) False w(3)] wi(1) [OF w(2,3)] by auto
      then have "?op (sk_fd (ws ! i)) = op (sk_fd (ws ! i))"
        using other [OF disjI2 [OF ne]] base [OF w(2) False w(3)] by simp
      with wi(1) [OF w(2,3)] w(1) show ?thesis by simp
    qed
    fix j assume j: "j < length ?ws" "sk_fd (?ws ! j) = sk_fd (?ws ! i)"
    have no: False if "l < length ws" "l \<noteq> k" "sk_fd (ws ! l) = sk_fd s'" "sk_fd s' \<noteq> -1" for l
      using base [of l] wi(1) [of l] own that by auto
    show "j = i"
    proof (cases "i = k"; cases "j = k")
      assume "i \<noteq> k" "j \<noteq> k"
      with wi(2) [of i j] i j show ?thesis by simp
    next
      assume a: "i = k" "j \<noteq> k"
      with i j k have "j < length ws" "sk_fd (ws ! j) = sk_fd s'" "sk_fd s' \<noteq> -1" by simp_all
      with no [of j] a(2) show ?thesis by blast
    next
      assume a: "i \<noteq> k" "j = k"
      with i j k have "i < length ws" "sk_fd (ws ! i) = sk_fd s'" "sk_fd s' \<noteq> -1" by simp_all
      with no [of i] a(1) show ?thesis by blast
    qed simp
  next
    fix fd assume fd: "?op fd \<noteq> None"
    have "fd \<noteq> -1 \<and> (\<exists>i < length ws. i \<noteq> k \<and> sk_fd (ws ! i) = fd)" if "?base fd \<noteq> None"
    proof -
      from that have f: "op fd \<noteq> None" "fd \<noteq> sk_fd ?s \<or> sk_fd ?s = -1" by (auto simp: rest_of_def split: if_splits)
      from f(1) ok have "fd \<noteq> -1 \<and> (\<exists>i < length ws. sk_fd (ws ! i) = fd)" unfolding world_ok_def by blast
      with f(2) show ?thesis by auto
    qed
    moreover have "fd = sk_fd s' \<and> fd \<noteq> -1" if "?base fd = None"
      using fd that s' other [of fd] by (auto simp: with_share_def fits_def apart_def split: option.splits if_splits)
    ultimately show "fd \<noteq> -1" "\<exists>i < length ?ws. sk_fd (?ws ! i) = fd"
      using k by (cases "?base fd"; auto)+
  qed
qed

text \<open>So much for the use of one object. A new socket, and one that changes hands.\<close>

lemma used_object:
  assumes "world_ok ws op" "k < length ws" "disciplined (share (ws ! k) op) cs = Some cur" "fits cur s'"
    "\<And>fd. Sys_socket fd \<in> set cs \<Longrightarrow> fresh_fd fd ws"
  shows "\<exists>op'. kernel_run (map Sys cs) op = Some op' \<and> world_ok (ws[k := s']) op'"
proof -
  note sh = share_of [OF assms(1,2) refl]
  have closed: "op fd = None" if "fd = -1 \<or> fd \<notin> sk_fd ` set ws" for fd
    using assms(1) that unfolding world_ok_def by (metis image_eqI nth_mem)
  have "rest_of (ws ! k) op fd = None" if "Sys_socket fd \<in> set cs" for fd
    using closed [of fd] assms(5) [OF that] by (auto simp: rest_of_def fresh_fd_def)
  from kernel_disciplined [OF assms(3) sh(2) this] sh(1) world_ok_update [OF assms(1,2) _ assms(4)]
  show ?thesis by auto
qed

lemma world_ok_closed:
  assumes "world_ok ws op" "k < length ws" "sk_fd s' = -1"
  shows "world_ok (ws[k := s']) (rest_of (ws ! k) op)"
  using world_ok_update [OF assms(1,2), of None s'] assms(3) by (simp add: apart_def fits_def with_share_def)

lemma world_ok_given:
  assumes "world_ok ws op" "j < length ws" "sk_fd (ws ! j) = -1" "apart op cur" "fits cur s'"
  shows "world_ok (ws[j := s']) (with_share op cur)"
  using world_ok_update [OF assms(1,2), of cur s'] assms(3-5) by (simp add: rest_of_def)

lemma world_ok_made: "world_ok ws op \<Longrightarrow> world_ok (ws @ [new_sock]) op"
  unfolding world_ok_def by (simp add: new_sock_def nth_append) (metis less_SucI)

lemma world_ok_append:
  assumes "world_ok ws op" "apart op cur" "fits cur s"
  shows "world_ok (ws @ [s]) (with_share op cur)"
  using world_ok_given [OF world_ok_made [OF assms(1)], of "length ws" cur s] assms(2,3) by (simp add: new_sock_def)

lemma world_ok_hand_over:
  assumes "world_ok ws op" "k < length ws" "s = ws ! k" "old = s\<lparr>sk_fd := -1, sk_type := UNKNOWN\<rparr>"
    "sk_fd s' = sk_fd s" "sk_type s' = sk_type s"
  shows "world_ok (ws[k := old] @ [s']) op"
    and "j < length ws \<Longrightarrow> j \<noteq> k \<Longrightarrow> sk_fd (ws ! j) = -1 \<Longrightarrow> world_ok (ws[j := s', k := old]) op"
proof -
  note sh = share_of [OF assms(1-3)]
  have w: "world_ok (ws[k := old]) (rest_of s op)" using world_ok_closed [OF assms(1,2), of old] assms(3,4) by simp
  have f: "fits (share s op) s'" using sh(3) assms(5,6) by (simp add: fits_def)
  show "world_ok (ws[k := old] @ [s']) op" using world_ok_append [OF w sh(2) f] sh(1) by simp
  assume j: "j < length ws" "j \<noteq> k" "sk_fd (ws ! j) = -1"
  then have "world_ok (ws[k := old, j := s']) op" using world_ok_given [OF w _ _ sh(2) f, of j] sh(1) by simp
  with j(2) show "world_ok (ws[j := s', k := old]) op" by (simp add: list_update_swap)
qed

lemma accept_client:
  assumes "sock_accept opened peer s = (Inr c, s', cs)"
  shows "sk_fd c \<noteq> -1 \<and> sk_type c = CLIENT"
  using assms
  by (auto simp: sock_accept_def sbind_def ensure_fd_def ensure_type_def on_fd_def scall_def sthrow_def sreturn_def
      make_sock_def Let_def split: prod.splits if_splits)

lemma world_step_ok:
  assumes ok: "world_ok ws op" and step: "world_step ev ws = Some (ws', es)"
  shows "\<exists>op'. kernel_run es op = Some op' \<and> world_ok ws' op'"
proof (cases ev)
  case Make_Sock
  with step ok world_ok_made show ?thesis by auto
next
  case (Use_Sock k c)
  obtain s cs where s: "sock_step c (ws ! k) = (s, cs)" by fastforce
  with step Use_Sock have k: "k < length ws" "fresh_fd (opened_by c) ws" "ws' = ws[k := s]" "es = map Sys cs"
    by (auto split: if_splits)
  from sock_step_safe [OF share_of(3) [OF ok k(1) refl] s] obtain cur where
    "disciplined (share (ws ! k) op) cs = Some cur" "fits cur s" "\<And>fd. Sys_socket fd \<in> set cs \<Longrightarrow> fresh_fd fd ws"
    using k(2) by blast
  from used_object [OF ok k(1) this] k(3,4) show ?thesis by simp
next
  case (Accept_Sock k opened peer)
  obtain r s cs where s: "sock_accept opened peer (ws ! k) = (r, s, cs)" by (metis prod_cases3)
  with step Accept_Sock have k: "k < length ws" "fresh_fd opened ws" by (auto split: if_splits)
  obtain cur where cur: "disciplined (share (ws ! k) op) cs = Some cur" "fits cur s"
    using safe_accept [of opened peer] share_of(3) [OF ok k(1) refl] s unfolding safe_op_def by blast
  have "fresh_fd fd ws" if "Sys_socket fd \<in> set cs" for fd
    using opens_ops(4) [of opened peer] s that k(2) unfolding opens_only_def by blast
  from used_object [OF ok k(1) cur this] obtain op1 where
    op1: "kernel_run (map Sys cs) op = Some op1" "world_ok (ws[k := s]) op1" by blast
  show ?thesis
  proof (cases r)
    case (Inl e)
    with step Accept_Sock s k op1 show ?thesis by auto
  next
    case (Inr c)
    have c: "sk_fd c \<noteq> -1" "sk_type c = CLIENT" using accept_client s Inr by blast+
    have ev: "ws' = ws[k := s] @ [c]" "es = map Sys cs @ [Accepted (sk_fd c)]" "fresh_fd (sk_fd c) (ws[k := s])"
      using step Accept_Sock s Inr by (auto split: if_splits)
    have none: "op1 (sk_fd c) = None"
      using op1(2) ev(3) c(1) unfolding world_ok_def fresh_fd_def by (metis image_eqI nth_mem)
    then have "world_ok (ws[k := s] @ [c]) (with_share op1 (Some (sk_fd c, CLIENT)))"
      using c by (intro world_ok_append [OF op1(2)]) (simp_all add: apart_def fits_def)
    with op1(1) ev(1,2) none show ?thesis by (simp add: kernel_run_append with_share_def)
  qed
next
  case (Move_Sock k)
  with step have "k < length ws" "ws' = ws[k := snd (move_sock (ws ! k))] @ [fst (move_sock (ws ! k))]" "es = []"
    by (auto simp: case_prod_beta split: if_splits)
  with world_ok_hand_over(1) [OF ok _ refl refl, of k "ws ! k"] show ?thesis by (simp add: move_sock_def)
next
  case (Assign_Sock j k)
  show ?thesis
  proof (cases "j = k")
    case True
    with step Assign_Sock ok show ?thesis by (auto split: if_splits)
  next
    case False
    let ?new = "fst (assign_sock (ws ! j) (ws ! k))"
    have "j < length ws" "k < length ws" "sk_fd (ws ! j) = -1" "es = []"
      "ws' = ws[j := ?new, k := snd (assign_sock (ws ! j) (ws ! k))]"
      using step Assign_Sock False by (auto simp: case_prod_beta split: if_splits)
    moreover have "world_ok (ws[j := ?new, k := (ws ! k)\<lparr>sk_fd := -1, sk_type := UNKNOWN\<rparr>]) op"
      by (rule world_ok_hand_over(2) [OF ok _ refl refl]) (use calculation False in \<open>simp_all add: assign_sock_def\<close>)
    ultimately show ?thesis by (simp add: assign_sock_def)
  qed
qed

lemma world_run_ok:
  "world_ok ws op \<Longrightarrow> world_run evs ws = Some (ws', es) \<Longrightarrow> \<exists>op'. kernel_run es op = Some op' \<and> world_ok ws' op'"
proof (induction evs arbitrary: ws op es)
  case (Cons ev evs)
  obtain ws1 es1 es2 where s: "world_step ev ws = Some (ws1, es1)" "world_run evs ws1 = Some (ws', es2)" "es = es1 @ es2"
    using Cons.prems(2) by (auto split: option.splits)
  obtain op1 where "kernel_run es1 op = Some op1" "world_ok ws1 op1" using world_step_ok [OF Cons.prems(1) s(1)] by blast
  with Cons.IH [OF _ s(2)] s(3) show ?case by (simp add: kernel_run_append)
qed auto

text \<open>
  C39: However a program makes sockets, calls their operations, accepts clients, moves sockets and
  assigns them, whatever the system answers and wherever exceptions are
  thrown, its calls respect the discipline: no call on a closed descriptor, no
  descriptor used both as a client and as a server, every close of an open one. No descriptor
  is lost: each open one belongs to one socket object, which can still close it, and to no other.
  Excepted are an assignment to a socket that has a descriptor of its own, which is then lost
  (\<open>assignment_loses_descriptor\<close>), the destruction of a socket with an open one, and changes of the
  fields from outside.
\<close>

theorem descriptors_disciplined:
  assumes "world_run evs [] = Some (ws, es)"
  shows "\<exists>op. kernel_run es (\<lambda>_. None) = Some op
    \<and> (\<forall>fd. op fd \<noteq> None \<longrightarrow> (\<exists>!i. i < length ws \<and> sk_fd (ws ! i) = fd))
    \<and> (\<forall>s \<in> set ws. sk_fd s \<noteq> -1 \<longrightarrow> op (sk_fd s) = Some UNKNOWN \<or> op (sk_fd s) = Some (sk_type s))"
proof -
  have "world_ok [] (\<lambda>_. None)" by (simp add: world_ok_def)
  from world_run_ok [OF this assms] obtain op where op: "kernel_run es (\<lambda>_. None) = Some op" "world_ok ws op" by blast
  have "\<exists>!i. i < length ws \<and> sk_fd (ws ! i) = fd" if "op fd \<noteq> None" for fd
  proof -
    have "fd \<noteq> -1 \<and> (\<exists>i < length ws. sk_fd (ws ! i) = fd)" using op(2) that unfolding world_ok_def by blast
    then obtain i where i: "i < length ws" "sk_fd (ws ! i) = fd" "fd \<noteq> -1" by blast
    then have "\<forall>j < length ws. sk_fd (ws ! j) = fd \<longrightarrow> j = i" using op(2) unfolding world_ok_def by blast
    with i show ?thesis by blast
  qed
  moreover have "\<forall>s \<in> set ws. sk_fd s \<noteq> -1 \<longrightarrow> op (sk_fd s) = Some UNKNOWN \<or> op (sk_fd s) = Some (sk_type s)"
  proof
    fix s assume "s \<in> set ws"
    then obtain i where "i < length ws" "s = ws ! i" by (auto simp: in_set_conv_nth)
    with op(2) show "sk_fd s \<noteq> -1 \<longrightarrow> op (sk_fd s) = Some UNKNOWN \<or> op (sk_fd s) = Some (sk_type s)"
      unfolding world_ok_def by blast
  qed
  ultimately show ?thesis using op(1) by blast
qed

theorem descriptors_disciplined_witness:
  "\<exists>ws es op. world_run [Make_Sock, Use_Sock 0 (Call_listen 3 True 5), Accept_Sock 0 (-1) (4, ''h'', 80),
        Make_Sock, Assign_Sock 2 1, Use_Sock 2 (Call_send (-1) [Send_Failed] ''x''), Use_Sock 2 Call_close] [] = Some (ws, es)
     \<and> kernel_run es (\<lambda>_. None) = Some op \<and> (\<exists>!i. i < length ws \<and> sk_fd (ws ! i) = 3)"
proof -
  let ?evs = "[Make_Sock, Use_Sock 0 (Call_listen 3 True 5), Accept_Sock 0 (-1) (4, ''h'', 80),
        Make_Sock, Assign_Sock 2 1, Use_Sock 2 (Call_send (-1) [Send_Failed] ''x''), Use_Sock 2 Call_close]"
  have "world_run ?evs [] \<noteq> None \<and> map sk_fd (fst (the (world_run ?evs []))) = [3, -1, -1]" by code_simp
  then obtain ws es where run: "world_run ?evs [] = Some (ws, es)" "map sk_fd ws = [3, -1, -1]" by auto
  obtain op where op: "kernel_run es (\<lambda>_. None) = Some op"
    "\<forall>s \<in> set ws. sk_fd s \<noteq> -1 \<longrightarrow> op (sk_fd s) = Some UNKNOWN \<or> op (sk_fd s) = Some (sk_type s)"
    "\<forall>fd. op fd \<noteq> None \<longrightarrow> (\<exists>!i. i < length ws \<and> sk_fd (ws ! i) = fd)"
    using descriptors_disciplined [OF run(1)] by blast
  from run(2) obtain s where "s \<in> set ws" "sk_fd s = 3" by (cases ws) auto
  with op(2) have "op 3 \<noteq> None" by force
  with op(3) have "\<exists>!i. i < length ws \<and> sk_fd (ws ! i) = 3" by blast
  with run(1) op(1) show ?thesis by blast
qed

text \<open>An assignment to a socket that has a descriptor: nobody can close it any more.\<close>

theorem assignment_loses_descriptor:
  assumes "world_ok ws op" "j < length ws" "k < length ws" "j \<noteq> k" "sk_fd (ws ! j) \<noteq> -1"
    "assign_sock (ws ! j) (ws ! k) = (s, old)"
  shows "op (sk_fd (ws ! j)) \<noteq> None \<and> sk_fd (ws ! j) \<notin> sk_fd ` set (ws[j := s, k := old])"
proof -
  have ok: "op (sk_fd (ws ! j)) = Some UNKNOWN \<or> op (sk_fd (ws ! j)) = Some (sk_type (ws ! j))"
    "\<And>i. i < length ws \<Longrightarrow> sk_fd (ws ! i) = sk_fd (ws ! j) \<Longrightarrow> i = j"
    using assms(1,2,5) unfolding world_ok_def by blast+
  have no: "sk_fd (ws[j := s, k := old] ! i) \<noteq> sk_fd (ws ! j)" if "i < length ws" for i
    using ok(2) [of i] ok(2) [of k] that assms(2-6) by (auto simp: assign_sock_def nth_list_update)
  have "sk_fd (ws ! j) \<notin> sk_fd ` set (ws[j := s, k := old])"
  proof
    assume "sk_fd (ws ! j) \<in> sk_fd ` set (ws[j := s, k := old])"
    then obtain x where x: "x \<in> set (ws[j := s, k := old])" "sk_fd x = sk_fd (ws ! j)" by auto
    then obtain i where "i < length ws" "x = ws[j := s, k := old] ! i" unfolding in_set_conv_nth by auto
    with no [of i] x(2) show False by blast
  qed
  with ok(1) show ?thesis by auto
qed

theorem assignment_loses_descriptor_witness:
  "5 \<notin> sk_fd ` set ([make_sock 5 [] 0 CLIENT, make_sock 6 [] 0 CLIENT]
       [0 := fst (assign_sock (make_sock 5 [] 0 CLIENT) (make_sock 6 [] 0 CLIENT)),
        1 := snd (assign_sock (make_sock 5 [] 0 CLIENT) (make_sock 6 [] 0 CLIENT))])"
proof -
  let ?ws = "[make_sock 5 [] 0 CLIENT, make_sock 6 [] 0 CLIENT]"
  have "world_ok ?ws [5 \<mapsto> CLIENT, 6 \<mapsto> CLIENT]" by (auto simp: world_ok_def make_sock_def less_Suc_eq nth_Cons')
  from assignment_loses_descriptor [OF this, of 0 1 "fst (assign_sock (?ws ! 0) (?ws ! 1))" "snd (assign_sock (?ws ! 0) (?ws ! 1))"]
  show ?thesis by (simp add: make_sock_def)
qed

section \<open>What is sent\<close>

definition sent_bytes :: "syscall list \<Rightarrow> string" where
  "sent_bytes cs = concat (map (\<lambda>c. case c of Sys_send _ dat \<Rightarrow> dat | _ \<Rightarrow> []) cs)"

lemma send_loop_sends:
  "sock_send_loop outcomes dat s = (r, s', cs) \<Longrightarrow>
     case r of Inr _ \<Rightarrow> sent_bytes cs = dat | Inl _ \<Rightarrow> \<exists>rest. dat = sent_bytes cs @ rest"
proof (induction outcomes dat arbitrary: s r cs rule: sock_send_loop.induct)
  case (3 n outcomes c data)
  from "3.prems" obtain ds where ds: "sock_send_loop outcomes (drop n (c # data)) s = (r, s', ds)"
    "cs = Sys_send (sk_fd s) (take n (c # data)) # ds"
    by (auto simp: sbind_def on_fd_def scall_def split: prod.splits)
  from "3.IH" [OF ds(1)] show ?case
    by (cases r) (auto simp: sent_bytes_def ds(2), metis append.assoc append_take_drop_id)
next
  case (4 outcomes c data)
  from "4.prems" obtain ds where ds: "sock_send_loop outcomes (c # data) s = (r, s', ds)"
    "cs = Sys_send (sk_fd s) [] # ds"
    by (auto simp: sbind_def on_fd_def scall_def split: prod.splits)
  from "4.IH" [OF ds(1)] show ?case by (cases r) (auto simp: sent_bytes_def ds(2))
qed (auto simp: sbind_def on_fd_def scall_def sreturn_def sthrow_def sent_bytes_def)

end
