(* ===== verification/Echo.thy ===== *)
theory Echo
  imports Tcp_Net "HOL-Library.Sublist"
begin

text \<open>
  The two example programs of the network library, \<^verbatim>\<open>Lab3/src/tcp_server/tcp_echo_server.cpp\<close>
  and \<^verbatim>\<open>tcp_echo_client.cpp\<close>, joined by a connection: two queues of bytes. Each program binds
  one read callback and one write callback, so the type parameters of \<open>net\<close> are \<open>unit\<close>.
\<close>

type_synonym echo_net = "(unit, unit) net"

section \<open>The server\<close>

text \<open>Both \<^verbatim>\<open>catch\<close> clauses ignore that the client is gone.\<close>

definition on_echo_completetion :: "nat \<Rightarrow> nat option \<Rightarrow> echo_net \<Rightarrow> echo_net" where
  "on_echo_completetion h result n =
     (case result of
        None \<Rightarrow> n
      | Some _ \<Rightarrow> (case async_read h (1024, ()) n of Inl _ \<Rightarrow> n | Inr n' \<Rightarrow> n'))"

definition echo :: "nat \<Rightarrow> string option \<Rightarrow> echo_net \<Rightarrow> echo_net" where
  "echo h result n =
     (case result of
        None \<Rightarrow> n
      | Some dat \<Rightarrow> (case async_write h (dat, ()) n of Inl _ \<Rightarrow> n | Inr n' \<Rightarrow> n'))"

text \<open>What \<^verbatim>\<open>main\<close> passes to \<^verbatim>\<open>server.start\<close>, and the server's loop: the reactor runs the callbacks.\<close>

definition new_echo_client :: "nat \<Rightarrow> echo_net \<Rightarrow> echo_net" where
  "new_echo_client h n = (case async_read h (1024, ()) n of Inl _ \<Rightarrow> n | Inr n' \<Rightarrow> n')"

definition echo_readable :: "nat \<Rightarrow> (nat \<Rightarrow> string option) \<Rightarrow> bool \<Rightarrow> echo_net \<Rightarrow> echo_net" where
  "echo_readable h rcv junk n =
     (case on_read_available h rcv junk n of
        (None, n1) \<Rightarrow> n1
      | (Some (_, result), n1) \<Rightarrow> echo h result n1)"

definition echo_writable :: "nat \<Rightarrow> (string \<Rightarrow> bool) \<Rightarrow> bool \<Rightarrow> echo_net \<Rightarrow> echo_net" where
  "echo_writable h snd_ok junk n =
     (case on_write_available h snd_ok junk n of
        (None, n1) \<Rightarrow> n1
      | (Some (_, result), n1) \<Rightarrow> on_echo_completetion h result n1)"

section \<open>The client\<close>

definition on_write_completion :: "nat \<Rightarrow> nat option \<Rightarrow> echo_net \<Rightarrow> echo_net" where
  "on_write_completion h result n =
     (case result of
        None \<Rightarrow> n
      | Some sz \<Rightarrow> (case async_read h (sz, ()) n of Inl _ \<Rightarrow> n | Inr n' \<Rightarrow> n'))"

definition echo_lines :: "string list" where
  "echo_lines = [''some random string 1.'', ''complete garbled'', ''season system developer'']"

text \<open>
  One round of the loop of \<^verbatim>\<open>batch_client\<close>: \<open>conn\<close> is the descriptor \<^verbatim>\<open>connect\<close> opens, or its
  exception, which the loop counts.
\<close>

definition echo_connect :: "nat \<Rightarrow> nat result \<Rightarrow> echo_net \<Rightarrow> echo_net result" where
  "echo_connect h conn n =
     res_bind (client_connect h conn n)
       (fold (\<lambda>line m. res_bind m (async_write h (line, ()))) echo_lines \<circ> Inr)"

fun batch_client :: "(nat \<times> nat result) list \<Rightarrow> nat list \<times> nat \<Rightarrow> echo_net \<Rightarrow> (nat list \<times> nat) \<times> echo_net" where
  "batch_client [] (clients, count) n = ((clients, count), n)"
| "batch_client ((h, conn) # rest) (clients, count) n =
     (case echo_connect h conn n of
        Inl _ \<Rightarrow> batch_client rest (clients, count + 1) n
      | Inr n1 \<Rightarrow> batch_client rest (clients @ [h], count) n1)"

definition client_reads :: "nat \<Rightarrow> (nat \<Rightarrow> string option) \<Rightarrow> bool \<Rightarrow> echo_net \<Rightarrow> echo_net" where
  "client_reads h rcv junk n = snd (on_read_available h rcv junk n)"

definition client_writes :: "nat \<Rightarrow> (string \<Rightarrow> bool) \<Rightarrow> bool \<Rightarrow> echo_net \<Rightarrow> echo_net" where
  "client_writes h snd_ok junk n =
     (case on_write_available h snd_ok junk n of
        (None, n1) \<Rightarrow> n1
      | (Some (_, result), n1) \<Rightarrow> on_write_completion h result n1)"

section \<open>A client and the server\<close>

text \<open>
  \<open>e_up\<close> and \<open>e_down\<close> are the bytes under way in the two directions, \<open>e_sent\<close> and \<open>e_got\<close> what
  the client's socket has taken and delivered so far. The two programs have a reactor each;
  \<open>c\<close> and \<open>d\<close> are the handles of the connection in the server and in the client.
\<close>

record echo_system =
  e_server :: echo_net
  e_client :: echo_net
  e_up :: string
  e_down :: string
  e_sent :: string
  e_got :: string

text \<open>
  A socket delivers some of the bytes that have arrived, at least one and at most the number
  asked for; it takes a whole line or fails. A failed call ends the connection.
\<close>

definition delivers :: "string \<Rightarrow> nat \<Rightarrow> nat \<Rightarrow> string option" where
  "delivers s k len = (if s = [] \<or> k = 0 \<or> len = 0 then None else Some (take (min k len) s))"

definition first_read :: "nat \<Rightarrow> echo_net \<Rightarrow> nat option" where
  "first_read h n = (case tc_reads (n_clients n h) of [] \<Rightarrow> None | (len, _) # _ \<Rightarrow> Some len)"

definition first_write :: "nat \<Rightarrow> echo_net \<Rightarrow> string option" where
  "first_write h n = (case tc_writes (n_clients n h) of [] \<Rightarrow> None | (dat, _) # _ \<Rightarrow> Some dat)"

definition read_from :: "string \<Rightarrow> nat \<Rightarrow> nat \<Rightarrow> echo_net \<Rightarrow> string" where
  "read_from s k h n =
     (case first_read h n of None \<Rightarrow> [] | Some len \<Rightarrow> (case delivers s k len of None \<Rightarrow> [] | Some dat \<Rightarrow> dat))"

definition written :: "bool \<Rightarrow> nat \<Rightarrow> echo_net \<Rightarrow> string" where
  "written ok h n = (case first_write h n of None \<Rightarrow> [] | Some dat \<Rightarrow> if ok then dat else [])"

text \<open>The reactors run the callbacks at any time, also when the request is gone that they were set for.\<close>

inductive echo_step :: "nat \<Rightarrow> nat \<Rightarrow> echo_system \<Rightarrow> echo_system \<Rightarrow> bool" for c d where
  server_reads:
     "echo_step c d s (s\<lparr>e_server := echo_readable c (delivers (e_up s) k) junk (e_server s),
       e_up := drop (length (read_from (e_up s) k c (e_server s))) (e_up s)\<rparr>)"
| server_writes:
     "echo_step c d s (s\<lparr>e_server := echo_writable c (\<lambda>_. ok) junk (e_server s),
       e_down := e_down s @ written ok c (e_server s)\<rparr>)"
| client_reads:
     "echo_step c d s (s\<lparr>e_client := client_reads d (delivers (e_down s) k) junk (e_client s),
       e_down := drop (length (read_from (e_down s) k d (e_client s))) (e_down s),
       e_got := e_got s @ read_from (e_down s) k d (e_client s)\<rparr>)"
| client_writes:
     "echo_step c d s (s\<lparr>e_client := client_writes d (\<lambda>_. ok) junk (e_client s),
       e_up := e_up s @ written ok d (e_client s), e_sent := e_sent s @ written ok d (e_client s)\<rparr>)"

section \<open>The bytes of a connection\<close>

definition echoing :: "nat \<Rightarrow> echo_net \<Rightarrow> bool" where
  "echoing c n \<longleftrightarrow>
     tc_connected (n_clients n c)
     \<and> (tc_reads (n_clients n c) = [(1024, ())] \<and> tc_writes (n_clients n c) = []
        \<or> tc_reads (n_clients n c) = [] \<and> (\<exists>dat. tc_writes (n_clients n c) = [(dat, ())]))"

definition gone :: "nat \<Rightarrow> echo_net \<Rightarrow> bool" where
  "gone c n \<longleftrightarrow>
     \<not> tc_connected (n_clients n c) \<and> tc_reads (n_clients n c) = [] \<and> tc_writes (n_clients n c) = []"

definition unsent :: "nat \<Rightarrow> echo_net \<Rightarrow> string" where
  "unsent h n = concat (map fst (tc_writes (n_clients n h)))"

lemma disconnect_gone: "tc_connected (n_clients n h) \<Longrightarrow> gone h (disconnect h n)"
  by (simp add: gone_def disconnect_def on_client_disconnect_def Let_def)

lemma disconnect_again: "\<not> tc_connected (n_clients n h) \<Longrightarrow> disconnect h n = n"
  by (simp add: disconnect_def)

lemmas io_defs = do_read_def do_write_def async_read_def async_write_def on_read_available_def
  on_write_available_def first_read_def first_write_def read_from_def written_def unsent_def Let_def

lemma read_from_arrived: "s = read_from s k h n @ drop (length (read_from s k h n)) s"
  by (auto simp: read_from_def delivers_def min_def split: option.splits)

text \<open>A callback of the server ends the connection or moves bytes from one place to the next.\<close>

lemma server_read:
  assumes "echoing c n" "n' = echo_readable c (delivers up k) junk n"
  shows "gone c n' \<or> echoing c n' \<and> unsent c n' = unsent c n @ read_from up k c n"
  using assms
  by (auto simp: echoing_def echo_readable_def echo_def io_defs disconnect_again disconnect_gone
      split: option.splits if_splits prod.splits)

lemma server_write:
  assumes "echoing c n" "n' = echo_writable c (\<lambda>_. ok) junk n"
  shows "gone c n' \<and> written ok c n = [] \<or> echoing c n' \<and> unsent c n = written ok c n @ unsent c n'"
  using assms
  by (auto simp: echoing_def echo_writable_def on_echo_completetion_def io_defs disconnect_again
      disconnect_gone split: option.splits if_splits prod.splits)

lemma server_gone:
  assumes "gone c n"
  shows "gone c (echo_readable c rcv junk n)" "gone c (echo_writable c snd_ok junk n)" "written ok c n = []"
  using assms
  by (auto simp: gone_def echo_readable_def echo_writable_def echo_def on_echo_completetion_def io_defs
      disconnect_again split: option.splits)

text \<open>So do those of the client.\<close>

lemma client_read:
  assumes "tc_connected (n_clients n d)" "n' = client_reads d rcv junk n"
  shows "gone d n' \<or> tc_connected (n_clients n' d) \<and> unsent d n' = unsent d n"
  using assms
  by (auto simp: client_reads_def io_defs disconnect_gone split: list.splits option.splits if_splits prod.splits)

lemma client_write:
  assumes "tc_connected (n_clients n d)" "n' = client_writes d (\<lambda>_. ok) junk n"
  shows "gone d n' \<and> written ok d n = []
    \<or> tc_connected (n_clients n' d) \<and> unsent d n = written ok d n @ unsent d n'"
  using assms
  by (auto simp: client_writes_def on_write_completion_def io_defs disconnect_gone disconnect_again
      split: list.splits option.splits if_splits prod.splits sum.splits)

lemma client_gone:
  assumes "gone d n"
  shows "gone d (client_reads d rcv junk n)" "gone d (client_writes d snd_ok junk n)" "written ok d n = []"
    "read_from s k d n = []"
  using assms
  by (auto simp: gone_def client_reads_def client_writes_def on_write_completion_def io_defs
      disconnect_again split: option.splits)

text \<open>
  While the server keeps the connection, every byte the client has sent is in one of four
  places, in order.
\<close>

definition conserved :: "nat \<Rightarrow> echo_system \<Rightarrow> bool" where
  "conserved c s \<longleftrightarrow>
     echoing c (e_server s) \<and> e_sent s = e_got s @ e_down s @ unsent c (e_server s) @ e_up s
     \<or> gone c (e_server s) \<and> prefix (e_got s @ e_down s) (e_sent s)"

definition sends_lines :: "nat \<Rightarrow> echo_system \<Rightarrow> bool" where
  "sends_lines d s \<longleftrightarrow>
     tc_connected (n_clients (e_client s) d) \<and> e_sent s @ unsent d (e_client s) = concat echo_lines
     \<or> gone d (e_client s) \<and> prefix (e_sent s) (concat echo_lines)"

lemma conserved_step:
  assumes "echo_step c d s s'" "conserved c s"
  shows "conserved c s'"
  using assms
proof cases
  case (server_reads k junk)
  let ?r = "read_from (e_up s) k c (e_server s)"
  have up: "e_up s = ?r @ drop (length ?r) (e_up s)" by (rule read_from_arrived)
  from assms(2) show ?thesis unfolding conserved_def
  proof
    assume a: "echoing c (e_server s) \<and> e_sent s = e_got s @ e_down s @ unsent c (e_server s) @ e_up s"
    then have "prefix (e_got s @ e_down s) (e_sent s)" by simp
    moreover have "e_sent s = e_got s @ e_down s @ (unsent c (e_server s) @ ?r) @ drop (length ?r) (e_up s)"
      using a up by simp
    ultimately show "echoing c (e_server s') \<and> e_sent s' = e_got s' @ e_down s' @ unsent c (e_server s') @ e_up s'
        \<or> gone c (e_server s') \<and> prefix (e_got s' @ e_down s') (e_sent s')"
      using server_read [OF conjunct1 [OF a] refl, of "e_up s" k junk] server_reads by auto
  qed (use server_reads server_gone in auto)
next
  case (server_writes ok junk)
  from assms(2) show ?thesis unfolding conserved_def
  proof
    assume a: "echoing c (e_server s) \<and> e_sent s = e_got s @ e_down s @ unsent c (e_server s) @ e_up s"
    then show "echoing c (e_server s') \<and> e_sent s' = e_got s' @ e_down s' @ unsent c (e_server s') @ e_up s'
        \<or> gone c (e_server s') \<and> prefix (e_got s' @ e_down s') (e_sent s')"
      using server_write [OF conjunct1 [OF a] refl, of ok junk] server_writes by auto
  qed (use server_writes server_gone in auto)
next
  case (client_reads k junk)
  have "e_down s = read_from (e_down s) k d (e_client s) @ drop (length (read_from (e_down s) k d (e_client s))) (e_down s)"
    by (rule read_from_arrived)
  with assms(2) client_reads show ?thesis by (auto simp: conserved_def)
next
  case (client_writes ok junk)
  with assms(2) show ?thesis by (auto simp: conserved_def)
qed

lemma sends_lines_prefix: "sends_lines d s \<Longrightarrow> prefix (e_sent s) (concat echo_lines)"
  by (auto simp: sends_lines_def intro: prefixI [OF sym])

lemma sends_lines_step:
  assumes "echo_step c d s s'" "sends_lines d s"
  shows "sends_lines d s'"
proof -
  note sent = sends_lines_prefix [OF assms(2)]
  from assms(1) show ?thesis
  proof cases
    case (client_reads k junk)
    with assms(2) sent client_read [of "e_client s" d, OF _ refl, of "delivers (e_down s) k" junk] client_gone
    show ?thesis by (auto simp: sends_lines_def)
  next
    case (client_writes ok junk)
    with assms(2) sent client_write [of "e_client s" d, OF _ refl, of ok junk] client_gone
    show ?thesis by (auto simp: sends_lines_def)
  qed (use assms(2) in \<open>simp_all add: sends_lines_def\<close>)
qed

lemma echo_invariants:
  assumes "(echo_step c d)\<^sup>*\<^sup>* s s'" "conserved c s" "sends_lines d s"
  shows "conserved c s' \<and> sends_lines d s'"
  using assms by (induction rule: rtranclp_induct) (auto dest: conserved_step sends_lines_step)

text \<open>The server has accepted the connection, and the client has queued its lines.\<close>

definition echo_start :: "echo_net \<Rightarrow> echo_net \<Rightarrow> echo_system" where
  "echo_start srv cl = \<lparr>e_server = srv, e_client = cl, e_up = [], e_down = [], e_sent = [], e_got = []\<rparr>"

lemma accepted_echoing:
  "echoing c (server_accept new_echo_client c (Some fd) n)"
  "unsent c (server_accept new_echo_client c (Some fd) n) = []"
  by (simp_all add: server_accept_def new_echo_client_def async_read_def new_client_def echoing_def
      unsent_def Let_def)

lemma connected_sends:
  assumes "armed_exact d n" "echo_connect d conn n = Inr cl"
  shows "tc_connected (n_clients cl d) \<and> unsent d cl = concat echo_lines"
  using assms
  by (auto simp: echo_connect_def client_connect_def echo_lines_def async_write_def unsent_def armed_exact_def
      Let_def split: sum.splits if_splits)

section \<open>Properties\<close>

text \<open>C26: the echo programs return to a client what it has sent: however the lines are cut into
  pieces, whichever calls fail and in whatever order the callbacks run, what the client has
  received is the beginning of its three lines, and all of them once no byte is under way on
  a connection both ends have kept.\<close>

theorem echo_returns_lines:
  assumes "armed_exact d n" "echo_connect d conn n = Inr cl"
    "(echo_step c d)\<^sup>*\<^sup>* (echo_start (server_accept new_echo_client c (Some fd) srv) cl) s"
  shows "prefix (e_got s) (concat echo_lines)
    \<and> (tc_connected (n_clients (e_server s) c) \<and> tc_connected (n_clients (e_client s) d)
       \<and> unsent c (e_server s) = [] \<and> unsent d (e_client s) = [] \<and> e_up s = [] \<and> e_down s = []
       \<longrightarrow> e_got s = concat echo_lines)"
proof -
  let ?s0 = "echo_start (server_accept new_echo_client c (Some fd) srv) cl"
  have "conserved c ?s0" by (simp add: conserved_def echo_start_def accepted_echoing)
  moreover have "sends_lines d ?s0"
    using connected_sends [OF assms(1,2)] by (simp add: sends_lines_def echo_start_def)
  ultimately have inv: "conserved c s" "sends_lines d s" using echo_invariants [OF assms(3)] by simp_all
  have "prefix (e_got s) (e_sent s)" using inv(1) by (auto simp: conserved_def prefix_def)
  moreover note sends_lines_prefix [OF inv(2)]
  ultimately show ?thesis
    using inv by (auto simp: conserved_def sends_lines_def gone_def intro: prefix_order.trans)
qed

definition sample_echo_net :: echo_net where
  "sample_echo_net =
     \<lparr>n_reactor = new_reactor sample_pipe 2, n_clients = (\<lambda>_. (new_client 5)\<lparr>tc_connected := False\<rparr>),
      n_running = True, n_server_fd = 4, n_server_clients = []\<rparr>"

theorem echo_returns_lines_witness:
  "\<exists>cl s. echo_connect 0 (Inr 6) sample_echo_net = Inr cl
     \<and> (echo_step 0 0)\<^sup>*\<^sup>* (echo_start (server_accept new_echo_client 0 (Some 7) sample_echo_net) cl) s
     \<and> e_up s = ''some random string 1.'' \<and> prefix (e_got s) (concat echo_lines)"
proof -
  have armed: "armed_exact 0 sample_echo_net" by (simp add: armed_exact_def sample_echo_net_def new_client_def)
  obtain cl where cl: "echo_connect 0 (Inr 6) sample_echo_net = Inr cl"
      "first_write 0 cl = Some ''some random string 1.''"
    by (simp add: echo_connect_def client_connect_def echo_lines_def async_write_def first_write_def
        sample_echo_net_def new_client_def Let_def)
  let ?s = "echo_start (server_accept new_echo_client 0 (Some 7) sample_echo_net) cl"
  obtain s where s: "echo_step 0 0 ?s s" "e_up s = ''some random string 1.''"
    using client_writes [of 0 0 ?s True True] cl(2) by (auto simp: echo_start_def written_def)
  have run: "(echo_step 0 0)\<^sup>*\<^sup>* ?s s" using s(1) by simp
  from echo_returns_lines [OF armed cl(1) run] cl(1) run s(2) show ?thesis by blast
qed

end
