(* ===== verification/Sudoku.thy ===== *)
theory Sudoku
  imports Cpp_Prelude
begin

text \<open>
  The sudoku program of Lab1. The first section is \<^verbatim>\<open>sudoku_basic.h\<close>: the safety test, the
  search for the first empty cell and the backtracking solver, which returns the board it
  leaves behind beside its verdict. It is followed by the specification of a solution and
  the proof that the solver decides it. Then come the textual boards of \<^verbatim>\<open>main.cc\<close>.
\<close>

section \<open>The solver\<close>

text \<open>An \<^verbatim>\<open>int board[DIM][DIM]\<close>: the cell in row \<open>r\<close> and column \<open>c\<close> is \<open>b r c\<close>.\<close>

type_synonym board = "nat \<Rightarrow> nat \<Rightarrow> int"

definition DIM :: nat where
  "DIM = 9"

definition set_cell :: "board \<Rightarrow> nat \<Rightarrow> nat \<Rightarrow> int \<Rightarrow> board" where
  "set_cell b r c v = b(r := (b r)(c := v))"

text \<open>Row and column of every cell in the order the nested loops visit them.\<close>

definition cells :: "nat \<Rightarrow> (nat \<times> nat) list" where
  "cells n = concat (map (\<lambda>r. map (\<lambda>c. (r, c)) [0..<n]) [0..<n])"

definition is_safe :: "board \<Rightarrow> nat \<Rightarrow> nat \<Rightarrow> int \<Rightarrow> bool" where
  "is_safe b r c v =
     (if list_ex (\<lambda>col. b r col = v) [0..<DIM] then False
      else if list_ex (\<lambda>row. b row c = v) [0..<DIM] then False
      else
        let box_start_r = r - r mod 3;
            box_start_c = c - c mod 3
        in \<not> list_ex (\<lambda>(row, col). b (row + box_start_r) (col + box_start_c) = v) (cells 3))"

definition get_unassigned_location :: "board \<Rightarrow> nat \<times> nat" where
  "get_unassigned_location b =
     (case find (\<lambda>(row, col). b row col = 0) (cells DIM) of
        Some p \<Rightarrow> p
      | None \<Rightarrow> (9, 9))"

lemma set_cells: "set (cells n) = {(r, c). r < n \<and> c < n}"
  by (auto simp: cells_def)

lemma set_cell_apply:
  "set_cell b r c v r' c' = (if r' = r \<and> c' = c then v else b r' c')"
  by (simp add: set_cell_def)

lemma set_cell_twice [simp]: "set_cell (set_cell b r c v) r c w = set_cell b r c w"
  by (simp add: set_cell_def)

lemma set_cell_same: "b r c = v \<Longrightarrow> set_cell b r c v = b"
  by (intro ext) (simp add: set_cell_apply)

lemma find_cells_None:
  "find P (cells n) = None \<longleftrightarrow> (\<forall>r < n. \<forall>c < n. \<not> P (r, c))"
  by (auto simp: find_None_iff set_cells)

lemma find_SomeD: "find P xs = Some x \<Longrightarrow> x \<in> set xs \<and> P x"
  by (induction xs) (auto split: if_splits)

lemma find_cells_Some:
  "find P (cells n) = Some (r, c) \<Longrightarrow> r < n \<and> c < n \<and> P (r, c)"
  using find_SomeD [of P "cells n"] by (simp add: set_cells)

lemma unassigned_None:
  "get_unassigned_location b = (9, 9) \<longleftrightarrow> (\<forall>r < 9. \<forall>c < 9. b r c \<noteq> 0)"
proof (cases "find (\<lambda>(row, col). b row col = 0) (cells DIM)")
  case None
  then have "\<forall>r < 9. \<forall>c < 9. b r c \<noteq> 0" by (simp add: find_cells_None DIM_def)
  with None show ?thesis by (simp add: get_unassigned_location_def)
next
  case (Some p)
  obtain r c where p: "p = (r, c)" by (cases p)
  with find_cells_Some Some have "r < DIM \<and> c < DIM \<and> b r c = 0" by fastforce
  with Some p show ?thesis by (auto simp: get_unassigned_location_def DIM_def)
qed

lemma unassigned_Some:
  assumes "get_unassigned_location b = (r, c)" "(r, c) \<noteq> (9, 9)"
  shows "r < 9" "c < 9" "b r c = 0"
proof -
  from assms have "find (\<lambda>(row, col). b row col = 0) (cells DIM) = Some (r, c)"
    by (auto simp: get_unassigned_location_def split: option.splits)
  from find_cells_Some [OF this] show "r < 9" "c < 9" "b r c = 0" by (simp_all add: DIM_def)
qed

text \<open>
  \<open>solve_sudoku_basic\<close> and the loop over the candidate values it contains. The loop writes a
  value into the cell, recurses, and resets the cell when the recursion fails, whatever the
  recursion has left on the board. The number of empty cells bounds the recursion; that the
  loop comes back to a board with as many empty cells holds because a failing call restores
  the board, which is proved on the domain predicate first.
\<close>

function (domintros) solve_sudoku_basic :: "board \<Rightarrow> bool \<times> board"
  and try_values :: "nat \<Rightarrow> nat \<Rightarrow> int list \<Rightarrow> board \<Rightarrow> bool \<times> board" where
  "solve_sudoku_basic b =
     (if (9, 9) = get_unassigned_location b then (True, b)
      else case get_unassigned_location b of
             (row, col) \<Rightarrow> try_values row col [1, 2, 3, 4, 5, 6, 7, 8, 9] b)"
| "try_values row col [] b = (False, b)"
| "try_values row col (v # vs) b =
     (if is_safe b row col v then
        case solve_sudoku_basic (set_cell b row col v) of
          (True, b') \<Rightarrow> (True, b')
        | (False, b') \<Rightarrow> try_values row col vs (set_cell b' row col 0)
      else try_values row col vs b)"
  by pat_completeness auto

lemma failing_restores_dom:
  "solve_sudoku_basic_try_values_dom (Inl b) \<Longrightarrow>
     solve_sudoku_basic b = (False, b') \<Longrightarrow> b' = b"
  "solve_sudoku_basic_try_values_dom (Inr (row, col, vs, d)) \<Longrightarrow>
     d row col = 0 \<Longrightarrow> try_values row col vs d = (False, d') \<Longrightarrow> d' = d"
proof (induction arbitrary: b' and d' rule: solve_sudoku_basic_try_values.pinduct)
  case (1 b)
  obtain r c where rc: "get_unassigned_location b = (r, c)" by (cases "get_unassigned_location b")
  with 1 have "(r, c) \<noteq> (9, 9)" by (auto simp: solve_sudoku_basic.psimps)
  with 1 rc unassigned_Some [OF rc] show ?case by (auto simp: solve_sudoku_basic.psimps)
next
  case (2 row col b)
  then show ?case by (simp add: try_values.psimps)
next
  case (3 row col v vs b)
  show ?case
  proof (cases "is_safe b row col v")
    case False
    with 3 show ?thesis by (simp add: try_values.psimps)
  next
    case True
    obtain ok e where e: "solve_sudoku_basic (set_cell b row col v) = (ok, e)"
      by (cases "solve_sudoku_basic (set_cell b row col v)")
    with 3 True have nok: "\<not> ok" by (cases ok) (auto simp: try_values.psimps)
    with "3.IH"(1) [OF True] e have "e = set_cell b row col v" by simp
    with "3.prems"(1) have "set_cell e row col 0 = b" by (simp add: set_cell_same)
    with "3.IH"(2) [OF True e [symmetric] ] 3 True e nok show ?thesis
      by (simp add: try_values.psimps)
  qed
qed

definition empty_cells :: "board \<Rightarrow> (nat \<times> nat) set" where
  "empty_cells b = {p \<in> {..<9} \<times> {..<9}. b (fst p) (snd p) = 0}"

lemma finite_empty_cells [simp]: "finite (empty_cells b)"
  by (simp add: empty_cells_def)

lemma empty_cells_fill:
  "r < 9 \<Longrightarrow> c < 9 \<Longrightarrow> v \<noteq> 0 \<Longrightarrow>
     card (empty_cells (set_cell b r c v)) < card (empty_cells (set_cell b r c 0))"
proof -
  assume "r < 9" "c < 9" "v \<noteq> 0"
  then have "empty_cells (set_cell b r c 0) = insert (r, c) (empty_cells (set_cell b r c v))"
    and "(r, c) \<notin> empty_cells (set_cell b r c v)"
    by (auto simp: empty_cells_def set_cell_apply)
  then show ?thesis by simp
qed

fun depth :: "board + nat \<times> nat \<times> int list \<times> board \<Rightarrow> nat" where
  "depth (Inl b) = 2 * card (empty_cells b) + 1"
| "depth (Inr (r, c, vs, b)) =
     2 * card (empty_cells (set_cell b r c 0)) +
     (if 0 \<in> set vs \<or> \<not> (r < 9 \<and> c < 9) then 2 else 0)"

fun pending :: "board + nat \<times> nat \<times> int list \<times> board \<Rightarrow> nat" where
  "pending (Inl b) = 0"
| "pending (Inr (r, c, vs, b)) = length vs"

termination solve_sudoku_basic
proof (relation "measures [depth, pending]")
  show "wf (measures [depth, pending])" by simp
next
  fix b r c
  assume "(9, 9) \<noteq> get_unassigned_location b" "(r, c) = get_unassigned_location b"
  then show "(Inr (r, c, [1, 2, 3, 4, 5, 6, 7, 8, 9], b), Inl b) \<in> measures [depth, pending]"
    using unassigned_Some [of b r c] by (simp add: set_cell_same)
next
  fix row col v vs b
  assume "is_safe b row col v"
  have "card (empty_cells (set_cell b row col v)) \<le> card (empty_cells (set_cell b row col 0))"
    by (intro card_mono) (auto simp: empty_cells_def set_cell_apply)
  with empty_cells_fill [of row col v b]
  show "(Inl (set_cell b row col v), Inr (row, col, v # vs, b)) \<in> measures [depth, pending]"
    by auto
next
  fix row col v vs b ok e
  assume e: "(ok, e) = solve_sudoku_basic (set_cell b row col v)" "ok = False"
    and dom: "solve_sudoku_basic_try_values_dom (Inl (set_cell b row col v))"
  then have "solve_sudoku_basic (set_cell b row col v) = (False, e)" by simp
  from failing_restores_dom(1) [OF dom this] have "e = set_cell b row col v" .
  then show "(Inr (row, col, vs, set_cell e row col 0), Inr (row, col, v # vs, b))
      \<in> measures [depth, pending]"
    by simp
qed simp

lemma solver_total:
  "solve_sudoku_basic_try_values_dom (Inl b)"
  "solve_sudoku_basic_try_values_dom (Inr (row, col, vs, d))"
  by (induction b and row col vs d rule: solve_sudoku_basic_try_values.induct)
     (auto intro: solve_sudoku_basic_try_values.domintros split: prod.splits)

lemmas failing_restores =
  failing_restores_dom(1) [OF solver_total(1)] failing_restores_dom(2) [OF solver_total(2)]

declare solve_sudoku_basic.simps [simp del] try_values.simps [simp del]

section \<open>What the solver promises\<close>

text \<open>
  Two cells see each other when they share a row, a column or a box. A board is consistent
  when cells that see each other hold different values, empty cells aside; a solution of a
  puzzle fills every cell with a digit, consistently, and keeps the clues.
\<close>

definition grid :: "(nat \<times> nat) set" where
  "grid = {..<9} \<times> {..<9}"

fun sees :: "nat \<times> nat \<Rightarrow> nat \<times> nat \<Rightarrow> bool" where
  "sees (r, c) (r', c') \<longleftrightarrow>
     r = r' \<or> c = c' \<or> (r div 3 = r' div 3 \<and> c div 3 = c' div 3)"

definition entry :: "board \<Rightarrow> nat \<times> nat \<Rightarrow> int" where
  "entry b p = b (fst p) (snd p)"

definition consistent :: "board \<Rightarrow> bool" where
  "consistent b \<longleftrightarrow>
     (\<forall>p \<in> grid. \<forall>q \<in> grid. p \<noteq> q \<and> sees p q \<and> entry b p = entry b q \<longrightarrow> entry b p = 0)"

definition solution_of :: "board \<Rightarrow> board \<Rightarrow> bool" where
  "solution_of b s \<longleftrightarrow>
     consistent s \<and> (\<forall>p \<in> grid. entry s p \<in> {1..9}) \<and>
     (\<forall>p \<in> grid. entry b p \<noteq> 0 \<longrightarrow> entry s p = entry b p)"

definition puzzle :: "board \<Rightarrow> bool" where
  "puzzle b \<longleftrightarrow> consistent b \<and> (\<forall>p \<in> grid. entry b p \<in> {0..9})"

text \<open>Reading order, and the solution that is first in it.\<close>

fun before :: "nat \<times> nat \<Rightarrow> nat \<times> nat \<Rightarrow> bool" where
  "before (r, c) (r', c') \<longleftrightarrow> r < r' \<or> (r = r' \<and> c < c')"

definition not_after :: "board \<Rightarrow> board \<Rightarrow> bool" where
  "not_after s t \<longleftrightarrow>
     (\<forall>p \<in> grid. (\<forall>q \<in> grid. before q p \<longrightarrow> entry s q = entry t q) \<longrightarrow> entry s p \<le> entry t p)"

lemma entry_pair [simp]: "entry b (r, c) = b r c"
  by (simp add: entry_def)

lemma grid_pair [simp]: "(r, c) \<in> grid \<longleftrightarrow> r < 9 \<and> c < 9"
  by (simp add: grid_def)

lemma entry_set_cell [simp]:
  "entry (set_cell b r c v) p = (if p = (r, c) then v else entry b p)"
  by (cases p) (simp add: set_cell_apply)

lemma sees_sym: "sees p q \<longleftrightarrow> sees q p"
  by (cases p; cases q) auto

lemma is_safe_iff:
  assumes "r < 9" "c < 9"
  shows "is_safe b r c v \<longleftrightarrow> (\<forall>p \<in> grid. sees (r, c) p \<longrightarrow> entry b p \<noteq> v)"
proof -
  have box: "r' div 3 = r div 3 \<and> r' < 9 \<longleftrightarrow> (\<exists>i < 3. r' = i + (r - r mod 3))"
    if "r < 9" for r r' :: nat
  proof
    assume "r' div 3 = r div 3 \<and> r' < 9"
    then have "r' = r' mod 3 + (r - r mod 3)" "r' mod 3 < 3"
      using mult_div_mod_eq [of 3 r] mult_div_mod_eq [of 3 r'] by linarith+
    then show "\<exists>i < 3. r' = i + (r - r mod 3)" by blast
  next
    assume "\<exists>i < 3. r' = i + (r - r mod 3)"
    then obtain i where "i < 3" "r' = i + 3 * (r div 3)" by (auto simp: minus_mod_eq_mult_div)
    moreover have "r div 3 < 3" using that by (simp add: less_mult_imp_div_less)
    ultimately show "r' div 3 = r div 3 \<and> r' < 9" by simp
  qed
  have rows: "list_ex (\<lambda>col. b r col = v) [0..<DIM] \<longleftrightarrow> (\<exists>q < 9. b r q = v)"
    and cols: "list_ex (\<lambda>row. b row c = v) [0..<DIM] \<longleftrightarrow> (\<exists>q < 9. b q c = v)"
    by (auto simp: list_ex_iff DIM_def)
  have "list_ex (\<lambda>(row, col). b (row + (r - r mod 3)) (col + (c - c mod 3)) = v) (cells 3)
      \<longleftrightarrow> (\<exists>r'. (\<exists>i < 3. r' = i + (r - r mod 3)) \<and> (\<exists>c'. (\<exists>j < 3. c' = j + (c - c mod 3)) \<and> b r' c' = v))"
    by (auto simp: list_ex_iff set_cells)
  then have boxes:
    "list_ex (\<lambda>(row, col). b (row + (r - r mod 3)) (col + (c - c mod 3)) = v) (cells 3)
      \<longleftrightarrow> (\<exists>r'. (r' div 3 = r div 3 \<and> r' < 9) \<and> (\<exists>c'. (c' div 3 = c div 3 \<and> c' < 9) \<and> b r' c' = v))"
    unfolding box [OF assms(1)] box [OF assms(2)] .
  have seen: "(\<forall>p \<in> grid. sees (r, c) p \<longrightarrow> entry b p \<noteq> v) \<longleftrightarrow>
      \<not> (\<exists>r' c'. r' < 9 \<and> c' < 9 \<and> (r = r' \<or> c = c' \<or> r div 3 = r' div 3 \<and> c div 3 = c' div 3) \<and>
        b r' c' = v)"
    by (auto simp: grid_def)
  show ?thesis
    unfolding is_safe_def Let_def rows cols boxes seen using assms by (simp, metis)
qed

lemma sorted_cells: "sorted_wrt before (cells n)"
proof -
  have row: "sorted_wrt before (map (\<lambda>c. (r, c)) [0..<n])" for r
    by (simp add: sorted_wrt_map)
  have "sorted_wrt before (concat (map (\<lambda>r. map (\<lambda>c. (r, c)) [0..<n]) [a..<a + k]))" for a k
    by (induction k) (auto simp: sorted_wrt_append row)
  from this [of 0 n] show ?thesis by (simp add: cells_def)
qed

lemma before_asym: "before p q \<Longrightarrow> \<not> before q p"
  by (cases p; cases q) auto

lemma before_total: "before p q \<or> p = q \<or> before q p"
  by (cases p; cases q) auto

lemma find_sorted:
  "sorted_wrt before xs \<Longrightarrow> find P xs = Some x \<Longrightarrow> y \<in> set xs \<Longrightarrow> before y x \<Longrightarrow> \<not> P y"
  by (induction xs) (auto split: if_splits dest!: find_SomeD dest: before_asym)

lemma unassigned_first:
  assumes "get_unassigned_location b = (r, c)" "(r, c) \<noteq> (9, 9)" "q \<in> grid" "before q (r, c)"
  shows "entry b q \<noteq> 0"
proof -
  from assms(1,2) have "find (\<lambda>(row, col). b row col = 0) (cells DIM) = Some (r, c)"
    by (auto simp: get_unassigned_location_def split: option.splits)
  from find_sorted [OF sorted_cells this, of q] assms(3,4) show ?thesis
    by (auto simp: set_cells grid_def DIM_def entry_def)
qed

lemma solution_cell_range: "solution_of b s \<Longrightarrow> r < 9 \<Longrightarrow> c < 9 \<Longrightarrow> s r c \<in> {1..9}"
  unfolding solution_of_def by (metis entry_pair grid_pair)

lemma solution_of_set_cell:
  "b r c = 0 \<Longrightarrow> r < 9 \<Longrightarrow> c < 9 \<Longrightarrow> v \<noteq> 0 \<Longrightarrow>
     solution_of (set_cell b r c v) s \<longleftrightarrow> solution_of b s \<and> s r c = v"
  by (auto simp: solution_of_def)

lemma solution_cell_safe:
  assumes s: "solution_of b s" and b: "b r c = 0" "r < 9" "c < 9"
  shows "is_safe b r c (s r c)"
proof -
  have "entry b p \<noteq> s r c" if p: "p \<in> grid" "sees (r, c) p" for p
  proof
    assume eq: "entry b p = s r c"
    have "s r c \<noteq> 0" using solution_cell_range [OF s b(2,3)] by simp
    with eq b have "p \<noteq> (r, c)" and "entry s p = s r c"
      using s p(1) by (auto simp: solution_of_def)
    moreover have "(r, c) \<in> grid" using b by simp
    ultimately show False
      using s p \<open>s r c \<noteq> 0\<close> unfolding solution_of_def consistent_def by (metis entry_pair)
  qed
  then show ?thesis using b by (simp add: is_safe_iff)
qed

lemma puzzle_set_cell:
  assumes b: "puzzle b" "b r c = 0" "r < 9" "c < 9" and v: "v \<in> {1..9}" "is_safe b r c v"
  shows "puzzle (set_cell b r c v)"
proof -
  have safe: "\<forall>p \<in> grid. sees (r, c) p \<longrightarrow> entry b p \<noteq> v" using is_safe_iff b v by blast
  then have "\<forall>p \<in> grid. sees p (r, c) \<longrightarrow> entry b p \<noteq> v" using sees_sym by blast
  with safe b v show ?thesis by (auto simp: puzzle_def consistent_def)
qed

text \<open>One turn of the loop on an empty cell, with the reset of the cell done.\<close>

lemma try_values_step:
  assumes "b r c = 0"
  shows "try_values r c (v # vs) b =
    (if is_safe b r c v \<and> fst (solve_sudoku_basic (set_cell b r c v))
     then solve_sudoku_basic (set_cell b r c v) else try_values r c vs b)"
proof -
  obtain ok e where e: "solve_sudoku_basic (set_cell b r c v) = (ok, e)"
    by (cases "solve_sudoku_basic (set_cell b r c v)")
  show ?thesis
  proof (cases ok)
    case False
    with e have "e = set_cell b r c v" by (intro failing_restores(1)) simp
    with assms e False show ?thesis by (simp add: try_values.simps set_cell_same)
  qed (use e in \<open>simp add: try_values.simps\<close>)
qed

lemma failing_has_no_solution:
  "solve_sudoku_basic b = (False, b') \<Longrightarrow> \<not> solution_of b s"
  "r < 9 \<Longrightarrow> c < 9 \<Longrightarrow> d r c = 0 \<Longrightarrow> try_values r c vs d = (False, d') \<Longrightarrow>
     solution_of d s \<Longrightarrow> s r c \<notin> set vs"
proof (induction b and r c vs d arbitrary: b' and d' rule: solve_sudoku_basic_try_values.induct)
  case (1 b)
  obtain r c where rc: "get_unassigned_location b = (r, c)" by (cases "get_unassigned_location b")
  with 1 have n: "(r, c) \<noteq> (9, 9)" by (auto simp: solve_sudoku_basic.simps)
  note rcb = unassigned_Some [OF rc n]
  have "\<not> s r c \<in> set [1, 2, 3, 4, 5, 6, 7, 8, 9]" if "solution_of b s"
    using 1 rc n rcb that by (auto simp: solve_sudoku_basic.simps)
  moreover have "s r c \<in> {1..9}" if "solution_of b s"
    using solution_cell_range [OF that rcb(1,2)] .
  moreover have "{1..9} = set [1, 2, 3, 4, 5, 6, 7, 8, 9 :: int]" 
    by (auto simp: atLeastAtMost_iff)
  ultimately show ?case by blast
next
  case (2 row col b)
  then show ?case by simp
next
  case (3 row col v vs b)
  show ?case
  proof (cases "is_safe b row col v")
    case False
    with 3 solution_cell_safe [OF "3.prems"(5,3,1,2)] show ?thesis
      by (auto simp: try_values.simps)
  next
    case True
    have step: "\<not> fst (solve_sudoku_basic (set_cell b row col v))"
      "try_values row col vs b = (False, d')"
      using "3.prems"(4) True by (auto simp: try_values_step [of b row col v vs, OF "3.prems"(3)] split: if_splits)
    obtain e where e: "solve_sudoku_basic (set_cell b row col v) = (False, e)"
      using step(1) by (metis eq_fst_iff)
    have e': "set_cell e row col 0 = b"
      using failing_restores(1) [OF e] "3.prems"(3) by (simp add: set_cell_same)
    from "3.IH"(1) [OF True e] have "s row col \<noteq> v"
      using "3.prems" solution_of_set_cell [of b row col v s]
        solution_cell_range [of b s row col] by auto
    moreover from "3.IH"(2) [OF True e [symmetric] refl] have "s row col \<notin> set vs"
      unfolding e' using "3.prems"(1-3,5) step(2) by blast
    ultimately show ?thesis by simp
  qed
qed

lemma solved_is_first_solution:
  "solve_sudoku_basic b = (True, b') \<Longrightarrow> puzzle b \<Longrightarrow>
     solution_of b b' \<and> (\<forall>s. solution_of b s \<longrightarrow> not_after b' s)"
  "try_values r c vs d = (True, d') \<Longrightarrow> puzzle d \<Longrightarrow> d r c = 0 \<Longrightarrow> r < 9 \<Longrightarrow> c < 9 \<Longrightarrow>
     sorted_wrt (<) vs \<Longrightarrow> set vs \<subseteq> {1..9} \<Longrightarrow>
     (\<forall>q \<in> grid. before q (r, c) \<longrightarrow> entry d q \<noteq> 0) \<Longrightarrow>
     solution_of d d' \<and> (\<forall>s. solution_of d s \<and> s r c \<in> set vs \<longrightarrow> not_after d' s)"
proof (induction b and r c vs d arbitrary: b' and d' rule: solve_sudoku_basic_try_values.induct)
  case (1 b)
  obtain r c where rc: "get_unassigned_location b = (r, c)" by (cases "get_unassigned_location b")
  show ?case
  proof (cases "(r, c) = (9, 9)")
    case True
    with 1 rc have "b' = b" by (simp add: solve_sudoku_basic.simps)
    moreover have nz: "\<forall>p \<in> grid. entry b p \<noteq> 0"
      using rc True unassigned_None [of b] by (auto simp: grid_def)
    ultimately show ?thesis using "1.prems"(2)
      by (force simp: solution_of_def puzzle_def not_after_def)
  next
    case False
    note rcb = unassigned_Some [OF rc False]
    have "solution_of b s \<Longrightarrow> s r c \<in> set [1, 2, 3, 4, 5, 6, 7, 8, 9]" for s
      using solution_cell_range [OF _ rcb(1,2)] by force
    moreover have "solution_of b b' \<and>
      (\<forall>s. solution_of b s \<and> s r c \<in> set [1, 2, 3, 4, 5, 6, 7, 8, 9] \<longrightarrow> not_after b' s)"
      using rc False rcb unassigned_first [OF rc False] "1.prems"
      by (intro "1.IH") (auto simp: solve_sudoku_basic.simps)
    ultimately show ?thesis by blast
  qed
next
  case (2 row col b)
  then show ?case by (simp add: try_values.simps)
next
  case (3 row col v vs b)
  note z = "3.prems"(3)
  show ?case
  proof (cases "is_safe b row col v \<and> fst (solve_sudoku_basic (set_cell b row col v))")
    case True
    then have e: "solve_sudoku_basic (set_cell b row col v) = (True, d')"
      using "3.prems"(1) by (simp add: try_values_step [of b row col v vs, OF z])
    have v: "v \<in> {1..9}" using "3.prems"(7) by simp
    have p: "puzzle (set_cell b row col v)" using puzzle_set_cell True v "3.prems" by simp
    have sol: "solution_of (set_cell b row col v) d'"
      and first: "\<forall>s. solution_of (set_cell b row col v) s \<longrightarrow> not_after d' s"
      using "3.IH"(1) [OF _ e p] True by auto
    have here: "solution_of (set_cell b row col v) s \<longleftrightarrow> solution_of b s \<and> s row col = v" for s
      using v "3.prems" by (intro solution_of_set_cell) auto
    have "not_after d' s" if s: "solution_of b s" "s row col \<in> set (v # vs)" for s
    proof (cases "s row col = v")
      case False
      then have less: "d' row col < s row col" using s sol here "3.prems"(6) by auto
      have same: "entry d' q = entry s q" if "q \<in> grid" "before q (row, col)" for q
        using that "3.prems"(8) s sol here by (auto simp: solution_of_def)
      have "entry d' p \<le> entry s p"
        if "p \<in> grid" "\<forall>q \<in> grid. before q p \<longrightarrow> entry d' q = entry s q" for p
        using that same [of p] less "3.prems"(4,5) before_total [of p "(row, col)"]
        by (metis entry_pair grid_pair less_irrefl order.strict_implies_order order_refl)
      then show ?thesis unfolding not_after_def by blast
    qed (use first here s in blast)
    with sol here show ?thesis by blast
  next
    case False
    then have rest: "try_values row col vs b = (True, d')"
      using "3.prems"(1) by (auto simp: try_values_step [of b row col v vs, OF z] split: if_splits)
    have "solution_of b d' \<and> (\<forall>s. solution_of b s \<and> s row col \<in> set vs \<longrightarrow> not_after d' s)"
    proof (cases "is_safe b row col v")
      case True
      with False obtain e where e: "solve_sudoku_basic (set_cell b row col v) = (False, e)"
        by (metis eq_fst_iff)
      then have b: "set_cell e row col 0 = b"
        using failing_restores(1) [OF e] z by (simp add: set_cell_same)
      show ?thesis
        using "3.IH"(2) [OF True e [symmetric] refl, unfolded b, OF rest] "3.prems" by simp
    next
      case False
      show ?thesis using "3.IH"(3) [OF False rest] "3.prems" by simp
    qed
    moreover have "s row col \<noteq> v" if s: "solution_of b s" for s
    proof
      assume v: "s row col = v"
      have "is_safe b row col v" using solution_cell_safe [OF s z "3.prems"(4,5)] v by simp
      with False have "solve_sudoku_basic (set_cell b row col v) =
          (False, snd (solve_sudoku_basic (set_cell b row col v)))"
        by (simp add: prod_eq_iff)
      from failing_has_no_solution(1) [OF this] show False
        using v s z "3.prems"(4,5,7) solution_of_set_cell [of b row col v s] by auto
    qed
    ultimately show ?thesis by auto
  qed
qed

text \<open>
  C30: On a puzzle (digits or empty cells, no clue contradicting another) the solver always
  returns, and its verdict is right: if it says yes, the board it leaves is a solution, and
  the first one in reading order; if it says no, there is no solution and the board is
  restored.
\<close>

theorem solver_decides:
  assumes "puzzle b"
  shows "case solve_sudoku_basic b of
           (True, b') \<Rightarrow> solution_of b b' \<and> (\<forall>s. solution_of b s \<longrightarrow> not_after b' s)
         | (False, b') \<Rightarrow> b' = b \<and> (\<forall>s. \<not> solution_of b s)"
proof -
  obtain ok b' where r: "solve_sudoku_basic b = (ok, b')" by (cases "solve_sudoku_basic b")
  show ?thesis
  proof (cases ok)
    case True
    with r solved_is_first_solution(1) assms show ?thesis by simp
  next
    case False
    with r failing_restores(1) failing_has_no_solution(1) show ?thesis by simp
  qed
qed

text \<open>A puzzle without a solution: no digit is left for the last cell of the first row.\<close>

definition hopeless :: board where
  "hopeless r c = (if r = 0 \<and> c < 8 then int c + 1 else if r = 5 \<and> c = 8 then 9 else 0)"

lemma hopeless_puzzle: "puzzle hopeless"
  by (auto simp: puzzle_def consistent_def grid_def entry_def hopeless_def split: if_splits)

theorem solver_decides_witness:
  "\<not> fst (solve_sudoku_basic hopeless) \<and> (\<forall>s. \<not> solution_of hopeless s)"
proof -
  have n: "\<not> fst (solve_sudoku_basic hopeless)" by code_simp
  with solver_decides [OF hopeless_puzzle] show ?thesis by (auto split: prod.splits bool.splits)
qed

section \<open>Boards as text\<close>

text \<open>
  \<open>deserialize_board\<close> writes through a pointer that runs over the array, whose previous
  contents are the argument \<open>b\<close> (the array is not initialised). A failed \<^verbatim>\<open>assert\<close> ends the
  program.
\<close>

fun deserialize_loop :: "nat \<Rightarrow> string \<Rightarrow> board \<Rightarrow> board result" where
  "deserialize_loop i [] b = Inr b"
| "deserialize_loop i (ch # cs) b =
     (if is_digit ch
      then deserialize_loop (i + 1) cs (set_cell b (i div DIM) (i mod DIM) (int (digit_val ch)))
      else Inl (Undefined ''invalid sudoku board''))"

definition deserialize_board :: "string \<Rightarrow> board \<Rightarrow> board result" where
  "deserialize_board line b =
     (if length line = 81 then deserialize_loop 0 line b
      else Inl (Undefined ''line.length() == 81''))"

definition serialize_board :: "board \<Rightarrow> string" where
  "serialize_board b = map (\<lambda>(i, j). char_of (nat ((48 + b i j) mod 256))) (cells DIM)"

text \<open>The task \<^verbatim>\<open>main\<close> gives to the pool for every line of a file.\<close>

definition sudoku_task :: "board \<Rightarrow> string \<Rightarrow> string result" where
  "sudoku_task uninitialised line =
     res_bind (deserialize_board line uninitialised)
       (\<lambda>board. case solve_sudoku_basic board of
                  (True, solved) \<Rightarrow> Inr (serialize_board solved)
                | (False, _) \<Rightarrow> Inr [])"

definition text_board :: "string \<Rightarrow> board" where
  "text_board line r c = int (digit_val (line ! (9 * r + c)))"

definition same_grid :: "board \<Rightarrow> board \<Rightarrow> bool" where
  "same_grid a b \<longleftrightarrow> (\<forall>p \<in> grid. entry a p = entry b p)"

lemma deserialize_loop_digits:
  "\<forall>ch \<in> set cs. is_digit ch \<Longrightarrow>
     \<exists>b'. deserialize_loop i cs b = Inr b' \<and>
       (\<forall>r c. c < 9 \<longrightarrow> b' r c =
          (if i \<le> 9 * r + c \<and> 9 * r + c < i + length cs
           then int (digit_val (cs ! (9 * r + c - i))) else b r c))"
proof (induction cs arbitrary: i b)
  case (Cons ch cs)
  let ?b = "set_cell b (i div DIM) (i mod DIM) (int (digit_val ch))"
  have "\<forall>ch \<in> set cs. is_digit ch" using Cons.prems by simp
  from Cons.IH [OF this, of "i + 1" ?b] obtain b' where b': "deserialize_loop (i + 1) cs ?b = Inr b'"
    "\<forall>r c. c < 9 \<longrightarrow> b' r c =
       (if i + 1 \<le> 9 * r + c \<and> 9 * r + c < i + 1 + length cs
        then int (digit_val (cs ! (9 * r + c - (i + 1)))) else ?b r c)"
    by blast
  have "b' r c = (if i \<le> 9 * r + c \<and> 9 * r + c < i + length (ch # cs)
      then int (digit_val ((ch # cs) ! (9 * r + c - i))) else b r c)" if c: "c < 9" for r c
  proof (cases "9 * r + c = i")
    case True
    then have "r = i div DIM" "c = i mod DIM" using c by (auto simp: DIM_def)
    with True b'(2) c show ?thesis by (simp add: set_cell_apply)
  next
    case False
    then have "\<not> (r = i div DIM \<and> c = i mod DIM)" by (auto simp: DIM_def)
    then have "?b r c = b r c" by (auto simp: set_cell_apply)
    with False b'(2) c show ?thesis by (cases "9 * r + c < i") (simp_all add: nth_Cons')
  qed
  with b'(1) Cons.prems show ?case by simp
qed simp

lemma deserialize_digits:
  assumes "length line = 81" "\<forall>ch \<in> set line. is_digit ch"
  shows "\<exists>b. deserialize_board line u = Inr b \<and> same_grid b (text_board line)"
proof -
  from deserialize_loop_digits [OF assms(2), of 0 u] obtain b' where
    "deserialize_loop 0 line u = Inr b'"
    "\<forall>r c. c < 9 \<longrightarrow> b' r c = (if 9 * r + c < 81 then int (digit_val (line ! (9 * r + c))) else u r c)"
    using assms(1) by auto
  then show ?thesis
    using assms(1) by (auto simp: deserialize_board_def same_grid_def grid_def text_board_def)
qed

lemma cells_nth: "r < 9 \<Longrightarrow> c < 9 \<Longrightarrow> cells 9 ! (9 * r + c) = (r, c)"
proof -
  have "list_all (\<lambda>r. list_all (\<lambda>c. cells 9 ! (9 * r + c) = (r, c)) [0..<9]) [0..<9]"
    by code_simp
  then show "r < 9 \<Longrightarrow> c < 9 \<Longrightarrow> ?thesis" by (simp add: list_all_iff)
qed

lemma length_cells: "length (cells 9) = 81"
  by code_simp

lemma char_of_cell:
  "0 \<le> v \<Longrightarrow> v \<le> 9 \<Longrightarrow> char_of (nat ((48 + v) mod 256)) = digit_char (nat v)"
  by (simp add: digit_char_def nat_add_distrib)

lemma serialize_digits:
  assumes "\<forall>p \<in> grid. entry b p \<in> {0..9}"
  shows "length (serialize_board b) = 81"
    and "\<forall>ch \<in> set (serialize_board b). is_digit ch"
    and "same_grid (text_board (serialize_board b)) b"
proof -
  have v: "0 \<le> b r c \<and> b r c \<le> 9" if "r < 9" "c < 9" for r c
    using assms that by (force simp: grid_def)
  show "length (serialize_board b) = 81" by (simp add: serialize_board_def DIM_def length_cells)
  show "\<forall>ch \<in> set (serialize_board b). is_digit ch"
    using v by (force simp: serialize_board_def set_cells DIM_def char_of_cell)
  show "same_grid (text_board (serialize_board b)) b"
    using v by (force simp: same_grid_def grid_def text_board_def serialize_board_def DIM_def
        cells_nth length_cells char_of_cell)
qed

lemma consistent_same_grid: "same_grid a b \<Longrightarrow> consistent a \<longleftrightarrow> consistent b"
  by (simp add: consistent_def same_grid_def)

lemma same_grid_solution:
  "same_grid a b \<Longrightarrow> solution_of a s \<longleftrightarrow> solution_of b s"
  "same_grid s t \<Longrightarrow> solution_of b s \<longleftrightarrow> solution_of b t"
  "same_grid a b \<Longrightarrow> puzzle a \<longleftrightarrow> puzzle b"
  "same_grid s t \<Longrightarrow> not_after s x \<longleftrightarrow> not_after t x"
  using consistent_same_grid
  by (auto simp: solution_of_def puzzle_def same_grid_def not_after_def)

lemma deserialize_loop_bad:
  "\<exists>ch \<in> set cs. \<not> is_digit ch \<Longrightarrow> \<exists>m. deserialize_loop i cs b = Inl (Undefined m)"
  by (induction i cs b rule: deserialize_loop.induct) auto

lemma bad_line_stops:
  "\<not> (length line = 81 \<and> (\<forall>ch \<in> set line. is_digit ch)) \<Longrightarrow>
     \<exists>m. sudoku_task u line = Inl (Undefined m)"
  using deserialize_loop_bad [of line 0 u]
  by (cases "length line = 81") (auto simp: sudoku_task_def deserialize_board_def)

text \<open>
  C31: What a line of a puzzle file comes to, whatever the uninitialised array holds: for a
  line of 81 digits that is a puzzle, the text of its first solution, or the empty line when
  there is none.
\<close>

theorem line_is_solved:
  assumes "length line = 81" "\<forall>ch \<in> set line. is_digit ch" "puzzle (text_board line)"
  shows "\<exists>out. sudoku_task u line = Inr out \<and>
    (if \<exists>s. solution_of (text_board line) s
     then length out = 81 \<and> (\<forall>ch \<in> set out. is_digit ch) \<and>
       solution_of (text_board line) (text_board out) \<and>
       (\<forall>s. solution_of (text_board line) s \<longrightarrow> not_after (text_board out) s)
     else out = [])"
proof -
  obtain b where b: "deserialize_board line u = Inr b" "same_grid b (text_board line)"
    using deserialize_digits [OF assms(1,2)] by blast
  note same = same_grid_solution(1) [OF b(2)] same_grid_solution(3) [OF b(2)]
  obtain ok b' where r: "solve_sudoku_basic b = (ok, b')" by (cases "solve_sudoku_basic b")
  show ?thesis
  proof (cases ok)
    case True
    with r have "solve_sudoku_basic b = (True, b')" by simp
    from solved_is_first_solution(1) [OF this] assms(3)
    have s: "solution_of (text_board line) b'"
      "\<forall>s. solution_of (text_board line) s \<longrightarrow> not_after b' s"
      unfolding same by blast+
    from s(1) have "\<forall>p \<in> grid. entry b' p \<in> {1..9}" unfolding solution_of_def by blast
    then have "\<forall>p \<in> grid. entry b' p \<in> {0..9}" by fastforce
    note out = serialize_digits [OF this]
    have "sudoku_task u line = Inr (serialize_board b')"
      using r True b(1) by (simp add: sudoku_task_def)
    moreover have "solution_of (text_board line) (text_board (serialize_board b'))"
      using s(1) same_grid_solution(2) [OF out(3)] by blast
    moreover have "\<forall>s. solution_of (text_board line) s \<longrightarrow>
        not_after (text_board (serialize_board b')) s"
      using s(2) same_grid_solution(4) [OF out(3)] by blast
    ultimately show ?thesis using out(1,2) by auto
  next
    case False
    with r failing_has_no_solution(1) same have "\<not> (\<exists>s. solution_of (text_board line) s)" by auto
    with r False b(1) show ?thesis by (simp add: sudoku_task_def)
  qed
qed

definition sample_line :: string where
  "sample_line = CHR ''5'' # replicate 80 (CHR ''0'')"

lemma sample_line_ok:
  "length sample_line = 81" "\<forall>ch \<in> set sample_line. is_digit ch" "puzzle (text_board sample_line)"
proof -
  have "text_board sample_line r c = (if r = 0 \<and> c = 0 then 5 else 0)" if "r < 9" "c < 9" for r c
    using that by (auto simp: text_board_def sample_line_def nth_Cons' digit_val_def)
  then show "puzzle (text_board sample_line)"
    by (auto simp: puzzle_def consistent_def grid_def entry_def)
qed (simp_all add: sample_line_def is_digit_iff)

theorem line_is_solved_witness:
  "\<exists>out. sudoku_task (\<lambda>_ _. 7) sample_line = Inr out \<and>
    (if \<exists>s. solution_of (text_board sample_line) s
     then length out = 81 \<and> (\<forall>ch \<in> set out. is_digit ch) \<and>
       solution_of (text_board sample_line) (text_board out) \<and>
       (\<forall>s. solution_of (text_board sample_line) s \<longrightarrow> not_after (text_board out) s)
     else out = [])"
  by (rule line_is_solved [OF sample_line_ok])

end
