(* ===== verification/Sudoku_Main.thy ===== *)
theory Sudoku_Main
  imports Sudoku Work_Crew "HOL-Library.Sublist"
begin

text \<open>
  The thread pool of Lab1 (\<^verbatim>\<open>thread_pool.h\<close>) and the main program built on it
  (\<^verbatim>\<open>main.cc\<close>). Which worker runs next is a schedule, a list of worker numbers; every
  entry is one critical section or one finished task of that worker.
\<close>

section \<open>The pool\<close>

text \<open>
  A task is a bound call \<open>'a\<close> and the number of the future its result goes to; the futures
  hold \<open>None\<close> until the task has run. A worker waits on the condition variable, runs a
  task, or has left its loop.
\<close>

datatype 'a worker = Waiting | Running nat 'a | Exited

record ('a, 'b) task_pool =
  done_flag :: bool
  crew :: "'a worker list"
  tasks :: "(nat \<times> 'a) list"
  futures :: "'b option list"

definition new_pool :: "nat \<Rightarrow> ('a, 'b) task_pool" where
  "new_pool n = \<lparr>done_flag = False, crew = replicate n Waiting, tasks = [], futures = []\<rparr>"

text \<open>\<open>pool_add\<close> returns the number of the new future beside the pool.\<close>

definition pool_add :: "'a \<Rightarrow> ('a, 'b) task_pool \<Rightarrow> (nat \<times> ('a, 'b) task_pool) result" where
  "pool_add f p =
     (if done_flag p then Inl (Std_Exception ''added task to stopped pool'')
      else
        let future = length (futures p)
        in Inr (future, p\<lparr>futures := futures p @ [None], tasks := tasks p @ [(future, f)]\<rparr>))"

text \<open>
  One turn of worker \<open>i\<close>. Waiting, it leaves its loop when the pool is done, even with tasks
  in the queue, takes the front task if there is one, and sleeps otherwise.
\<close>

definition worker_step :: "('a \<Rightarrow> 'b) \<Rightarrow> nat \<Rightarrow> ('a, 'b) task_pool \<Rightarrow> ('a, 'b) task_pool" where
  "worker_step call i p =
     (if i < length (crew p) then
        case crew p ! i of
          Exited \<Rightarrow> p
        | Running future f \<Rightarrow>
            p\<lparr>futures := (futures p)[future := Some (call f)], crew := (crew p)[i := Waiting]\<rparr>
        | Waiting \<Rightarrow>
            if tasks p = [] \<and> \<not> done_flag p then p
            else if done_flag p then p\<lparr>crew := (crew p)[i := Exited]\<rparr>
            else case hd (tasks p) of
                   (future, f) \<Rightarrow>
                     p\<lparr>crew := (crew p)[i := Running future f], tasks := tl (tasks p)\<rparr>
      else p)"

definition run_workers :: "('a \<Rightarrow> 'b) \<Rightarrow> nat list \<Rightarrow> ('a, 'b) task_pool \<Rightarrow> ('a, 'b) task_pool" where
  "run_workers call sched p = run_turns (worker_step call) sched p"

text \<open>The destructor sets the flag, wakes everyone and joins.\<close>

definition pool_destroy :: "('a \<Rightarrow> 'b) \<Rightarrow> nat list \<Rightarrow> ('a, 'b) task_pool \<Rightarrow> ('a, 'b) task_pool option" where
  "pool_destroy call sched p =
     (let p' = run_workers call sched (p\<lparr>done_flag := True\<rparr>)
      in if list_all (\<lambda>w. case w of Exited \<Rightarrow> True | _ \<Rightarrow> False) (crew p') then Some p' else None)"

section \<open>The main program\<close>

text \<open>
  How a run of \<^verbatim>\<open>main\<close> stands: it ended, it waits in \<^verbatim>\<open>future::get\<close>, or it died of an
  exception or a failed assertion.
\<close>

datatype ending = Finished | Waiting_For_Result | Died exn

text \<open>
  \<open>submit_lines\<close> is \<open>process_file_by_line\<close> with the lambda of \<^verbatim>\<open>main\<close>: one task per line,
  while the workers already run (\<open>turns k\<close> is what they do after the task with future \<open>k\<close> is
  queued). \<open>flush\<close> prints the results in the order of their lines.
\<close>

type_synonym sudoku_pool = "(string, string result) task_pool"

fun submit_lines ::
  "(string \<Rightarrow> string result) \<Rightarrow> (nat \<Rightarrow> nat list) \<Rightarrow> string list \<Rightarrow> nat list \<Rightarrow> sudoku_pool
     \<Rightarrow> (nat list \<times> sudoku_pool) result" where
  "submit_lines call turns [] res p = Inr (res, p)"
| "submit_lines call turns (line # lines) res p =
     res_bind (pool_add line p)
       (\<lambda>(future, p'). submit_lines call turns lines (res @ [future]) (run_workers call (turns future) p'))"

fun flush :: "nat list \<Rightarrow> sudoku_pool \<Rightarrow> string list \<Rightarrow> string list \<times> ending" where
  "flush [] p out = (out, Finished)"
| "flush (future # res) p out =
     (case futures p ! future of
        None \<Rightarrow> (out, Waiting_For_Result)
      | Some (Inl e) \<Rightarrow> (out, Died e)
      | Some (Inr line) \<Rightarrow> flush res p (out @ [line]))"

definition process_file_by_line :: "(string \<Rightarrow> string option) \<Rightarrow> string \<Rightarrow> string list result" where
  "process_file_by_line files filename =
     (case files filename of
        None \<Rightarrow> Inl (Std_Exception (''bad filename: '' @ filename))
      | Some content \<Rightarrow> Inr (getlines (char_of (10 :: nat)) content))"

text \<open>
  The loop over the file names on standard input. \<open>waits k\<close> is what the workers do while the
  results of the file that made the total number of futures \<open>k\<close> are waited for.
\<close>

fun main_loop ::
  "(string \<Rightarrow> string result) \<Rightarrow> (string \<Rightarrow> string option) \<Rightarrow> (nat \<Rightarrow> nat list) \<Rightarrow> (nat \<Rightarrow> nat list)
     \<Rightarrow> string list \<Rightarrow> sudoku_pool \<Rightarrow> string list \<Rightarrow> string list \<times> ending" where
  "main_loop call files turns waits [] p out = (out, Finished)"
| "main_loop call files turns waits (name # names) p out =
     (case res_bind (process_file_by_line files name) (\<lambda>lines. submit_lines call turns lines [] p) of
        Inl e \<Rightarrow> (out, Died e)
      | Inr (res, p') \<Rightarrow>
          let p'' = run_workers call (waits (length (futures p'))) p'
          in case flush res p'' out of
               (out', Finished) \<Rightarrow> main_loop call files turns waits names p'' out'
             | stopped \<Rightarrow> stopped)"

definition sudoku_main ::
  "nat \<Rightarrow> board \<Rightarrow> (string \<Rightarrow> string option) \<Rightarrow> (nat \<Rightarrow> nat list) \<Rightarrow> (nat \<Rightarrow> nat list)
     \<Rightarrow> string list \<Rightarrow> string list \<times> ending" where
  "sudoku_main hardware_concurrency uninitialised files turns waits names =
     main_loop (sudoku_task uninitialised) files turns waits names (new_pool hardware_concurrency) []"

section \<open>The pool computes every future\<close>

text \<open>
  \<open>pool_inv call args p\<close>: future \<open>k\<close> belongs to the call \<open>args ! k\<close>; it holds its result, or
  the task is still queued or running. \<open>work\<close> is what the workers have left to do.
\<close>

definition running :: "'a worker \<Rightarrow> bool" where
  "running w = (case w of Running _ _ \<Rightarrow> True | _ \<Rightarrow> False)"

definition work :: "('a, 'b) task_pool \<Rightarrow> nat" where
  "work p = 2 * length (tasks p) + length (filter running (crew p))"

definition pool_inv :: "('a \<Rightarrow> 'b) \<Rightarrow> 'a list \<Rightarrow> ('a, 'b) task_pool \<Rightarrow> bool" where
  "pool_inv call args p \<longleftrightarrow>
     \<not> done_flag p \<and> Exited \<notin> set (crew p) \<and> length (futures p) = length args \<and>
     work p \<le> 2 * length args \<and>
     (\<forall>(k, f) \<in> set (tasks p). k < length args \<and> f = args ! k) \<and>
     (\<forall>k f. Running k f \<in> set (crew p) \<longrightarrow> k < length args \<and> f = args ! k) \<and>
     (\<forall>k < length args.
        (\<forall>v. futures p ! k = Some v \<longrightarrow> v = call (args ! k)) \<and>
        (futures p ! k = None \<longrightarrow> (\<exists>f. (k, f) \<in> set (tasks p) \<or> Running k f \<in> set (crew p))))"

lemma running_simps [simp]:
  "running (Running k f)" "\<not> running Waiting" "\<not> running Exited"
  by (simp_all add: running_def)

lemma filter_update_length:
  "i < length ws \<Longrightarrow> length (filter P (ws[i := w])) + (if P (ws ! i) then 1 else 0) =
     length (filter P ws) + (if P w then 1 else 0)"
proof (induction ws arbitrary: i)
  case (Cons a ws)
  then show ?case using Cons.IH [of "i - 1"] by (cases i) auto
qed simp

lemma crew_update_Running:
  "i < length ws \<Longrightarrow> Running k f \<in> set ws \<Longrightarrow> ws ! i = Running k' f' \<Longrightarrow> k \<noteq> k' \<Longrightarrow>
     Running k f \<in> set (ws[i := w])"
  by (metis in_set_conv_nth length_list_update nth_list_update_neq worker.inject)

lemma crew_take:
  "i < length ws \<Longrightarrow> ws ! i = Waiting \<Longrightarrow>
     Running k' f' \<in> set (ws[i := Running k f]) \<longleftrightarrow> Running k' f' \<in> set ws \<or> (k' = k \<and> f' = f)"
  by (auto simp: in_set_conv_nth nth_list_update) (metis worker.distinct(1))+

lemma crew_exited: "w \<noteq> Exited \<Longrightarrow> Exited \<notin> set ws \<Longrightarrow> Exited \<notin> set (ws[i := w])"
  using set_update_subset_insert [of ws i w] by auto

lemma worker_step_crew [simp]: "length (crew (worker_step call i p)) = length (crew p)"
  by (auto simp: worker_step_def split: worker.splits prod.splits)

lemma worker_step_futures [simp]: "length (futures (worker_step call i p)) = length (futures p)"
  by (auto simp: worker_step_def split: worker.splits prod.splits)

text \<open>The step of a worker that is not exited, in a pool that is not stopped.\<close>

lemma worker_step_cases:
  assumes "\<not> done_flag p" "Exited \<notin> set (crew p)"
  obtains (idle) "worker_step call i p = p" "tasks p = []" "i < length (crew p) \<longrightarrow> \<not> running (crew p ! i)"
  | (absent) "worker_step call i p = p" "\<not> i < length (crew p)"
  | (take) k f ts where "i < length (crew p)" "crew p ! i = Waiting" "tasks p = (k, f) # ts"
      "worker_step call i p = p\<lparr>crew := (crew p)[i := Running k f], tasks := ts\<rparr>"
  | (finish) k f where "i < length (crew p)" "crew p ! i = Running k f"
      "worker_step call i p =
         p\<lparr>futures := (futures p)[k := Some (call f)], crew := (crew p)[i := Waiting]\<rparr>"
proof (cases "i < length (crew p)")
  case True
  then have "crew p ! i \<noteq> Exited" using assms(2) by (metis nth_mem)
  with True assms that show ?thesis
    by (cases "crew p ! i"; cases "tasks p") (auto simp: worker_step_def)
qed (use that in \<open>simp add: worker_step_def\<close>)

lemma work_step:
  assumes "\<not> done_flag p" "Exited \<notin> set (crew p)"
  shows "work (worker_step call i p) \<le> work p"
    and "i < length (crew p) \<Longrightarrow> tasks p \<noteq> [] \<or> running (crew p ! i) \<Longrightarrow>
      work (worker_step call i p) < work p"
proof -
  have "work (worker_step call i p) \<le> work p \<and>
    (i < length (crew p) \<and> (tasks p \<noteq> [] \<or> running (crew p ! i)) \<longrightarrow>
      work (worker_step call i p) < work p)"
    using assms
  proof (cases rule: worker_step_cases [of p call i])
    case (take k f ts)
    then show ?thesis using filter_update_length [of i "crew p" running "Running k f"]
      by (simp add: work_def)
  next
    case (finish k f)
    then show ?thesis using filter_update_length [of i "crew p" running Waiting]
      by (simp add: work_def)
  qed simp_all
  then show "work (worker_step call i p) \<le> work p"
    and "i < length (crew p) \<Longrightarrow> tasks p \<noteq> [] \<or> running (crew p ! i) \<Longrightarrow>
      work (worker_step call i p) < work p"
    by blast+
qed

lemma pool_inv_step:
  assumes inv: "pool_inv call args p"
  shows "pool_inv call args (worker_step call i p)"
proof -
  have nd: "\<not> done_flag p" "Exited \<notin> set (crew p)" using inv by (simp_all add: pool_inv_def)
  have w: "work (worker_step call i p) \<le> 2 * length args"
    using work_step(1) [OF nd, of call i] inv by (simp add: pool_inv_def)
  show ?thesis
    using nd
  proof (cases rule: worker_step_cases [of p call i])
    case (take k f ts)
    have kf: "k < length args" "f = args ! k" using inv take(3) by (simp_all add: pool_inv_def)
    have futs: "(\<forall>v. futures p ! k' = Some v \<longrightarrow> v = call (args ! k')) \<and>
        (futures p ! k' = None \<longrightarrow> (\<exists>f'. (k', f') \<in> set ts \<or> Running k' f' \<in> set ((crew p)[i := Running k f])))"
      if "k' < length args" for k'
      using inv that take(3) crew_take [OF take(1,2)] unfolding pool_inv_def
      by (auto split: option.splits)
    show ?thesis
      using inv w kf take(3) futs crew_take [OF take(1,2)] crew_exited [of "Running k f" "crew p" i]
      unfolding pool_inv_def take(4) by auto
  next
    case (finish k f)
    then have "Running k f \<in> set (crew p)" by (metis nth_mem)
    with inv have kf: "k < length args" "f = args ! k" by (simp_all add: pool_inv_def)
    have sub: "\<forall>k' f'. Running k' f' \<in> set ((crew p)[i := Waiting]) \<longrightarrow>
        k' < length args \<and> f' = args ! k'"
      using inv set_update_subset_insert [of "crew p" i Waiting] by (auto simp: pool_inv_def)
    have "(\<forall>v. futures p ! k' = Some v \<longrightarrow> v = call (args ! k')) \<and>
        (futures p ! k' = None \<longrightarrow> (\<exists>f'. (k', f') \<in> set (tasks p) \<or> Running k' f' \<in> set ((crew p)[i := Waiting])))"
      if "k' < length args" "k' \<noteq> k" for k'
      using inv that crew_update_Running [OF finish(1) _ finish(2), of k'] unfolding pool_inv_def
      by blast
    then have futs: "(\<forall>v. ((futures p)[k := Some (call f)]) ! k' = Some v \<longrightarrow> v = call (args ! k')) \<and>
        (((futures p)[k := Some (call f)]) ! k' = None \<longrightarrow> (\<exists>f'. (k', f') \<in> set (tasks p) \<or> Running k' f' \<in> set ((crew p)[i := Waiting])))"
      if "k' < length args" for k'
      using that kf inv by (cases "k' = k") (simp_all add: pool_inv_def)
    show ?thesis
      using inv w futs sub crew_exited [of Waiting "crew p" i]
      unfolding pool_inv_def finish(3) by auto
  qed (use inv in simp_all)
qed

lemma run_workers_lengths [simp]:
  "length (crew (run_workers call sched p)) = length (crew p)"
  "length (futures (run_workers call sched p)) = length (futures p)"
  by (induction sched arbitrary: p) (simp_all add: run_workers_def)

lemma pool_inv_running: "pool_inv call args p \<Longrightarrow> \<not> done_flag p \<and> Exited \<notin> set (crew p)"
  by (simp add: pool_inv_def)

lemma pool_inv_new: "pool_inv call [] (new_pool n)"
  by (simp add: pool_inv_def new_pool_def work_def)

lemma pool_inv_add:
  "pool_inv call args p \<Longrightarrow>
     \<exists>p'. pool_add f p = Inr (length args, p') \<and> pool_inv call (args @ [f]) p' \<and> crew p' = crew p"
  by (fastforce simp: pool_inv_def pool_add_def Let_def work_def nth_append less_Suc_eq
      dest: bspec split: prod.splits)

text \<open>The pool is a crew: whoever does not get something done in a turn has nothing to do.\<close>

definition crew_inv :: "('a \<Rightarrow> 'b) \<Rightarrow> 'a list \<Rightarrow> nat \<Rightarrow> ('a, 'b) task_pool \<Rightarrow> bool" where
  "crew_inv call args n p \<longleftrightarrow> pool_inv call args p \<and> length (crew p) = n \<and> 0 < n"

lemma crew_inv_step: "crew_inv call args n p \<Longrightarrow> crew_inv call args n (worker_step call i p)"
  by (simp add: crew_inv_def pool_inv_step)

lemma worker_idle_or_works:
  assumes "crew_inv call args n p"
  shows "worker_step call i p = p \<or> work (worker_step call i p) < work p"
proof -
  have nd: "\<not> done_flag p" "Exited \<notin> set (crew p)"
    using assms pool_inv_running by (auto simp: crew_inv_def)
  show ?thesis
    using nd
  proof (cases rule: worker_step_cases [of p call i])
    case (take k f ts)
    from work_step(2) [OF nd take(1), of call] take(3) show ?thesis by simp
  next
    case (finish k f)
    from work_step(2) [OF nd finish(1), of call] finish(2) show ?thesis by simp
  qed simp_all
qed

lemma someone_can_work:
  assumes "crew_inv call args n p" "0 < work p"
  shows "\<exists>i < n. work (worker_step call i p) < work p"
proof -
  have "\<exists>i < length (crew p). tasks p \<noteq> [] \<or> running (crew p ! i)"
  proof (cases "tasks p = []")
    case True
    with assms(2) have "filter running (crew p) \<noteq> []" by (simp add: work_def)
    then show ?thesis by (metis filter_False in_set_conv_nth)
  qed (use assms(1) in \<open>auto simp: crew_inv_def\<close>)
  then show ?thesis using work_step(2) pool_inv_running assms(1) unfolding crew_inv_def by blast
qed

interpretation sudoku_crew: work_crew "worker_step call" work "crew_inv call args n" n
  for call :: "'a \<Rightarrow> 'b" and args n
  by unfold_locales (fact crew_inv_step worker_idle_or_works someone_can_work)+

lemma pool_inv_run:
  assumes "pool_inv call args p"
  shows "pool_inv call args (run_workers call sched p)"
  using assms by (induction sched arbitrary: p) (simp_all add: run_workers_def pool_inv_step)

lemma fair_completes:
  assumes inv: "pool_inv call args p" and crew: "crew p \<noteq> []"
    and fair: "fair (length (crew p)) (2 * length args) sched" and k: "k < length args"
  shows "futures (run_workers call sched p) ! k = Some (call (args ! k))"
proof -
  let ?p = "run_workers call sched p"
  have "crew_inv call args (length (crew p)) p" using inv crew by (simp add: crew_inv_def)
  moreover have "work p \<le> 2 * length args" using inv by (simp add: pool_inv_def)
  ultimately have "work ?p = 0"
    unfolding run_workers_def using sudoku_crew.fair_finishes [OF _ fair] by blast
  then have "tasks ?p = []" "\<forall>w \<in> set (crew ?p). \<not> running w"
    by (simp_all add: work_def filter_empty_conv)
  then have "\<not> (\<exists>f. (k, f) \<in> set (tasks ?p) \<or> Running k f \<in> set (crew ?p))" by force
  moreover have "(\<forall>v. futures ?p ! k = Some v \<longrightarrow> v = call (args ! k)) \<and>
      (futures ?p ! k = None \<longrightarrow> (\<exists>f. (k, f) \<in> set (tasks ?p) \<or> Running k f \<in> set (crew ?p)))"
    using pool_inv_run [OF inv, of sched] k unfolding pool_inv_def by blast
  ultimately show ?thesis by (cases "futures ?p ! k") auto
qed

section \<open>What the program prints\<close>

text \<open>The lines of the files, up to the first file that cannot be opened.\<close>

fun job_lines :: "(string \<Rightarrow> string option) \<Rightarrow> string list \<Rightarrow> string list" where
  "job_lines files [] = []"
| "job_lines files (name # names) =
     (case files name of
        None \<Rightarrow> []
      | Some content \<Rightarrow> getlines (char_of (10 :: nat)) content @ job_lines files names)"

lemma submit_lines_inv:
  "pool_inv call args p \<Longrightarrow>
     \<exists>p'. submit_lines call turns lines res p = Inr (res @ [length args ..< length args + length lines], p') \<and>
       pool_inv call (args @ lines) p' \<and> length (crew p') = length (crew p)"
proof (induction lines arbitrary: args res p)
  case (Cons line lines)
  from pool_inv_add [OF Cons.prems, of line] obtain p1 where p1:
    "pool_add line p = Inr (length args, p1)" "pool_inv call (args @ [line]) p1" "crew p1 = crew p"
    by blast
  have "[length args ..< length args + length (line # lines)] =
      length args # [length (args @ [line]) ..< length (args @ [line]) + length lines]"
    by (simp add: upt_conv_Cons del: upt_Suc)
  with Cons.IH [OF pool_inv_run [OF p1(2)], of "res @ [length args]" "turns (length args)"] p1
  show ?case by (simp del: upt_Suc)
qed simp

lemma flush_prints:
  assumes "pool_inv call args p" "\<forall>k \<in> set res. k < length args" "flush res p out = (out', e)"
  shows "\<exists>outs. out' = out @ outs \<and> prefix (map Inr outs) (map (\<lambda>k. call (args ! k)) res) \<and>
    (e = Finished \<longrightarrow> map Inr outs = map (\<lambda>k. call (args ! k)) res)"
  using assms(2,3)
proof (induction res arbitrary: out)
  case (Cons k res)
  show ?case
  proof (cases "futures p ! k")
    case None
    with Cons.prems show ?thesis by auto
  next
    case (Some v)
    with assms(1) Cons.prems(1) have v: "v = call (args ! k)" by (auto simp: pool_inv_def)
    show ?thesis
    proof (cases v)
      case (Inl e)
      with Some Cons.prems show ?thesis by auto
    next
      case (Inr line)
      with Cons.IH [of "out @ [line]"] Cons.prems Some v show ?thesis by fastforce
    qed
  qed
qed simp

lemma map_nth_tail: "map (\<lambda>k. g ((args @ lines) ! k)) [length args ..< length args + length lines] = map g lines"
  by (rule nth_equalityI) (simp_all add: nth_append)

lemma main_loop_prints:
  assumes "pool_inv call args p" "main_loop call files turns waits names p out = (out', e)"
  shows "\<exists>outs. out' = out @ outs \<and> prefix (map Inr outs) (map call (job_lines files names)) \<and>
    (e = Finished \<longrightarrow> map Inr outs = map call (job_lines files names) \<and>
       (\<forall>name \<in> set names. files name \<noteq> None))"
  using assms
proof (induction names arbitrary: args p out)
  case (Cons name names)
  show ?case
  proof (cases "files name")
    case None
    with Cons.prems show ?thesis by (auto simp: process_file_by_line_def)
  next
    case (Some content)
    define lines where "lines = getlines (char_of (10 :: nat)) content"
    from submit_lines_inv [OF Cons.prems(1), of turns lines "[]"] obtain p1 where p1:
      "submit_lines call turns lines [] p = Inr ([length args ..< length args + length lines], p1)"
      "pool_inv call (args @ lines) p1" by auto
    define p2 where "p2 = run_workers call (waits (length (futures p1))) p1"
    have p2: "pool_inv call (args @ lines) p2" unfolding p2_def by (rule pool_inv_run [OF p1(2)])
    obtain out1 e1 where f: "flush [length args ..< length args + length lines] p2 out = (out1, e1)"
      by fastforce
    from flush_prints [OF p2 _ this] obtain outs where outs: "out1 = out @ outs"
      "prefix (map Inr outs) (map call lines)" "e1 = Finished \<longrightarrow> map Inr outs = map call lines"
      by (auto simp: map_nth_tail)
    have rest: "main_loop call files turns waits (name # names) p out =
        (if e1 = Finished then main_loop call files turns waits names p2 out1 else (out1, e1))"
      using Some p1 f by (cases e1) (simp_all add: process_file_by_line_def lines_def p2_def Let_def)
    show ?thesis
    proof (cases "e1 = Finished")
      case True
      with rest Cons.prems have "main_loop call files turns waits names p2 out1 = (out', e)" by simp
      from Cons.IH [OF p2 this] obtain outs' where "out' = out1 @ outs'"
        "prefix (map Inr outs') (map call (job_lines files names))"
        "e = Finished \<longrightarrow> map Inr outs' = map call (job_lines files names) \<and>
          (\<forall>name \<in> set names. files name \<noteq> None)" by blast
      with True outs Some show ?thesis
        by (intro exI [of _ "outs @ outs'"]) (simp add: lines_def)
    next
      case False
      with rest Cons.prems outs Some show ?thesis
        by (intro exI [of _ outs]) (auto simp: lines_def)
    qed
  qed
qed simp

text \<open>
  C32: Whatever the number of workers and however they are scheduled, the program prints the
  results of the lines of its files in their order: what it has printed when it stops is a
  prefix of them, and all of them when it ends normally.
\<close>

theorem output_in_file_order:
  assumes "sudoku_main n u files turns waits names = (out, e)"
  shows "prefix (map Inr out) (map (sudoku_task u) (job_lines files names)) \<and>
    (e = Finished \<longrightarrow> map Inr out = map (sudoku_task u) (job_lines files names))"
  using main_loop_prints [OF pool_inv_new assms [unfolded sudoku_main_def] ] by auto

theorem output_in_file_order_witness:
  "\<exists>out e. sudoku_main 2 (\<lambda>_ _. 0) [''a'' \<mapsto> sample_line @ char_of (10 :: nat) # sample_line]
      (\<lambda>_. []) (\<lambda>_. [0, 1, 1, 0, 0]) [''a'', ''b''] = (out, e) \<and>
    prefix (map Inr out) (map (sudoku_task (\<lambda>_ _. 0)) (job_lines
      [''a'' \<mapsto> sample_line @ char_of (10 :: nat) # sample_line] [''a'', ''b'']))"
  using output_in_file_order by (metis surj_pair)

lemma flush_completes:
  "\<forall>k \<in> set res. \<exists>line. futures p ! k = Some (Inr line) \<Longrightarrow> \<exists>out'. flush res p out = (out', Finished)"
  by (induction res arbitrary: out) auto

lemma main_loop_finishes:
  assumes "pool_inv call args p" "0 < length (crew p)" "\<forall>k. fair (length (crew p)) (2 * k) (waits k)"
    "\<forall>name \<in> set names. files name \<noteq> None"
    "\<forall>line \<in> set (job_lines files names). \<exists>s. call line = Inr s"
  shows "\<exists>out'. main_loop call files turns waits names p out = (out', Finished)"
  using assms
proof (induction names arbitrary: args p out)
  case (Cons name names)
  then obtain content where Some: "files name = Some content" by auto
  define lines where "lines = getlines (char_of (10 :: nat)) content"
  from submit_lines_inv [OF Cons.prems(1), of turns lines "[]"] obtain p1 where p1:
    "submit_lines call turns lines [] p = Inr ([length args ..< length args + length lines], p1)"
    "pool_inv call (args @ lines) p1" "length (crew p1) = length (crew p)" by auto
  define p2 where "p2 = run_workers call (waits (length (futures p1))) p1"
  have p2: "pool_inv call (args @ lines) p2" "length (crew p2) = length (crew p)"
    unfolding p2_def using pool_inv_run [OF p1(2)] p1(3) by simp_all
  have len: "length (futures p1) = length (args @ lines)" using p1(2) by (simp add: pool_inv_def)
  have good: "\<forall>line \<in> set lines. \<exists>s. call line = Inr s"
    using Cons.prems(5) Some by (simp add: lines_def)
  have fair: "fair (length (crew p1)) (2 * length (args @ lines)) (waits (length (futures p1)))"
    unfolding len p1(3) using Cons.prems(3) by blast
  have "crew p1 \<noteq> []" using Cons.prems(2) p1(3) by auto
  note fut = fair_completes [OF p1(2) this fair, folded p2_def]
  have "\<forall>k \<in> set [length args ..< length args + length lines]. \<exists>line. futures p2 ! k = Some (Inr line)"
    using fut good by (auto simp: nth_append)
  from flush_completes [OF this] obtain out1 where
    f: "flush [length args ..< length args + length lines] p2 out = (out1, Finished)" by blast
  have "main_loop call files turns waits (name # names) p out =
      main_loop call files turns waits names p2 out1"
    using Some p1 f by (simp add: process_file_by_line_def lines_def p2_def Let_def)
  with Cons.IH [OF p2(1), of out1] p2(2) Cons.prems Some show ?case by simp
qed simp

text \<open>
  C33: The program comes to its end: with at least one worker, workers that keep getting
  turns, files that can be opened and lines of 81 digits, every result is waited for
  successfully and all of them are printed.
\<close>

theorem all_lines_answered:
  assumes "0 < n" "\<forall>k. fair n (2 * k) (waits k)" "\<forall>name \<in> set names. files name \<noteq> None"
    "\<forall>line \<in> set (job_lines files names). length line = 81 \<and> (\<forall>ch \<in> set line. is_digit ch)"
  shows "\<exists>out. sudoku_main n u files turns waits names = (out, Finished) \<and>
    length out = length (job_lines files names)"
proof -
  have "\<exists>s. sudoku_task u line = Inr s" if l: "line \<in> set (job_lines files names)" for line
  proof -
    obtain b where "deserialize_board line u = Inr b"
      using deserialize_digits [of line u] assms(4) l by blast
    then show ?thesis
      by (cases "solve_sudoku_basic b"; cases "fst (solve_sudoku_basic b)") (simp_all add: sudoku_task_def)
  qed
  then obtain out where out: "sudoku_main n u files turns waits names = (out, Finished)"
    using main_loop_finishes [OF pool_inv_new [of _ n], of waits names files _ turns "[]"] assms(1-3)
    unfolding sudoku_main_def by (fastforce simp: new_pool_def)
  from main_loop_prints [OF pool_inv_new this [unfolded sudoku_main_def] ]
  have "map Inr out = map (sudoku_task u) (job_lines files names)" by auto
  then have "length out = length (job_lines files names)" by (metis length_map)
  with out show ?thesis by blast
qed

text \<open>Without workers nothing is ever answered: \<^verbatim>\<open>hardware_concurrency()\<close> may return 0.\<close>

lemma no_worker_no_turn: "crew p = [] \<Longrightarrow> run_workers call sched p = p"
  by (induction sched) (simp_all add: run_workers_def worker_step_def)

lemma no_worker_no_answer:
  assumes "files name = Some (c # content)"
  shows "sudoku_main 0 u files turns waits (name # names) = ([], Waiting_For_Result)"
proof -
  obtain line lines where l: "getlines (char_of (10 :: nat)) (c # content) = line # lines"
    by (metis getlines_eq_Nil list.distinct(1) list.exhaust)
  have submit: "\<exists>p'. submit_lines call turns ls res p = Inr (res @ [length (futures p) ..< length (futures p) + length ls], p') \<and>
      crew p' = [] \<and> futures p' = futures p @ replicate (length ls) None"
    if "crew p = []" "\<not> done_flag p" for ls res p and call :: "string \<Rightarrow> string result"
    using that
  proof (induction ls arbitrary: res p)
    case (Cons a ls)
    let ?p = "p\<lparr>futures := futures p @ [None], tasks := tasks p @ [(length (futures p), a)]\<rparr>"
    from Cons.IH [of ?p "res @ [length (futures p)]"] Cons.prems
    show ?case by (simp add: pool_add_def Let_def no_worker_no_turn upt_conv_Cons del: upt_Suc)
  qed simp
  from submit [of "new_pool 0" "sudoku_task u" "line # lines" "[]"] assms l show ?thesis
    by (auto simp: sudoku_main_def process_file_by_line_def new_pool_def no_worker_no_turn Let_def
        upt_conv_Cons simp del: upt_Suc)
qed

theorem all_lines_answered_witness:
  "\<exists>out. sudoku_main 2 (\<lambda>_ _. 0) [''a'' \<mapsto> sample_line] (\<lambda>_. [])
      (\<lambda>k. concat (replicate (2 * k) [0, 1])) [''a''] = (out, Finished) \<and> length out = 1"
proof -
  have lines: "job_lines [''a'' \<mapsto> sample_line] [''a''] = [sample_line]" by code_simp
  have "[0..<2] = [0, 1 :: nat]" by code_simp
  then have "fair 2 (2 * k) (concat (replicate (2 * k) [0, 1]))" for k
    using fair_replicate [of 2 "2 * k"] by simp
  with all_lines_answered [of 2 "\<lambda>k. concat (replicate (2 * k) [0, 1])" "[''a'']"
      "[''a'' \<mapsto> sample_line]" "\<lambda>_ _. 0" "\<lambda>_. []"]
  show ?thesis using lines sample_line_ok by simp
qed

end
