(* ===== verification/Http_Message.thy ===== *)
theory Http_Message
  imports Cpp_Prelude
begin

text \<open>
  The lower half of the HTTP server of Lab2: the messages and their serialisation
  (\<^verbatim>\<open>message.h\<close>, \<^verbatim>\<open>message.cc\<close>), the reading and writing loops of its sockets
  (\<^verbatim>\<open>tcp_socket.cc\<close>), and the string helpers of \<^verbatim>\<open>server.cc\<close>.
\<close>

section \<open>Messages\<close>

definition LINE_END :: string where
  "LINE_END = [CHR 0x0D, CHR 0x0A]"

text \<open>
  \<open>Headers\<close> is a \<^verbatim>\<open>std::unordered_map\<close>, whose order of iteration the C++ standard leaves open:
  it is the argument \<open>order\<close>, which lists the keys of a map.
\<close>

type_synonym headers = "string \<rightharpoonup> string"
type_synonym key_order = "headers \<Rightarrow> string list"

definition iterates :: "key_order \<Rightarrow> bool" where
  "iterates order \<longleftrightarrow> (\<forall>m. finite (dom m) \<longrightarrow> distinct (order m) \<and> set (order m) = dom m)"

definition serialize_headers :: "key_order \<Rightarrow> headers \<Rightarrow> string" where
  "serialize_headers order m =
     foldl (\<lambda>str k. str @ k @ '': '' @ the (m k) @ LINE_END) [] (order m)"

record http_message =
  version :: string
  req_method :: string
  headers :: headers
  body :: string

record request = http_message +
  resource :: string

record response = http_message +
  status_code :: nat
  status :: string

definition new_request :: request where
  "new_request = \<lparr>version = ''HTTP/1.1'', req_method = [], headers = Map.empty, body = [], resource = []\<rparr>"

definition new_response :: response where
  "new_response =
     \<lparr>version = ''HTTP/1.1'', req_method = [], headers = Map.empty, body = [],
      status_code = 0, status = []\<rparr>"

definition serialize_request :: "key_order \<Rightarrow> request \<Rightarrow> string" where
  "serialize_request order r =
     req_method r @ '' '' @ resource r @ version r @ LINE_END @
     serialize_headers order (headers r) @ LINE_END @
     body r @ LINE_END"

definition serialize_response :: "key_order \<Rightarrow> response \<Rightarrow> string" where
  "serialize_response order r =
     version r @ '' '' @ to_string (status_code r) @ '' '' @ status r @ LINE_END @
     serialize_headers order (headers r) @ LINE_END @
     body r @ LINE_END"

section \<open>Sockets\<close>

text \<open>
  A connected \<^verbatim>\<open>TCPSocket\<close> with what the kernel will do: the bytes that will still arrive,
  whether an error rather than the end of the stream follows them, how many bytes each call
  of \<^verbatim>\<open>::recv\<close> finds ready (\<open>Suc l\<close> for an entry \<open>l\<close>; all that is asked for once the list is
  used up) and what each call of \<^verbatim>\<open>::send\<close> does (everything is accepted once the list is used
  up); and what has been sent. \<open>Gone\<close> is a send to a client that has closed its connection: the
  socket is used without \<^verbatim>\<open>MSG_NOSIGNAL\<close> and no handler is installed, so \<^verbatim>\<open>SIGPIPE\<close> ends the
  process; any other failure is \<open>Failed\<close>, and \<open>send\<close> returns -1.
\<close>

datatype send_outcome = Accepted nat | Interrupted | Failed | Gone

record tcp_socket =
  incoming :: string
  broken :: bool
  ready :: "nat list"
  send_outcomes :: "send_outcome list"
  outgoing :: string
  is_open :: bool

definition close_sock :: "tcp_socket \<Rightarrow> tcp_socket" where
  "close_sock s = (if is_open s then s\<lparr>is_open := False\<rparr> else s)"

text \<open>The loop of \<open>send\<close>: how many bytes were sent, or \<open>None\<close> for -1.\<close>

fun send_loop ::
    "string \<Rightarrow> send_outcome list \<Rightarrow> string \<Rightarrow> (nat option \<times> string \<times> send_outcome list) result" where
  "send_loop [] os sent = Inr (Some (length sent), sent, os)"
| "send_loop data [] sent = Inr (Some (length sent + length data), sent @ data, [])"
| "send_loop data (Accepted n # os) sent =
     send_loop (drop (Suc n) data) os (sent @ take (Suc n) data)"
| "send_loop data (Interrupted # os) sent = send_loop data os sent"
| "send_loop data (Failed # os) sent = Inr (None, sent, os)"
| "send_loop data (Gone # os) sent = Inl (Undefined ''SIGPIPE'')"

definition send :: "string \<Rightarrow> tcp_socket \<Rightarrow> (nat option \<times> tcp_socket) result" where
  "send data s =
     res_bind (send_loop data (send_outcomes s) [])
       (\<lambda>(rc, sent, os). Inr (rc, s\<lparr>outgoing := outgoing s @ sent, send_outcomes := os\<rparr>))"

text \<open>\<open>recv\<close>: \<open>None\<close> for -1, no byte at the end of the stream, otherwise some of the bytes.\<close>

definition recv :: "nat \<Rightarrow> tcp_socket \<Rightarrow> string option \<times> tcp_socket" where
  "recv buffer_size s =
     (if incoming s = [] then (if broken s then None else Some [], s)
      else
        let n = (case ready s of [] \<Rightarrow> buffer_size | l # _ \<Rightarrow> min buffer_size (Suc l))
        in (Some (take n (incoming s)), s\<lparr>incoming := drop n (incoming s), ready := tl (ready s)\<rparr>))"

text \<open>
  \<open>recv_bytes\<close>: what it has put into the buffer, and its return value (\<open>None\<close> for -1).
\<close>

function recv_bytes_loop ::
  "nat \<Rightarrow> string \<Rightarrow> tcp_socket \<Rightarrow> nat option \<times> string \<times> tcp_socket" where
  "recv_bytes_loop nleft got s =
     (if nleft = 0 then (Some (length got), got, s)
      else case recv nleft s of
             (None, s') \<Rightarrow> (None, got, s')
           | (Some [], s') \<Rightarrow> (Some (length got), got, s')
           | (Some (c # cs), s') \<Rightarrow>
               recv_bytes_loop (nleft - length (c # cs)) (got @ c # cs) s')"
  by pat_completeness auto
termination by (relation "measure fst") auto

definition recv_bytes :: "nat \<Rightarrow> tcp_socket \<Rightarrow> nat option \<times> string \<times> tcp_socket" where
  "recv_bytes n s = recv_bytes_loop n [] s"

text \<open>\<open>recv_line\<close> reads byte by byte; it keeps the line end and forgets the line on an error.\<close>

function recv_line_loop :: "string \<Rightarrow> tcp_socket \<Rightarrow> string \<times> tcp_socket" where
  "recv_line_loop ss s =
     (case recv 1 s of
        (Some [c], s') \<Rightarrow>
          if c = CHR 0x0A then (ss @ [c], s') else recv_line_loop (ss @ [c]) s'
      | (Some [], s') \<Rightarrow> (ss, s')
      | (_, s') \<Rightarrow> ([], s'))"
  by pat_completeness auto
termination
  by (relation "measure (\<lambda>(_, s). length (incoming s))")
     (auto simp: recv_def Let_def split: if_splits list.splits)

definition recv_line :: "tcp_socket \<Rightarrow> string \<times> tcp_socket" where
  "recv_line s = recv_line_loop [] s"

section \<open>String helpers\<close>

text \<open>\<open>split\<close>; every call passes a delimiter of one character.\<close>

function split :: "string \<Rightarrow> char \<Rightarrow> string list" where
  "split str delim =
     (if delim \<in> set str
      then takeWhile (\<lambda>c. c \<noteq> delim) str # split (tl (dropWhile (\<lambda>c. c \<noteq> delim) str)) delim
      else if str \<noteq> [] then [str] else [])"
  by pat_completeness auto
termination
proof (relation "measure (\<lambda>(str, _). length str)")
  fix str :: string and delim
  assume "delim \<in> set str"
  then have "dropWhile (\<lambda>c. c \<noteq> delim) str \<noteq> []" by (auto simp: dropWhile_eq_Nil_conv)
  then have "length (tl (dropWhile (\<lambda>c. c \<noteq> delim) str)) < length (dropWhile (\<lambda>c. c \<noteq> delim) str)"
    by simp
  also have "\<dots> \<le> length str" by (rule length_dropWhile_le)
  finally show "((tl (dropWhile (\<lambda>c. c \<noteq> delim) str), delim), (str, delim))
      \<in> measure (\<lambda>(str, _). length str)" by simp
qed simp

declare split.simps [simp del] recv_line_loop.simps [simp del] recv_bytes_loop.simps [simp del]

definition concat_strs :: "string list \<Rightarrow> string \<Rightarrow> string result" where
  "concat_strs strs delim =
     (case strs of
        [] \<Rightarrow> Inl (Undefined ''assert !strs.empty()'')
      | s # rest \<Rightarrow> Inr (foldl (\<lambda>ss t. ss @ delim @ t) s rest))"

text \<open>
  \<open>trim_trailing_slash\<close> calls \<^verbatim>\<open>back()\<close> on the empty string when all characters are slashes.
\<close>

fun trim_slashes :: "string \<Rightarrow> string result" where
  "trim_slashes s =
     (if s = [] then Inl (Undefined ''back() of an empty string'')
      else if last s = CHR ''/'' then trim_slashes (butlast s)
      else Inr s)"

definition trim_trailing_slash :: "string \<Rightarrow> string result" where
  "trim_trailing_slash s = (if s = [] then Inr s else trim_slashes s)"

definition is_blank :: "char \<Rightarrow> bool" where
  "is_blank c \<longleftrightarrow> c = CHR '' '' \<or> c = CHR 0x09 \<or> c = CHR 0x0D \<or> c = CHR 0x0A"

text \<open>
  \<open>trim_whitespace\<close>. On an empty string \<^verbatim>\<open>s[0]\<close> is the NUL character, which ends the first loop;
  the second loop runs on a string whose first character is not blank, so that it never
  reaches the empty string.
\<close>

fun trim_front :: "string \<Rightarrow> string" where
  "trim_front [] = []"
| "trim_front (c # s) = (if is_blank c then trim_front s else c # s)"

fun trim_back :: "string \<Rightarrow> string" where
  "trim_back s = (if s \<noteq> [] \<and> is_blank (last s) then trim_back (butlast s) else s)"

definition trim_whitespace :: "string \<Rightarrow> string" where
  "trim_whitespace s = (let s' = trim_front s in if s' = [] then s' else trim_back s')"

declare trim_slashes.simps [simp del] trim_back.simps [simp del]

section \<open>Facts about the loops and helpers\<close>

lemma send_loop_all:
  "Failed \<notin> set os \<Longrightarrow> Gone \<notin> set os \<Longrightarrow>
     \<exists>os'. send_loop data os sent = Inr (Some (length sent + length data), sent @ data, os')"
proof (induction data os sent rule: send_loop.induct)
  case (3 c data n os sent)
  then show ?case by (auto simp: min_def not_le)
qed auto

lemma send_all:
  assumes "Failed \<notin> set (send_outcomes s)" "Gone \<notin> set (send_outcomes s)"
  shows "\<exists>os. send data s =
    Inr (Some (length data), s\<lparr>outgoing := outgoing s @ data, send_outcomes := os\<rparr>)"
proof -
  from send_loop_all [OF assms, of data "[]"] obtain os where
    "send_loop data (send_outcomes s) [] = Inr (Some (length data), data, os)" by auto
  then show ?thesis by (auto simp: send_def)
qed

text \<open>Without a client that is gone a send comes back.\<close>

lemma send_loop_returns: "Gone \<notin> set os \<Longrightarrow> send_loop data os sent \<noteq> Inl e"
  by (induction data os sent rule: send_loop.induct) auto

lemma send_returns:
  assumes "Gone \<notin> set (send_outcomes s)"
  obtains rc s' where "send data s = Inr (rc, s')"
proof (cases "send_loop data (send_outcomes s) []")
  case (Inl e)
  with send_loop_returns [OF assms] show thesis by blast
next
  case (Inr x)
  with that show thesis by (cases x) (simp add: send_def)
qed

text \<open>What has been read is taken off the incoming bytes; nothing else of the socket changes.\<close>

definition rest_of :: "tcp_socket \<Rightarrow> string \<Rightarrow> tcp_socket \<Rightarrow> bool" where
  "rest_of s r s' \<longleftrightarrow> (\<exists>l. s' = s\<lparr>incoming := r, ready := l\<rparr>)"

lemma rest_of_trans: "rest_of s r s' \<Longrightarrow> rest_of s' r' s'' \<Longrightarrow> rest_of s r' s''"
  by (auto simp: rest_of_def)

lemma rest_of_fields:
  "rest_of s r s' \<Longrightarrow> incoming s' = r \<and> broken s' = broken s \<and> outgoing s' = outgoing s \<and>
     send_outcomes s' = send_outcomes s \<and> is_open s' = is_open s"
  by (auto simp: rest_of_def)

lemma recv_one:
  "incoming s = c # r \<Longrightarrow> \<exists>s'. recv 1 s = (Some [c], s') \<and> rest_of s r s'"
  by (auto simp: recv_def rest_of_def Let_def split: list.splits)

lemma recv_line_loop_line:
  "incoming s = w @ CHR 0x0A # r \<Longrightarrow> CHR 0x0A \<notin> set w \<Longrightarrow>
     \<exists>s'. recv_line_loop ss s = (ss @ w @ [CHR 0x0A], s') \<and> rest_of s r s'"
proof (induction w arbitrary: ss s)
  case Nil
  then obtain s' where "recv 1 s = (Some [CHR 0x0A], s')" "rest_of s r s'"
    using recv_one by fastforce
  then show ?case by (subst recv_line_loop.simps) simp
next
  case (Cons c w)
  then obtain s' where s': "recv 1 s = (Some [c], s')" "rest_of s (w @ CHR 0x0A # r) s'"
    using recv_one [of s c] by fastforce
  from Cons.IH [of s' "ss @ [c]"] rest_of_fields [OF s'(2)] Cons.prems obtain s'' where
    "recv_line_loop (ss @ [c]) s' = (ss @ c # w @ [CHR 0x0A], s'')" "rest_of s' r s''" by auto
  with s' Cons.prems rest_of_trans show ?case by (subst recv_line_loop.simps) fastforce
qed

lemma recv_line_line:
  "incoming s = w @ CHR 0x0A # r \<Longrightarrow> CHR 0x0A \<notin> set w \<Longrightarrow>
     \<exists>s'. recv_line s = (w @ [CHR 0x0A], s') \<and> rest_of s r s'"
  using recv_line_loop_line [of s w r "[]"] by (simp add: recv_line_def)

lemma recv_line_loop_end:
  "CHR 0x0A \<notin> set (incoming s) \<Longrightarrow>
     \<exists>s'. recv_line_loop ss s = (if broken s then [] else ss @ incoming s, s') \<and> rest_of s [] s'"
proof (induction "incoming s" arbitrary: ss s)
  case Nil
  then have "rest_of s [] s" unfolding rest_of_def by (metis tcp_socket.surjective tcp_socket.update_convs(1,3))
  with Nil show ?case by (subst recv_line_loop.simps) (auto simp: recv_def)
next
  case (Cons c w)
  note inc = Cons.hyps(2) [symmetric]
  obtain s' where s': "recv 1 s = (Some [c], s')" "rest_of s w s'"
    using recv_one [OF inc] by blast
  have fields: "w = incoming s'" "broken s' = broken s" using rest_of_fields [OF s'(2)] by simp_all
  have c: "c \<noteq> CHR 0x0A" "CHR 0x0A \<notin> set (incoming s')" using Cons.prems inc fields by auto
  from Cons.hyps(1) [OF fields(1) c(2), of "ss @ [c]"] obtain s'' where
    "recv_line_loop (ss @ [c]) s' = (if broken s then [] else ss @ c # w, s'')" "rest_of s' [] s''"
    using fields by auto
  with s' c(1) inc rest_of_trans [OF s'(2)] show ?case
    by (subst recv_line_loop.simps) auto
qed

lemma recv_line_end:
  "CHR 0x0A \<notin> set (incoming s) \<Longrightarrow>
     \<exists>s'. recv_line s = (if broken s then [] else incoming s, s') \<and> rest_of s [] s'"
  using recv_line_loop_end [of s "[]"] by (cases "broken s") (auto simp: recv_line_def)

lemma recv_bytes_loop_all:
  "n \<le> length (incoming s) \<Longrightarrow>
     \<exists>s'. recv_bytes_loop n got s = (Some (length got + n), got @ take n (incoming s), s') \<and>
       rest_of s (drop n (incoming s)) s'"
proof (induction n arbitrary: got s rule: less_induct)
  case (less n)
  show ?case
  proof (cases "n = 0")
    case True
    have "rest_of s (incoming s) s"
      unfolding rest_of_def by (metis tcp_socket.surjective tcp_socket.update_convs(1,3))
    with True show ?thesis by (subst recv_bytes_loop.simps) simp
  next
    case False
    define k where "k = (case ready s of [] \<Rightarrow> n | l # _ \<Rightarrow> min n (Suc l))"
    define s1 where "s1 = s\<lparr>incoming := drop k (incoming s), ready := tl (ready s)\<rparr>"
    have k: "0 < k" "k \<le> n" using False by (auto simp: k_def split: list.splits)
    have ne: "incoming s \<noteq> []" using less.prems False by auto
    then have r: "recv n s = (Some (take k (incoming s)), s1)" "rest_of s (drop k (incoming s)) s1"
      by (auto simp: recv_def k_def s1_def Let_def rest_of_def)
    obtain c cs where cs: "take k (incoming s) = c # cs" using k ne by (cases "take k (incoming s)") auto
    have len: "length (c # cs) = k" using k less.prems cs by (metis length_take min.absorb2 order.trans)
    have inc: "incoming s1 = drop k (incoming s)" by (simp add: s1_def)
    have "n - k < n" "n - k \<le> length (incoming s1)" using k less.prems by (simp_all add: s1_def)
    from less.IH [OF this, of "got @ c # cs", unfolded inc] obtain s2 where
      "recv_bytes_loop (n - k) (got @ c # cs) s1 =
         (Some (length (got @ c # cs) + (n - k)), (got @ c # cs) @ take (n - k) (drop k (incoming s)), s2)"
      "rest_of s1 (drop (n - k) (drop k (incoming s))) s2" by blast
    moreover have "c # cs @ take (n - k) (drop k (incoming s)) = take n (incoming s)"
      using cs k(2) by (metis append_Cons le_add_diff_inverse take_add)
    ultimately show ?thesis
      using False r rest_of_trans [OF r(2)] cs len k by (subst recv_bytes_loop.simps) auto
  qed
qed

lemma recv_bytes_all:
  "n \<le> length (incoming s) \<Longrightarrow>
     \<exists>s'. recv_bytes n s = (Some n, take n (incoming s), s') \<and> rest_of s (drop n (incoming s)) s'"
  using recv_bytes_loop_all [of n s "[]"] by (auto simp: recv_bytes_def)

lemma split_getlines: "split s d = getlines d s"
proof (induction s d rule: split.induct)
  case (1 s d)
  show ?case
  proof (cases "d \<in> set s")
    case True
    then obtain w r where s: "s = w @ d # r" "d \<notin> set w" by (meson split_list_first)
    with 1 True show ?thesis
      by (subst split.simps) (simp add: getlines_delim takeWhile_append_stop dropWhile_append_stop)
  next
    case False
    then show ?thesis by (subst split.simps) (simp add: getlines_no_delim)
  qed
qed

lemma concat_strs_join:
  assumes "strs \<noteq> []"
  shows "concat_strs strs d = Inr (join d strs)"
proof -
  have "foldl (\<lambda>ss t. ss @ d @ t) (a @ s) rest = a @ join d (s # rest)" for a s rest
  proof (induction rest arbitrary: a s)
    case (Cons t rest)
    from Cons.IH [of "a @ s @ d" t] show ?case by simp
  qed simp
  from this [of "[]"] assms show ?thesis by (cases strs) (simp_all add: concat_strs_def)
qed

text \<open>A string that trimming leaves alone.\<close>

definition tidy :: "string \<Rightarrow> bool" where
  "tidy s \<longleftrightarrow> s \<noteq> [] \<and> \<not> is_blank (hd s) \<and> \<not> is_blank (last s)"

lemma trim_front_append: "\<forall>c \<in> set pre. is_blank c \<Longrightarrow> tidy s \<Longrightarrow> trim_front (pre @ s @ t) = s @ t"
  by (induction pre; cases s) (auto simp: tidy_def)

lemma trim_back_append: "\<forall>c \<in> set post. is_blank c \<Longrightarrow> tidy s \<Longrightarrow> trim_back (s @ post) = s"
proof (induction post rule: rev_induct)
  case Nil
  then show ?case by (subst trim_back.simps) (simp add: tidy_def)
next
  case (snoc c post)
  then show ?case by (subst trim_back.simps) (simp add: butlast_append)
qed

lemma trim_whitespace_tidy:
  "\<forall>c \<in> set pre \<union> set post. is_blank c \<Longrightarrow> tidy s \<Longrightarrow> trim_whitespace (pre @ s @ post) = s"
  by (simp add: trim_whitespace_def trim_front_append trim_back_append Let_def)

lemma trim_tidy [simp]: "tidy s \<Longrightarrow> trim_whitespace s = s"
  using trim_whitespace_tidy [of "[]" "[]" s] by simp

lemma digit_not_blank: "is_digit c \<Longrightarrow> \<not> is_blank c"
  by (auto simp: is_digit_iff is_blank_def)

lemma tidy_to_string [simp]: "tidy (to_string n)"
  using to_string_digits [of n] digit_not_blank by (simp add: tidy_def)

end
