(* ===== verification/Http_Server.thy ===== *)
theory Http_Server
  imports Http_Message
begin

text \<open>
  The HTTP server of Lab2 (\<^verbatim>\<open>server.cc\<close>): how a worker serves one connection. The file system
  is the argument \<open>files\<close> (the contents of the files that can be opened), \<open>order\<close> the order in
  which header maps are iterated, and \<open>alloc\<close> the allocator (the uninitialised contents of a
  new buffer, or none when it throws). Log messages are left out.
\<close>

section \<open>Parsing\<close>

definition server_name :: string where
  "server_name = ''Cloud-fantasy server''"

text \<open>The constructor: the base directory; a missing one ends the program.\<close>

definition new_server :: "string \<Rightarrow> (string \<Rightarrow> bool) \<Rightarrow> string \<Rightarrow> string result" where
  "new_server cwd existing content_base =
     (if content_base = [] then Inr cwd
      else if \<not> existing content_base then Inl (Undefined ''abort'')
      else trim_trailing_slash content_base)"

definition parse_req_line :: "string \<Rightarrow> (string \<times> string \<times> string) option" where
  "parse_req_line line =
     (case split (trim_whitespace line) (CHR '' '') of
        [meth, uri, ver] \<Rightarrow> Some (meth, uri, ver)
      | _ \<Rightarrow> None)"

definition parse_header :: "string \<Rightarrow> headers \<Rightarrow> headers result" where
  "parse_header hd_line m =
     (let kv = split (trim_whitespace hd_line) (CHR '':'')
      in if length kv > 2 then
           res_bind (concat_strs (tl kv) '':'')
             (\<lambda>value. Inr (m(trim_whitespace (kv ! 0) \<mapsto> trim_whitespace value)))
         else if length kv < 2 then Inr m
         else Inr (m(trim_whitespace (kv ! 0) \<mapsto> trim_whitespace (kv ! 1))))"

definition parse_headers :: "string \<Rightarrow> headers result" where
  "parse_headers str =
     foldl (\<lambda>m hd_line. res_bind m (parse_header hd_line)) (Inr Map.empty) (split str (CHR 0x0A))"

text \<open>The name of the file behind a resource; the empty name for one that is refused.\<close>

definition parse_uri :: "string \<Rightarrow> string \<Rightarrow> string result" where
  "parse_uri content_base uri =
     (let normalized =
        (if length uri > 2 \<and> uri ! 0 = CHR ''.'' \<and> uri ! 1 = CHR ''/'' then drop 1 uri else uri)
      in if normalized \<noteq> [] \<and> normalized ! 0 \<noteq> CHR ''/'' then Inr []
         else
           let f = content_base @ normalized
           in if f = [] then Inl (Undefined ''back() of an empty string'')
              else if last f = CHR ''/'' then Inr (f @ ''index.html'')
              else Inr f)"

definition parse_pair :: "(string \<rightharpoonup> string) \<Rightarrow> string \<Rightarrow> (string \<rightharpoonup> string)" where
  "parse_pair m pair =
     (case split pair (CHR ''='') of
        [k, v] \<Rightarrow> m(trim_whitespace k \<mapsto> trim_whitespace v)
      | _ \<Rightarrow> m)"

definition parse_name_id :: "string \<Rightarrow> (string \<rightharpoonup> string)" where
  "parse_name_id form = foldl parse_pair Map.empty (split form (CHR ''&''))"

section \<open>Answers\<close>

definition html_headers :: "string \<Rightarrow> headers" where
  "html_headers content =
     [''Server'' \<mapsto> server_name, ''Content-type'' \<mapsto> ''text/html'',
      ''Content-length'' \<mapsto> to_string (length content)]"

definition html_response :: "nat \<Rightarrow> string \<Rightarrow> string \<Rightarrow> response" where
  "html_response code text content =
     new_response\<lparr>status_code := code, status := text, headers := html_headers content,
       body := content\<rparr>"

text \<open>What \<open>send\<close> returns is not looked at.\<close>

definition send_response :: "key_order \<Rightarrow> response \<Rightarrow> tcp_socket \<Rightarrow> tcp_socket result" where
  "send_response order res s = res_bind (send (serialize_response order res) s) (\<lambda>(rc, s'). Inr s')"

definition send_and_close :: "key_order \<Rightarrow> response \<Rightarrow> tcp_socket \<Rightarrow> tcp_socket result" where
  "send_and_close order res s = res_bind (send_response order res s) (\<lambda>s'. Inr (close_sock s'))"

definition not_found_page :: "string \<Rightarrow> string" where
  "not_found_page f =
     ''<html><title>404 Not Found</title><body bgcolor='' @ [CHR 0x22] @ ''FFFFFF'' @ [CHR 0x22] @ ''>'' @ LINE_END @
     '' Not Found'' @ LINE_END @
     ''<p>Couldn'' @ [CHR 0x27] @ ''t find this file: '' @ f @ LINE_END @
     ''<hr><em>HTTP Web server</em>'' @ LINE_END @
     ''</body></html>'' @ LINE_END"

definition page_not_found :: "key_order \<Rightarrow> string \<Rightarrow> tcp_socket \<Rightarrow> tcp_socket result" where
  "page_not_found order f s =
     send_and_close order (html_response 404 ''Page Not Found'' (not_found_page f)) s"

definition internal_error :: "key_order \<Rightarrow> string \<Rightarrow> tcp_socket \<Rightarrow> tcp_socket result" where
  "internal_error order msg s =
     send_and_close order (html_response 501 ''Not Implemented'' msg) s"

definition version_not_supported :: "key_order \<Rightarrow> tcp_socket \<Rightarrow> tcp_socket result" where
  "version_not_supported order s =
     internal_error order
       (''<html><title>HTTP version not supported</title>'' @
        ''<body>'' @ LINE_END @ ''<p>Unsupported HTTP version</p>'' @
        ''</body></html>'' @ LINE_END) s"

definition method_not_supported :: "key_order \<Rightarrow> string \<Rightarrow> tcp_socket \<Rightarrow> tcp_socket result" where
  "method_not_supported order m s =
     internal_error order
       (''<html><title>501 Not implemented</title>'' @
        ''<body>'' @ LINE_END @ '' Not Implemented'' @ LINE_END @
        ''<p>Does not implement this method: '' @ m @ LINE_END @
        ''<hr><em>HTTP Web server</em>'' @ LINE_END @
        ''</body></html>'' @ LINE_END) s"

definition form_page :: "string \<Rightarrow> string \<Rightarrow> string" where
  "form_page name id_text =
     ''<html><title>POST method</title><body bgcolor=ffffff>'' @ LINE_END @
     ''Your Name:   '' @ name @ LINE_END @
     ''ID:  '' @ id_text @ LINE_END @
     ''<hr><em>Http Web server</em>'' @ LINE_END @
     ''</body></html>'' @ LINE_END"

text \<open>The handlers; the socket of \<open>handle_get\<close> is closed by its destructor.\<close>

definition handle_get ::
  "key_order \<Rightarrow> (string \<Rightarrow> string option) \<Rightarrow> string \<Rightarrow> request \<Rightarrow> tcp_socket \<Rightarrow> tcp_socket result" where
  "handle_get order files content_base req s =
     res_bind (parse_uri content_base (resource req))
       (\<lambda>filename. case files filename of
          None \<Rightarrow> page_not_found order (resource req) s
        | Some content \<Rightarrow> send_and_close order (html_response 200 ''OK'' content) s)"

definition handle_post :: "key_order \<Rightarrow> request \<Rightarrow> tcp_socket \<Rightarrow> tcp_socket result" where
  "handle_post order req s =
     (let form = parse_name_id (body req)
      in if resource req \<noteq> ''/Post_show'' \<or> form ''Name'' = None \<or> form ''ID'' = None
         then page_not_found order (resource req) s
         else send_and_close order
                (html_response 200 ''OK'' (form_page (the (form ''Name'')) (the (form ''ID'')))) s)"

section \<open>Serving a connection\<close>

definition content_lens :: "string list" where
  "content_lens = [''content-length'', ''Content-Length'', ''Content-length'']"

text \<open>
  \<open>recv_body\<close> looks for three spellings of the length. It copies the whole buffer, also when
  fewer bytes than announced have arrived.
\<close>

definition recv_body ::
  "(nat \<Rightarrow> string option) \<Rightarrow> request \<Rightarrow> tcp_socket \<Rightarrow> (request \<times> tcp_socket) result" where
  "recv_body alloc req s =
     (case find (\<lambda>CL. headers req CL \<noteq> None) content_lens of
        None \<Rightarrow> Inr (req, s)
      | Some CL \<Rightarrow>
          res_bind (stol (the (headers req CL)))
            (\<lambda>content_len.
               if content_len > 0 then
                 case alloc (nat content_len) of
                   None \<Rightarrow> Inl (Std_Exception ''bad_alloc'')
                 | Some buff \<Rightarrow>
                     (case recv_bytes (nat content_len) s of
                        (_, got, s') \<Rightarrow> Inr (req\<lparr>body := got @ drop (length got) buff\<rparr>, s'))
               else Inr (req, s)))"

text \<open>
  The loop that collects the header lines up to an empty line. It does not test for the end
  of the stream: there \<open>recv_line\<close> returns the empty string for ever.
\<close>

partial_function (option) header_loop :: "string \<Rightarrow> tcp_socket \<Rightarrow> (string \<times> tcp_socket) option" where
  "header_loop header_stream s =
     (case recv_line s of
        (line, s') \<Rightarrow>
          if line = LINE_END then Some (header_stream, s')
          else header_loop (header_stream @ line) s')"

text \<open>
  \<open>None\<close>: the worker never comes back. \<open>Some (Inl e)\<close>: the exception leaves the thread and
  ends the program, or a signal does. The final socket is the one the destructor has closed.
\<close>

definition serve_client ::
  "key_order \<Rightarrow> (nat \<Rightarrow> string option) \<Rightarrow> (string \<Rightarrow> string option) \<Rightarrow> string \<Rightarrow> tcp_socket
     \<Rightarrow> tcp_socket result option" where
  "serve_client order alloc files content_base client_sock =
     (case recv_line client_sock of
        (req_line, s1) \<Rightarrow>
          (case parse_req_line req_line of
             None \<Rightarrow> Some (Inr (close_sock s1))
           | Some (meth, uri, ver) \<Rightarrow>
               if ver \<noteq> ''HTTP/1.1'' then Some (version_not_supported order s1)
               else
                 (case header_loop [] s1 of
                    None \<Rightarrow> None
                  | Some (header_str, s2) \<Rightarrow>
                      Some (res_bind (parse_headers header_str) (\<lambda>hs.
                        res_bind (recv_body alloc
                            (new_request\<lparr>req_method := meth, resource := uri, version := ver,
                               headers := hs\<rparr>) s2)
                          (\<lambda>(req, s3).
                             if req_method req = ''GET'' then handle_get order files content_base req s3
                             else if req_method req = ''POST'' then handle_post order req s3
                             else method_not_supported order (req_method req) s3))))))"

section \<open>Requests as text\<close>

text \<open>Header lines that mean what they say: no colon in the name, none at the end of the value.\<close>

definition header_text :: "(string \<times> string) list \<Rightarrow> string" where
  "header_text hs = concat (map (\<lambda>(k, v). k @ '': '' @ v @ LINE_END) hs)"

definition good_header :: "string \<times> string \<Rightarrow> bool" where
  "good_header = (\<lambda>(k, v). tidy k \<and> tidy v \<and> CHR '':'' \<notin> set k \<and> last v \<noteq> CHR '':'' \<and>
     CHR 0x0A \<notin> set k \<and> CHR 0x0A \<notin> set v)"

lemma header_text_simps [simp]:
  "header_text [] = []"
  "header_text ((k, v) # hs) = k @ '': '' @ v @ LINE_END @ header_text hs"
  by (simp_all add: header_text_def)

lemma parse_header_good:
  assumes "good_header (k, v)"
  shows "parse_header (k @ '': '' @ v @ [CHR 0x0D]) m = Inr (m(k \<mapsto> v))"
proof -
  from assms have kv: "tidy k" "tidy v" "CHR '':'' \<notin> set k" "last v \<noteq> CHR '':''"
    by (simp_all add: good_header_def)
  have "tidy (k @ '': '' @ v)" using kv by (simp add: tidy_def)
  then have trim: "trim_whitespace (k @ '': '' @ v @ [CHR 0x0D]) = k @ '': '' @ v"
    using trim_whitespace_tidy [of "[]" "[CHR 0x0D]" "k @ '': '' @ v"] by (simp add: is_blank_def)
  define parts where "parts = getlines (CHR '':'') ('' '' @ v)"
  have split: "split (k @ '': '' @ v) (CHR '':'') = k # parts"
    using getlines_delim [of "CHR '':''" k "'' '' @ v"] kv(3) by (simp add: split_getlines parts_def)
  have ne: "parts \<noteq> []" by (simp add: parts_def)
  have joined: "join '':'' parts = '' '' @ v"
    unfolding parts_def using kv by (intro join_getlines) (auto simp: tidy_def)
  have v: "trim_whitespace ('' '' @ v) = v"
    using trim_whitespace_tidy [of "'' ''" "[]" v] kv(2) by (simp add: is_blank_def)
  show ?thesis
  proof (cases "length parts = 1")
    case True
    then obtain x where "parts = [x]" by (auto simp: length_Suc_conv)
    with joined trim split v kv(1) show ?thesis by (simp add: parse_header_def)
  next
    case False
    with ne have "length parts > 1" by (cases parts) auto
    with joined trim split v kv(1) show ?thesis
      by (simp add: parse_header_def concat_strs_join [OF ne])
  qed
qed

lemma parse_header_text:
  "\<forall>h \<in> set hs. good_header h \<Longrightarrow>
     foldl (\<lambda>m hd_line. res_bind m (parse_header hd_line)) (Inr m) (split (header_text hs) (CHR 0x0A)) =
       Inr (m ++ map_of (rev hs))"
proof (induction hs arbitrary: m)
  case (Cons h hs)
  obtain k v where h: "h = (k, v)" by (cases h)
  with Cons.prems have good: "good_header (k, v)" by simp
  then have "CHR 0x0A \<notin> set (k @ '': '' @ v @ [CHR 0x0D])" by (simp add: good_header_def)
  from getlines_delim [OF this, of "header_text hs"]
  have "split (header_text (h # hs)) (CHR 0x0A) =
      (k @ '': '' @ v @ [CHR 0x0D]) # split (header_text hs) (CHR 0x0A)"
    by (simp add: h split_getlines LINE_END_def)
  then have "foldl (\<lambda>m hd_line. res_bind m (parse_header hd_line)) (Inr m)
      (split (header_text (h # hs)) (CHR 0x0A)) =
    foldl (\<lambda>m hd_line. res_bind m (parse_header hd_line)) (Inr (m(k \<mapsto> v)))
      (split (header_text hs) (CHR 0x0A))"
    by (simp only: foldl.simps res_bind_simps parse_header_good [OF good])
  also have "\<dots> = Inr (m(k \<mapsto> v) ++ map_of (rev hs))" using Cons.prems by (intro Cons.IH) simp
  also have "m(k \<mapsto> v) ++ map_of (rev hs) = m ++ map_of (rev (h # hs))"
    by (simp add: h map_of_append map_add_assoc)
  finally show ?case .
qed (simp add: split_getlines)

lemma parse_headers_text:
  "\<forall>h \<in> set hs. good_header h \<Longrightarrow> parse_headers (header_text hs) = Inr (map_of (rev hs))"
  using parse_header_text [of hs Map.empty] by (simp add: parse_headers_def)

lemma parse_req_line_text:
  assumes "tidy meth" "tidy ver" "CHR '' '' \<notin> set meth \<union> set uri \<union> set ver"
  shows "parse_req_line (meth @ '' '' @ uri @ '' '' @ ver @ LINE_END) = Some (meth, uri, ver)"
proof -
  have "tidy (meth @ '' '' @ uri @ '' '' @ ver)" using assms by (simp add: tidy_def)
  then have trim: "trim_whitespace (meth @ '' '' @ uri @ '' '' @ ver @ LINE_END) =
      meth @ '' '' @ uri @ '' '' @ ver"
    using trim_whitespace_tidy [of "[]" LINE_END "meth @ '' '' @ uri @ '' '' @ ver"]
    by (simp add: is_blank_def LINE_END_def)
  have "split (meth @ '' '' @ uri @ '' '' @ ver) (CHR '' '') = [meth, uri, ver]"
    using assms getlines_delim [of "CHR '' ''" meth "uri @ '' '' @ ver"]
      getlines_delim [of "CHR '' ''" uri ver] getlines_no_delim [of "CHR '' ''" ver]
    by (simp add: split_getlines tidy_def)
  then show ?thesis unfolding parse_req_line_def trim by simp
qed

section \<open>The end of the header\<close>

lemma header_loop_step:
  "recv_line s = (line, s') \<Longrightarrow> header_loop acc s =
     (if line = LINE_END then Some (acc, s') else header_loop (acc @ line) s')"
  by (subst header_loop.simps) simp

lemma header_loop_text:
  assumes "\<forall>h \<in> set hs. good_header h" "incoming s = header_text hs @ LINE_END @ r"
  shows "\<exists>s'. header_loop acc s = Some (acc @ header_text hs, s') \<and> rest_of s r s'"
  using assms
proof (induction hs arbitrary: acc s)
  case Nil
  then obtain s' where "recv_line s = (LINE_END, s')" "rest_of s r s'"
    using recv_line_line [of s "[CHR 0x0D]" r] by (auto simp: LINE_END_def)
  then show ?case by (simp add: header_loop_step)
next
  case (Cons h hs)
  obtain k v where h: "h = (k, v)" by (cases h)
  with Cons.prems have good: "good_header (k, v)" by simp
  then have nl: "CHR 0x0A \<notin> set (k @ '': '' @ v @ [CHR 0x0D])" by (simp add: good_header_def)
  obtain s1 where s1: "recv_line s = (k @ '': '' @ v @ LINE_END, s1)"
    "rest_of s (header_text hs @ LINE_END @ r) s1"
    using recv_line_line [OF _ nl, of s "header_text hs @ LINE_END @ r"] Cons.prems(2)
    by (auto simp: h LINE_END_def)
  have "k @ '': '' @ v @ LINE_END \<noteq> LINE_END" by simp
  with s1(1) have "header_loop acc s = header_loop (acc @ k @ '': '' @ v @ LINE_END) s1"
    by (simp add: header_loop_step)
  moreover from Cons.IH [of s1 "acc @ k @ '': '' @ v @ LINE_END"] Cons.prems(1) rest_of_fields [OF s1(2)]
  obtain s2 where "header_loop (acc @ k @ '': '' @ v @ LINE_END) s1 =
      Some ((acc @ k @ '': '' @ v @ LINE_END) @ header_text hs, s2)" "rest_of s1 r s2" by auto
  ultimately show ?case using rest_of_trans [OF s1(2)] by (auto simp: h)
qed

text \<open>An empty line in the stream: a line end at the start or behind another line.\<close>

definition empty_line_in :: "string \<Rightarrow> bool" where
  "empty_line_in text \<longleftrightarrow>
     (\<exists>w r. text = w @ LINE_END @ r \<and> (w = [] \<or> last w = CHR 0x0A))"

lemma empty_line_needs_nl: "empty_line_in text \<Longrightarrow> CHR 0x0A \<in> set text"
  by (auto simp: empty_line_in_def LINE_END_def)

lemma first_stop:
  "d \<notin> set w \<Longrightarrow> d \<notin> set u \<Longrightarrow> w @ d # r = u @ d # t \<longleftrightarrow> w = u \<and> r = t"
proof (induction w arbitrary: u)
  case Nil
  then show ?case by (cases u) auto
next
  case (Cons c w)
  then show ?case by (cases u) auto
qed

lemma empty_line_step:
  assumes "text = w @ CHR 0x0A # r" "CHR 0x0A \<notin> set w"
  shows "empty_line_in text \<longleftrightarrow> w = [CHR 0x0D] \<or> empty_line_in r"
proof
  assume "empty_line_in text"
  then obtain w' r' where w': "text = w' @ LINE_END @ r'" "w' = [] \<or> last w' = CHR 0x0A"
    by (auto simp: empty_line_in_def)
  show "w = [CHR 0x0D] \<or> empty_line_in r"
  proof (cases "w' = []")
    case True
    with w' assms have "w @ CHR 0x0A # r = [CHR 0x0D] @ CHR 0x0A # r'" by (simp add: LINE_END_def)
    with first_stop [OF assms(2), of "[CHR 0x0D]"] show ?thesis by simp
  next
    case False
    with w' obtain u where u: "w' = u @ [CHR 0x0A]" by (metis append_butlast_last_id)
    with w' assms have eq: "w @ CHR 0x0A # r = u @ CHR 0x0A # LINE_END @ r'" by simp
    then obtain x where "u = w \<and> r = LINE_END @ r' \<or> u = w @ CHR 0x0A # x \<and> r = x @ CHR 0x0A # LINE_END @ r'"
      using assms(2) by (auto simp: append_eq_append_conv2 append_eq_Cons_conv Cons_eq_append_conv)
    then show ?thesis unfolding empty_line_in_def
      by (metis append_Nil append.assoc append_Cons last_snoc)
  qed
next
  assume "w = [CHR 0x0D] \<or> empty_line_in r"
  then show "empty_line_in text"
  proof
    assume "w = [CHR 0x0D]"
    with assms show ?thesis unfolding empty_line_in_def by (auto simp: LINE_END_def)
  next
    assume "empty_line_in r"
    then obtain w' r' where "r = w' @ LINE_END @ r'" "w' = [] \<or> last w' = CHR 0x0A"
      by (auto simp: empty_line_in_def)
    with assms(1) show ?thesis unfolding empty_line_in_def
      by (intro exI [of _ "w @ CHR 0x0A # w'"] exI [of _ r']) auto
  qed
qed

lemma header_loop_needs_empty_line:
  assumes "header_loop acc s = Some y"
  shows "empty_line_in (incoming s)"
proof (rule header_loop.raw_induct [where P = "\<lambda>acc s y. empty_line_in (incoming s)", OF _ assms])
  fix loop acc s y
  assume IH: "\<And>acc s y. loop acc s = Some y \<Longrightarrow> empty_line_in (incoming s)"
    and body: "(case recv_line s of (line, s') \<Rightarrow>
      if line = LINE_END then Some (acc, s') else loop (acc @ line) s') = Some y"
  show "empty_line_in (incoming s)"
  proof (cases "CHR 0x0A \<in> set (incoming s)")
    case True
    then obtain w r where w: "incoming s = w @ CHR 0x0A # r" "CHR 0x0A \<notin> set w"
      by (meson split_list_first)
    then obtain s' where s': "recv_line s = (w @ [CHR 0x0A], s')" "rest_of s r s'"
      using recv_line_line by blast
    show ?thesis
    proof (cases "w = [CHR 0x0D]")
      case False
      then have "w @ [CHR 0x0A] \<noteq> LINE_END" by (simp add: LINE_END_def)
      with body s' have "loop (acc @ w @ [CHR 0x0A]) s' = Some y" by simp
      from IH [OF this] rest_of_fields [OF s'(2)] show ?thesis
        using empty_line_step [OF w] by simp
    qed (use empty_line_step [OF w] in simp)
  next
    case False
    then obtain line s' where s': "recv_line s = (line, s')" "rest_of s [] s'" "CHR 0x0A \<notin> set line"
      using recv_line_end [of s] by (cases "broken s") auto
    then have "line \<noteq> LINE_END" by (auto simp: LINE_END_def)
    with body s' have "loop (acc @ line) s' = Some y" by simp
    from IH [OF this] rest_of_fields [OF s'(2)] empty_line_needs_nl [of "[]"] show ?thesis by simp
  qed
qed

lemma header_loop_finds_empty_line:
  "empty_line_in (incoming s) \<Longrightarrow> \<exists>y. header_loop acc s = Some y"
proof (induction "length (incoming s)" arbitrary: acc s rule: less_induct)
  case less
  then obtain w r where w: "incoming s = w @ CHR 0x0A # r" "CHR 0x0A \<notin> set w"
    using empty_line_needs_nl by (meson split_list_first)
  then obtain s' where s': "recv_line s = (w @ [CHR 0x0A], s')" "rest_of s r s'"
    using recv_line_line by blast
  show ?case
  proof (cases "w = [CHR 0x0D]")
    case True
    with header_loop_step [OF s'(1)] show ?thesis by (simp add: LINE_END_def)
  next
    case False
    then have "empty_line_in r" using empty_line_step [OF w] less.prems by simp
    with less.hyps [of s'] rest_of_fields [OF s'(2)] w False header_loop_step [OF s'(1)]
    show ?thesis by (simp add: LINE_END_def)
  qed
qed

lemma header_loop_ends_iff: "header_loop acc s = None \<longleftrightarrow> \<not> empty_line_in (incoming s)"
  using header_loop_needs_empty_line header_loop_finds_empty_line by (metis not_None_eq)

section \<open>Connections that cannot end the process\<close>

text \<open>
  A connection that cannot end the process: its client does not close it before the answer has been
  sent, and a body length it announces is a number for which memory can be had.
\<close>

definition length_ok :: "(nat \<Rightarrow> string option) \<Rightarrow> headers \<Rightarrow> bool" where
  "length_ok alloc hs \<longleftrightarrow>
     (case find (\<lambda>CL. hs CL \<noteq> None) content_lens of
        None \<Rightarrow> True
      | Some CL \<Rightarrow>
          (case stol (the (hs CL)) of
             Inl e \<Rightarrow> False
           | Inr n \<Rightarrow> n \<le> 0 \<or> alloc (nat n) \<noteq> None))"

definition harmless :: "(nat \<Rightarrow> string option) \<Rightarrow> tcp_socket \<Rightarrow> bool" where
  "harmless alloc s \<longleftrightarrow>
     Gone \<notin> set (send_outcomes s) \<and>
     (case header_loop [] (snd (recv_line s)) of
        None \<Rightarrow> True
      | Some (header_str, s2) \<Rightarrow>
          (case parse_headers header_str of Inl e \<Rightarrow> True | Inr hs \<Rightarrow> length_ok alloc hs))"

text \<open>Reading does not change what becomes of the answer.\<close>

lemma recv_outcomes: "recv n s = (x, s') \<Longrightarrow> send_outcomes s' = send_outcomes s"
  by (auto simp: recv_def Let_def split: if_splits)

lemma recv_line_loop_outcomes: "recv_line_loop ss s = (x, s') \<Longrightarrow> send_outcomes s' = send_outcomes s"
proof (induction ss s rule: recv_line_loop.induct)
  case (1 ss s)
  obtain got s1 where r: "recv 1 s = (got, s1)" by fastforce
  with recv_outcomes have o: "send_outcomes s1 = send_outcomes s" by blast
  from "1.prems" r have "(case got of
      Some [c] \<Rightarrow> if c = CHR 0x0A then (ss @ [c], s1) else recv_line_loop (ss @ [c]) s1
    | Some [] \<Rightarrow> (ss, s1) | _ \<Rightarrow> ([], s1)) = (x, s')"
    by (subst (asm) recv_line_loop.simps) (auto split: option.splits list.splits)
  then show ?case
    using "1.IH" [OF r [symmetric]] o by (auto split: option.splits list.splits if_splits)
qed

lemma recv_line_outcomes: "recv_line s = (x, s') \<Longrightarrow> send_outcomes s' = send_outcomes s"
  unfolding recv_line_def by (rule recv_line_loop_outcomes)

lemma recv_bytes_loop_outcomes: "recv_bytes_loop n got s = (k, x, s') \<Longrightarrow> send_outcomes s' = send_outcomes s"
proof (induction n got s rule: recv_bytes_loop.induct)
  case (1 n got s)
  obtain r s1 where r: "recv n s = (r, s1)" by fastforce
  with recv_outcomes have o: "send_outcomes s1 = send_outcomes s" by blast
  show ?case
  proof (cases "n = 0 \<or> r = None \<or> r = Some []")
    case True
    with "1.prems" r o show ?thesis by (subst (asm) recv_bytes_loop.simps) (auto split: if_splits)
  next
    case False
    then obtain c cs where c: "r = Some (c # cs)" by (cases r) (auto simp: neq_Nil_conv)
    with False "1.prems" r have "recv_bytes_loop (n - length (c # cs)) (got @ c # cs) s1 = (k, x, s')"
      by (subst (asm) recv_bytes_loop.simps) simp
    with "1.IH" [OF _ r [symmetric] c refl] False o show ?thesis by simp
  qed
qed

lemma header_loop_outcomes:
  assumes "header_loop acc s = Some y"
  shows "send_outcomes (snd y) = send_outcomes s"
proof (rule header_loop.raw_induct [where P = "\<lambda>acc s y. send_outcomes (snd y) = send_outcomes s", OF _ assms])
  fix loop acc s y
  assume IH: "\<And>acc s y. loop acc s = Some y \<Longrightarrow> send_outcomes (snd y) = send_outcomes s"
    and body: "(case recv_line s of (line, s') \<Rightarrow>
      if line = LINE_END then Some (acc, s') else loop (acc @ line) s') = Some y"
  obtain line s' where r: "recv_line s = (line, s')" by fastforce
  from recv_line_outcomes [OF this] body r IH show "send_outcomes (snd y) = send_outcomes s"
    by (auto split: if_splits)
qed

lemma recv_body_outcomes: "recv_body alloc req s = Inr (req', s') \<Longrightarrow> send_outcomes s' = send_outcomes s"
  unfolding recv_body_def recv_bytes_def
  by (auto simp: res_bind_def dest: recv_bytes_loop_outcomes split: option.splits sum.splits if_splits prod.splits)

text \<open>Such a connection is served, unless its header does not end.\<close>

lemma parse_headers_total: "\<exists>hs. parse_headers str = Inr hs"
proof -
  have one: "\<exists>hs. parse_header l m = Inr hs" for l m
  proof -
    have "\<exists>v. concat_strs (tl kv) '':'' = Inr v" if "length kv > 2" for kv :: "string list"
    proof -
      from that have "tl kv \<noteq> []" by (cases kv) auto
      from concat_strs_join [OF this] show ?thesis by blast
    qed
    then show ?thesis by (fastforce simp: parse_header_def Let_def)
  qed
  have "\<exists>hs. foldl (\<lambda>m hd_line. res_bind m (parse_header hd_line)) (Inr m) ls = Inr hs" for ls m
  proof (induction ls arbitrary: m)
    case (Cons l ls)
    from one [of l m] obtain m' where "parse_header l m = Inr m'" by blast
    with Cons.IH [of m'] show ?case by simp
  qed simp
  then show ?thesis by (simp add: parse_headers_def)
qed

lemma send_and_close_returns:
  assumes "Gone \<notin> set (send_outcomes s)"
  shows "send_and_close order res s \<noteq> Inl e"
proof -
  obtain rc s' where "send (serialize_response order res) s = Inr (rc, s')" by (rule send_returns [OF assms])
  then show ?thesis by (simp add: send_and_close_def send_response_def)
qed

lemma handlers_return:
  assumes "Gone \<notin> set (send_outcomes s)"
  shows "handle_post order req s \<noteq> Inl e" "version_not_supported order s \<noteq> Inl e"
    "method_not_supported order m s \<noteq> Inl e" "base \<noteq> [] \<Longrightarrow> handle_get order files base req s \<noteq> Inl e"
  using send_and_close_returns [OF assms]
  by (auto simp: handle_post_def version_not_supported_def method_not_supported_def internal_error_def
      page_not_found_def handle_get_def parse_uri_def Let_def split: option.split)

lemma recv_body_returns: "length_ok alloc (headers req) \<Longrightarrow> recv_body alloc req s \<noteq> Inl e"
  unfolding length_ok_def recv_body_def
  by (auto split: option.splits sum.splits prod.splits if_splits)

lemma harmless_returns:
  assumes "harmless alloc s" "base \<noteq> []"
  shows "serve_client order alloc files base s \<noteq> Some (Inl e)"
proof -
  obtain line s1 where r: "recv_line s = (line, s1)" by fastforce
  have gone1: "Gone \<notin> set (send_outcomes s1)" using assms(1) recv_line_outcomes [OF r] by (simp add: harmless_def)
  show ?thesis
  proof (cases "\<exists>meth uri hdr s2. parse_req_line line = Some (meth, uri, ''HTTP/1.1'') \<and> header_loop [] s1 = Some (hdr, s2)")
    case False
    with r handlers_return(2) [OF gone1] show ?thesis
      by (auto simp: serve_client_def split: option.splits prod.splits)
  next
    case True
    then obtain meth uri hdr s2 where p: "parse_req_line line = Some (meth, uri, ''HTTP/1.1'')"
      and h: "header_loop [] s1 = Some (hdr, s2)" by blast
    obtain hs where hs: "parse_headers hdr = Inr hs" using parse_headers_total by blast
    have len: "length_ok alloc hs" using assms(1) r h hs by (simp add: harmless_def)
    let ?req = "new_request\<lparr>req_method := meth, resource := uri, version := ''HTTP/1.1'', headers := hs\<rparr>"
    obtain req s3 where b: "recv_body alloc ?req s2 = Inr (req, s3)"
    proof (cases "recv_body alloc ?req s2")
      case (Inl e)
      with recv_body_returns [of alloc ?req] len show thesis by simp
    next
      case (Inr x)
      with that show thesis by (cases x) simp
    qed
    have "Gone \<notin> set (send_outcomes s3)"
      using gone1 header_loop_outcomes [OF h] recv_body_outcomes [OF b] by simp
    from handlers_return(1,3,4) [OF this] assms(2) r p h hs b show ?thesis
      by (simp add: serve_client_def)
  qed
qed

section \<open>What clients get\<close>

lemma request_line_read:
  assumes "incoming s = meth @ '' '' @ uri @ '' '' @ ver @ LINE_END @ r"
    "tidy meth" "tidy ver" "CHR '' '' \<notin> set meth \<union> set uri \<union> set ver"
    "CHR 0x0A \<notin> set meth \<union> set uri \<union> set ver"
  shows "\<exists>line s'. recv_line s = (line, s') \<and> rest_of s r s' \<and> parse_req_line line = Some (meth, uri, ver)"
proof -
  have "incoming s = (meth @ '' '' @ uri @ '' '' @ ver @ [CHR 0x0D]) @ CHR 0x0A # r"
    using assms(1) by (simp add: LINE_END_def)
  from recv_line_line [OF this] assms(5) obtain s' where
    "recv_line s = (meth @ '' '' @ uri @ '' '' @ ver @ LINE_END, s')" "rest_of s r s'"
    by (auto simp: LINE_END_def)
  with parse_req_line_text [OF assms(2,3,4)] show ?thesis by blast
qed

text \<open>A stream that starts with a good request line, with \<open>strm\<close> behind it.\<close>

definition request_head :: "string \<Rightarrow> string \<Rightarrow> string \<Rightarrow> tcp_socket \<Rightarrow> bool" where
  "request_head meth uri strm s \<longleftrightarrow>
     incoming s = meth @ '' '' @ uri @ '' HTTP/1.1'' @ LINE_END @ strm \<and> tidy meth \<and>
     CHR '' '' \<notin> set meth \<union> set uri \<and> CHR 0x0A \<notin> set meth \<union> set uri"

lemma serve_client_ends_iff:
  assumes "request_head meth uri strm s"
  shows "serve_client order alloc files base s = None \<longleftrightarrow> \<not> empty_line_in strm"
proof -
  have "tidy ''HTTP/1.1''" by (simp add: tidy_def is_blank_def)
  with request_line_read [of s meth uri "''HTTP/1.1''" strm] assms [unfolded request_head_def] obtain line s1 where
    "recv_line s = (line, s1)" "rest_of s strm s1" "parse_req_line line = Some (meth, uri, ''HTTP/1.1'')"
    by auto
  then show ?thesis using header_loop_ends_iff [of "[]" s1] rest_of_fields [of s strm s1]
    by (cases "header_loop [] s1") (simp_all add: serve_client_def split: prod.splits)
qed

text \<open>
  C36: A worker is lost for ever exactly when the stream of a request with a good request line
  ends without an empty line: \<^verbatim>\<open>serve_client\<close> then never returns, whatever else the client did.
\<close>

theorem endless_header:
  assumes "incoming s = meth @ '' '' @ uri @ '' HTTP/1.1'' @ LINE_END @ strm"
    "tidy meth" "CHR '' '' \<notin> set meth \<union> set uri" "CHR 0x0A \<notin> set meth \<union> set uri"
  shows "serve_client order alloc files base s = None \<longleftrightarrow> \<not> empty_line_in strm"
  by (rule serve_client_ends_iff [of meth uri]) (use assms in \<open>simp add: request_head_def\<close>)

text \<open>
  What a response is on the wire, whatever the order of its headers: a status line, header
  lines that read back as the header map, an empty line, the body and two more bytes that the
  announced length does not count.
\<close>

definition on_wire :: "string \<Rightarrow> string \<Rightarrow> string \<Rightarrow> bool" where
  "on_wire status_line content wire \<longleftrightarrow>
     (\<exists>hd_lines. wire = ''HTTP/1.1 '' @ status_line @ LINE_END @ hd_lines @ LINE_END @ content @ LINE_END \<and>
        parse_headers hd_lines = Inr (html_headers content))"

lemma serialize_headers_text:
  "serialize_headers order m = header_text (map (\<lambda>k. (k, the (m k))) (order m))"
proof -
  have "foldl (\<lambda>str k. str @ k @ '': '' @ the (m k) @ LINE_END) a ks =
      a @ header_text (map (\<lambda>k. (k, the (m k))) ks)" for a ks
    by (induction ks arbitrary: a) simp_all
  then show ?thesis by (simp add: serialize_headers_def)
qed

lemma map_of_keys:
  "distinct ks \<Longrightarrow> set ks = dom m \<Longrightarrow> map_of (rev (map (\<lambda>k. (k, the (m k))) ks)) = m"
proof -
  assume d: "distinct ks" "set ks = dom m"
  have "map_of (rev (map (\<lambda>k. (k, the (m k))) ks)) = map_of (map (\<lambda>k. (k, the (m k))) (rev ks))"
    by (simp add: rev_map)
  also have "\<dots> = (\<lambda>k. if k \<in> set ks then Some (the (m k)) else None)"
    by (rule ext) (simp add: map_of_map_restrict restrict_map_def)
  also have "\<dots> = m" using d(2) by (auto simp: fun_eq_iff)
  finally show ?thesis .
qed

lemma html_headers_good:
  "html_headers content k = Some v \<Longrightarrow> good_header (k, v)"
proof -
  have "\<not> is_blank c \<and> c \<noteq> CHR '':'' \<and> c \<noteq> CHR 0x0A" if "is_digit c" for c
    using that by (auto simp: is_digit_iff is_blank_def)
  then have "last (to_string n) \<noteq> CHR '':''" "CHR 0x0A \<notin> set (to_string n)" for n
    using to_string_digits [of n] by (metis last_in_set to_string_nonempty)+
  then show "html_headers content k = Some v \<Longrightarrow> ?thesis"
    by (auto simp: html_headers_def good_header_def server_name_def split: if_splits)
       (auto simp: tidy_def is_blank_def)
qed

lemma response_on_wire:
  assumes "iterates order"
  shows "on_wire (to_string code @ '' '' @ st) content (serialize_response order (html_response code st content))"
proof -
  let ?m = "html_headers content"
  have dom: "finite (dom ?m)" by (simp add: html_headers_def)
  with assms have o: "distinct (order ?m)" "set (order ?m) = dom ?m" by (simp_all add: iterates_def)
  have "parse_headers (serialize_headers order ?m) = Inr ?m"
    unfolding serialize_headers_text
    using o html_headers_good [of content] by (subst parse_headers_text) (auto simp: map_of_keys)
  then show ?thesis
    unfolding on_wire_def
    by (intro exI [of _ "serialize_headers order ?m"])
       (simp add: serialize_response_def html_response_def new_response_def)
qed

lemma sent_on_wire:
  assumes "iterates order" "Failed \<notin> set (send_outcomes s)" "Gone \<notin> set (send_outcomes s)"
  obtains wire os where
    "send_response order (html_response code st content) s =
       Inr (s\<lparr>outgoing := outgoing s @ wire, send_outcomes := os\<rparr>)"
    "on_wire (to_string code @ '' '' @ st) content wire"
proof -
  let ?wire = "serialize_response order (html_response code st content)"
  obtain os where "send ?wire s =
      Inr (Some (length ?wire), s\<lparr>outgoing := outgoing s @ ?wire, send_outcomes := os\<rparr>)"
    using send_all [OF assms(2,3)] by blast
  then show thesis
    using that [where wire = ?wire and os = os] response_on_wire [OF assms(1)] by (simp add: send_response_def)
qed

text \<open>A request with good headers reaches \<open>recv_body\<close> and the dispatch on its method.\<close>

definition parsed_request :: "string \<Rightarrow> string \<Rightarrow> (string \<times> string) list \<Rightarrow> request" where
  "parsed_request meth uri hs =
     new_request\<lparr>req_method := meth, resource := uri, version := ''HTTP/1.1'', headers := map_of (rev hs)\<rparr>"

lemma parsed_request_fields [simp]:
  "req_method (parsed_request meth uri hs) = meth"
  "resource (parsed_request meth uri hs) = uri"
  "headers (parsed_request meth uri hs) = map_of (rev hs)"
  by (simp_all add: parsed_request_def)

lemma serve_client_reads:
  assumes "incoming s = meth @ '' '' @ uri @ '' HTTP/1.1'' @ LINE_END @ header_text hs @ LINE_END @ r"
    "tidy meth" "CHR '' '' \<notin> set meth \<union> set uri" "CHR 0x0A \<notin> set meth \<union> set uri"
    "\<forall>h \<in> set hs. good_header h"
  obtains s2 where "rest_of s r s2"
    "serve_client order alloc files base s =
       Some (res_bind (recv_body alloc (parsed_request meth uri hs) s2)
         (\<lambda>(req, s3).
            if req_method req = ''GET'' then handle_get order files base req s3
            else if req_method req = ''POST'' then handle_post order req s3
            else method_not_supported order (req_method req) s3))"
proof -
  have "tidy ''HTTP/1.1''" by (simp add: tidy_def is_blank_def)
  with request_line_read [of s meth uri "''HTTP/1.1''" "header_text hs @ LINE_END @ r"] assms
  obtain line s1 where s1: "recv_line s = (line, s1)" "rest_of s (header_text hs @ LINE_END @ r) s1"
    "parse_req_line line = Some (meth, uri, ''HTTP/1.1'')" by auto
  from header_loop_text [OF assms(5), of s1 r "[]"] rest_of_fields [OF s1(2)]
  obtain s2 where s2: "header_loop [] s1 = Some (header_text hs, s2)" "rest_of s1 r s2" by auto
  show thesis
  proof (rule that)
    show "rest_of s r s2" using rest_of_trans [OF s1(2) s2(2)] .
  qed (simp add: serve_client_def s1 s2 parse_headers_text [OF assms(5)] parsed_request_def)
qed

text \<open>Requests as they are meant are harmless, and so is one whose header does not end.\<close>

lemma harmless_request:
  assumes "incoming s = meth @ '' '' @ uri @ '' HTTP/1.1'' @ LINE_END @ header_text hs @ LINE_END @ r"
    "tidy meth" "CHR '' '' \<notin> set meth \<union> set uri" "CHR 0x0A \<notin> set meth \<union> set uri"
    "\<forall>h \<in> set hs. good_header h" "length_ok alloc (map_of (rev hs))" "Gone \<notin> set (send_outcomes s)"
  shows "harmless alloc s"
proof -
  have "tidy ''HTTP/1.1''" by (simp add: tidy_def is_blank_def)
  with request_line_read [of s meth uri "''HTTP/1.1''" "header_text hs @ LINE_END @ r"] assms
  obtain line s1 where s1: "recv_line s = (line, s1)" "rest_of s (header_text hs @ LINE_END @ r) s1" by auto
  from header_loop_text [OF assms(5), of s1 r "[]"] rest_of_fields [OF s1(2)]
  obtain s2 where "header_loop [] s1 = Some (header_text hs, s2)" by auto
  with s1(1) assms(6,7) show ?thesis by (simp add: harmless_def parse_headers_text [OF assms(5)])
qed

lemma harmless_endless:
  assumes "request_head meth uri strm s" "\<not> empty_line_in strm" "Gone \<notin> set (send_outcomes s)"
  shows "harmless alloc s"
proof -
  have "tidy ''HTTP/1.1''" by (simp add: tidy_def is_blank_def)
  with request_line_read [of s meth uri "''HTTP/1.1''" strm] assms(1) [unfolded request_head_def]
  obtain line s1 where s1: "recv_line s = (line, s1)" "rest_of s strm s1" by auto
  with header_loop_ends_iff [of "[]" s1] rest_of_fields [OF s1(2)] assms(2,3) show ?thesis
    by (simp add: harmless_def)
qed

lemma close_open: "is_open s \<Longrightarrow> close_sock s = s\<lparr>is_open := False\<rparr>"
  by (simp add: close_sock_def)

text \<open>An answered connection: closed, with one response written.\<close>

definition answered :: "tcp_socket \<Rightarrow> string \<Rightarrow> string \<Rightarrow> string \<Rightarrow> tcp_socket \<Rightarrow> bool" where
  "answered s r status_line content s' \<longleftrightarrow>
     \<not> is_open s' \<and> incoming s' = r \<and>
     (\<exists>wire. outgoing s' = outgoing s @ wire \<and> on_wire status_line content wire)"

lemma answered_response:
  assumes "rest_of s r s2" "iterates order" "Failed \<notin> set (send_outcomes s)" "Gone \<notin> set (send_outcomes s)"
  shows "\<exists>s'. send_and_close order (html_response code st content) s2 = Inr s'
    \<and> answered s r (to_string code @ '' '' @ st) content s'"
proof -
  note f = rest_of_fields [OF assms(1)]
  obtain wire os where
    "send_response order (html_response code st content) s2 =
       Inr (s2\<lparr>outgoing := outgoing s2 @ wire, send_outcomes := os\<rparr>)"
    "on_wire (to_string code @ '' '' @ st) content wire"
    using sent_on_wire [OF assms(2), of s2] f assms(3,4) by metis
  with f show ?thesis by (simp add: send_and_close_def answered_def close_sock_def)
qed

lemma status_texts: "to_string 200 = ''200''" "to_string 404 = ''404''" "to_string 501 = ''501''"
  by code_simp+

text \<open>
  C34: A GET request is answered with the file it names: any resource path without blanks, any
  good header lines (without a body length), however the bytes arrive and are accepted by the
  kernel, if no send fails. The connection gets one response with the contents of the file, \<^verbatim>\<open>index.html\<close> for a
  directory, or the 404 page when there is no such file, and is closed.
\<close>

theorem get_request_answered:
  assumes "incoming s = ''GET '' @ uri @ '' HTTP/1.1'' @ LINE_END @ header_text hs @ LINE_END @ r"
    "uri = CHR ''/'' # path" "CHR '' '' \<notin> set uri" "CHR 0x0A \<notin> set uri"
    "\<forall>h \<in> set hs. good_header h \<and> fst h \<notin> set content_lens"
    "iterates order" "Failed \<notin> set (send_outcomes s)" "Gone \<notin> set (send_outcomes s)"
  shows "\<exists>s'. serve_client order alloc files base s = Some (Inr s') \<and>
    (case files (base @ uri @ (if last uri = CHR ''/'' then ''index.html'' else [])) of
       Some content \<Rightarrow> answered s r ''200 OK'' content s'
     | None \<Rightarrow> answered s r ''404 Page Not Found'' (not_found_page uri) s')"
proof -
  have "tidy ''GET''" by (simp add: tidy_def is_blank_def)
  then obtain s2 where s2: "rest_of s r s2"
    "serve_client order alloc files base s =
       Some (res_bind (recv_body alloc (parsed_request ''GET'' uri hs) s2)
         (\<lambda>(req, s3).
            if req_method req = ''GET'' then handle_get order files base req s3
            else if req_method req = ''POST'' then handle_post order req s3
            else method_not_supported order (req_method req) s3))"
    using serve_client_reads [of s "''GET''" uri hs r order alloc files base] assms by auto
  have "map_of (rev hs) CL = None" if "CL \<in> set content_lens" for CL
    using assms(5) that by (auto simp: map_of_eq_None_iff)
  then have "recv_body alloc (parsed_request ''GET'' uri hs) s2 = Inr (parsed_request ''GET'' uri hs, s2)"
    by (simp add: recv_body_def content_lens_def)
  moreover have "parse_uri base uri =
      Inr (base @ uri @ (if last uri = CHR ''/'' then ''index.html'' else []))"
    using assms(2) by (simp add: parse_uri_def Let_def)
  ultimately show ?thesis
    using s2(2) answered_response [OF s2(1) assms(6-8), of 200 "''OK''"]
      answered_response [OF s2(1) assms(6-8), of 404 "''Page Not Found''"]
    by (simp add: handle_get_def page_not_found_def status_texts split: option.splits)
qed

lemma parse_name_id_form:
  assumes "tidy n" "tidy i" "CHR ''&'' \<notin> set n \<union> set i" "CHR ''='' \<notin> set n \<union> set i"
  shows "parse_name_id (''Name='' @ n @ ''&ID='' @ i) = [''Name'' \<mapsto> n, ''ID'' \<mapsto> i]"
proof -
  have amp: "split (''Name='' @ n @ ''&ID='' @ i) (CHR ''&'') = [''Name='' @ n, ''ID='' @ i]"
    using getlines_delim [of "CHR ''&''" "''Name='' @ n" "''ID='' @ i"] assms(3)
      getlines_no_delim [of "CHR ''&''" "''ID='' @ i"] by (simp add: split_getlines)
  have eq: "split (k @ ''='' @ v) (CHR ''='') = [k, v]"
    if "CHR ''='' \<notin> set k" "CHR ''='' \<notin> set v" "tidy v" for k v
    using that getlines_delim [of "CHR ''=''" k v] getlines_no_delim [of "CHR ''=''" v]
    by (simp add: split_getlines tidy_def)
  have "tidy ''Name''" "tidy ''ID''" by (simp_all add: tidy_def is_blank_def)
  then have "parse_pair m (''Name='' @ n) = m(''Name'' \<mapsto> n)" "parse_pair m (''ID='' @ i) = m(''ID'' \<mapsto> i)" for m
    using eq [of "''Name''" n] eq [of "''ID''" i] assms by (simp_all add: parse_pair_def)
  with amp show ?thesis unfolding parse_name_id_def by simp
qed

text \<open>
  C35: The form of the exercise: a POST to \<^verbatim>\<open>/Post_show\<close> whose \<^verbatim>\<open>Content-Length\<close> is the length of
  its body \<^verbatim>\<open>Name=...&ID=...\<close> is answered with the page that repeats both fields, and exactly
  the body is taken from the stream, however it arrives, if no send fails.
\<close>

theorem post_form_echoed:
  assumes "incoming s = ''POST /Post_show HTTP/1.1'' @ LINE_END @ header_text hs @ LINE_END @ form @ r"
    "form = ''Name='' @ n @ ''&ID='' @ i" "tidy n" "tidy i"
    "CHR ''&'' \<notin> set n \<union> set i" "CHR ''='' \<notin> set n \<union> set i"
    "\<forall>h \<in> set hs. good_header h" "map_of (rev hs) ''content-length'' = None"
    "map_of (rev hs) ''Content-Length'' = Some (to_string (length form))"
    "length form < 2 ^ 63" "alloc (length form) = Some junk" "length junk = length form"
    "iterates order" "Failed \<notin> set (send_outcomes s)" "Gone \<notin> set (send_outcomes s)"
  shows "\<exists>s'. serve_client order alloc files base s = Some (Inr s') \<and>
    answered s r ''200 OK'' (form_page n i) s'"
proof -
  let ?req = "parsed_request ''POST'' ''/Post_show'' hs"
  have "tidy ''POST''" by (simp add: tidy_def is_blank_def)
  then obtain s2 where s2: "rest_of s (form @ r) s2"
    "serve_client order alloc files base s =
       Some (res_bind (recv_body alloc ?req s2)
         (\<lambda>(req, s3).
            if req_method req = ''GET'' then handle_get order files base req s3
            else if req_method req = ''POST'' then handle_post order req s3
            else method_not_supported order (req_method req) s3))"
    using serve_client_reads [of s "''POST''" "''/Post_show''" hs "form @ r" order alloc files base]
      assms(1,7) by auto
  obtain s3 where s3: "recv_bytes (length form) s2 = (Some (length form), form, s3)" "rest_of s2 r s3"
    using recv_bytes_all [of "length form" s2] rest_of_fields [OF s2(1)] by auto
  have "stol (to_string (length form)) = Inr (int (length form))"
    using stol_digits [of "to_string (length form)"] to_string_digits assms(10) by simp
  moreover have "form \<noteq> []" using assms(2) by simp
  ultimately have "recv_body alloc ?req s2 = Inr (?req\<lparr>body := form\<rparr>, s3)"
    using assms(8,9,11,12) s3(1) by (simp add: recv_body_def content_lens_def)
  moreover have "parse_name_id form = [''Name'' \<mapsto> n, ''ID'' \<mapsto> i]"
    unfolding assms(2) by (rule parse_name_id_form [OF assms(3-6)])
  ultimately show ?thesis
    using s2(2) answered_response [OF rest_of_trans [OF s2(1) s3(2)] assms(13-15), of 200 "''OK''"]
    by (simp add: handle_post_def Let_def status_texts)
qed

section \<open>Instances\<close>

text \<open>An order of iteration: the keys ascending.\<close>

definition key_list :: key_order where
  "key_list m = sorted_list_of_set (dom m)"

lemma key_list_iterates: "iterates key_list"
  by (simp add: iterates_def key_list_def)

definition sample_socket :: "string \<Rightarrow> tcp_socket" where
  "sample_socket text =
     \<lparr>incoming = text, broken = False, ready = [0, 3, 0], send_outcomes = [Accepted 4, Interrupted],
      outgoing = [], is_open = True\<rparr>"

lemma sample_socket_fields [simp]:
  "incoming (sample_socket strm) = strm" "Failed \<notin> set (send_outcomes (sample_socket strm))"
  "Gone \<notin> set (send_outcomes (sample_socket strm))"
  by (simp_all add: sample_socket_def)

theorem endless_header_witness:
  "serve_client key_list (\<lambda>_. None) Map.empty ''/srv''
     (sample_socket (''GET / HTTP/1.1'' @ LINE_END @ ''Host: a'' @ LINE_END)) = None"
proof -
  have "\<not> empty_line_in []" using empty_line_needs_nl by fastforce
  then have "\<not> empty_line_in (''Host: a'' @ LINE_END)"
    using empty_line_step [of "''Host: a'' @ LINE_END" "''Host: a'' @ [CHR 0x0D]" "[]"]
    by (simp add: LINE_END_def)
  then show ?thesis
    using endless_header [of "sample_socket (''GET / HTTP/1.1'' @ LINE_END @ ''Host: a'' @ LINE_END)"
        "''GET''" "''/''" "''Host: a'' @ LINE_END"]
    by (simp add: tidy_def is_blank_def)
qed

theorem get_request_answered_witness:
  "\<exists>s'. serve_client key_list (\<lambda>_. None) [''/srv/index.html'' \<mapsto> ''hello''] ''/srv''
      (sample_socket (''GET / HTTP/1.1'' @ LINE_END @ header_text [(''Host'', ''a:80'')] @ LINE_END)) =
        Some (Inr s') \<and>
    answered (sample_socket (''GET / HTTP/1.1'' @ LINE_END @ header_text [(''Host'', ''a:80'')] @ LINE_END))
      [] ''200 OK'' ''hello'' s'"
  using get_request_answered [where s = "sample_socket (''GET / HTTP/1.1'' @ LINE_END @
        header_text [(''Host'', ''a:80'')] @ LINE_END)" and uri = "''/''" and path = "[]"
      and hs = "[(''Host'', ''a:80'')]" and r = "[]" and order = key_list and alloc = "\<lambda>_. None"
      and base = "''/srv''" and files = "[''/srv/index.html'' \<mapsto> ''hello'']"]
  by (simp add: key_list_iterates content_lens_def good_header_def tidy_def is_blank_def)

theorem post_form_echoed_witness:
  "\<exists>s'. serve_client key_list (\<lambda>n. Some (replicate n (CHR ''?''))) Map.empty ''/srv''
      (sample_socket (''POST /Post_show HTTP/1.1'' @ LINE_END @
         header_text [(''Content-Length'', ''15'')] @ LINE_END @ ''Name=Al B&ID=07'' @ ''GET'')) =
        Some (Inr s') \<and>
    answered (sample_socket (''POST /Post_show HTTP/1.1'' @ LINE_END @
         header_text [(''Content-Length'', ''15'')] @ LINE_END @ ''Name=Al B&ID=07'' @ ''GET''))
      ''GET'' ''200 OK'' (form_page ''Al B'' ''07'') s'"
proof -
  have "to_string (length ''Name=Al B&ID=07'') = ''15''" by code_simp
  then show ?thesis
    by (intro post_form_echoed [where form = "''Name=Al B&ID=07''" and n = "''Al B''" and i = "''07''"
          and hs = "[(''Content-Length'', ''15'')]" and junk = "''???????????????''"])
       (simp_all add: key_list_iterates good_header_def tidy_def is_blank_def)
qed

text \<open>A client that has left before its answer is sent takes the process with it.\<close>

lemma send_to_gone:
  assumes "send_outcomes s = Gone # os"
  shows "send_and_close order res s = Inl (Undefined ''SIGPIPE'')"
proof -
  obtain c cs where "serialize_response order res = c # cs"
    by (cases "serialize_response order res") (simp_all add: serialize_response_def)
  with assms show ?thesis by (simp add: send_and_close_def send_response_def send_def)
qed

theorem gone_client_ends_process:
  assumes "incoming s = ''GET '' @ uri @ '' HTTP/1.1'' @ LINE_END @ header_text hs @ LINE_END @ r"
    "uri = CHR ''/'' # path" "CHR '' '' \<notin> set uri" "CHR 0x0A \<notin> set uri"
    "\<forall>h \<in> set hs. good_header h \<and> fst h \<notin> set content_lens" "send_outcomes s = Gone # os"
  shows "serve_client order alloc files base s = Some (Inl (Undefined ''SIGPIPE''))"
proof -
  have "tidy ''GET''" by (simp add: tidy_def is_blank_def)
  then obtain s2 where s2: "rest_of s r s2"
    "serve_client order alloc files base s =
       Some (res_bind (recv_body alloc (parsed_request ''GET'' uri hs) s2)
         (\<lambda>(req, s3).
            if req_method req = ''GET'' then handle_get order files base req s3
            else if req_method req = ''POST'' then handle_post order req s3
            else method_not_supported order (req_method req) s3))"
    using serve_client_reads [of s "''GET''" uri hs r order alloc files base] assms by auto
  have "map_of (rev hs) CL = None" if "CL \<in> set content_lens" for CL
    using assms(5) that by (auto simp: map_of_eq_None_iff)
  then have "recv_body alloc (parsed_request ''GET'' uri hs) s2 = Inr (parsed_request ''GET'' uri hs, s2)"
    by (simp add: recv_body_def content_lens_def)
  moreover have "send_outcomes s2 = Gone # os" using rest_of_fields [OF s2(1)] assms(6) by simp
  ultimately show ?thesis
    using s2(2) send_to_gone assms(2) by (simp add: handle_get_def page_not_found_def parse_uri_def Let_def split: option.splits)
qed

theorem gone_client_ends_process_witness:
  "serve_client key_list (\<lambda>_. None) Map.empty ''/srv''
      ((sample_socket (''GET / HTTP/1.1'' @ LINE_END @ LINE_END))\<lparr>send_outcomes := [Gone]\<rparr>) =
    Some (Inl (Undefined ''SIGPIPE''))"
  by (rule gone_client_ends_process [where uri = "''/''" and path = "[]" and hs = "[]" and r = "[]" and os = "[]"]) simp_all

end
