(* ===== verification/Http_Pool.thy ===== *)
theory Http_Pool
  imports Http_Server Work_Crew "HOL-Library.Multiset"
begin

text \<open>
  The running HTTP server of Lab2: the accept loop \<^verbatim>\<open>Server::start\<close> (\<^verbatim>\<open>server.cc\<close>) and the pool of
  workers that serve the accepted connections (\<^verbatim>\<open>thread_pool.cc\<close>). The environment decides which
  connections arrive and which worker has a turn next.
\<close>

section \<open>The pool of workers\<close>

text \<open>\<open>'c\<close> is the type of connections: their sockets, or sockets with their descriptors.\<close>

datatype 'c server_worker = Idle | Serving 'c | Left

text \<open>
  \<open>served\<close> collects the sockets as their workers have left them, in the order they did; it
  stands for what the clients see. \<open>died\<close> is what ended the process, if anything did.
\<close>

record 'c http_pool =
  pool_done :: bool
  client_socks :: "'c list"
  threads :: "'c server_worker list"
  served :: "'c list"
  died :: "exn option"

definition new_http_pool :: "nat \<Rightarrow> 'c http_pool" where
  "new_http_pool n =
     \<lparr>pool_done = False, client_socks = [], threads = replicate n Idle, served = [], died = None\<rparr>"

definition add_client :: "'c \<Rightarrow> 'c http_pool \<Rightarrow> 'c http_pool" where
  "add_client s p = p\<lparr>client_socks := client_socks p @ [s]\<rparr>"

text \<open>
  One turn of worker \<open>i\<close>: its critical section, or the whole of \<open>serve_client\<close> for its
  connection, given here as \<open>serve\<close>. A worker whose connection never ends keeps its turn.
\<close>

definition server_turn ::
  "('c \<Rightarrow> 'c result option) \<Rightarrow> nat \<Rightarrow> 'c http_pool \<Rightarrow> 'c http_pool" where
  "server_turn serve i p =
     (if died p \<noteq> None \<or> \<not> i < length (threads p) then p
      else case threads p ! i of
             Left \<Rightarrow> p
           | Serving s \<Rightarrow>
               (case serve s of
                  None \<Rightarrow> p
                | Some (Inl e) \<Rightarrow> p\<lparr>died := Some e\<rparr>
                | Some (Inr s') \<Rightarrow>
                    p\<lparr>threads := (threads p)[i := Idle], served := served p @ [s']\<rparr>)
           | Idle \<Rightarrow>
               if client_socks p = [] \<and> \<not> pool_done p then p
               else if pool_done p then p\<lparr>threads := (threads p)[i := Left]\<rparr>
               else p\<lparr>threads := (threads p)[i := Serving (hd (client_socks p))],
                      client_socks := tl (client_socks p)\<rparr>)"

definition http_pool_destroy :: "'c http_pool \<Rightarrow> 'c http_pool" where
  "http_pool_destroy p = p\<lparr>pool_done := True\<rparr>"

section \<open>The accept loop\<close>

text \<open>
  \<open>Accept None\<close> is a failing \<^verbatim>\<open>accept\<close>, on which the program aborts; \<open>Turn i\<close> gives worker \<open>i\<close>
  a turn.
\<close>

datatype 'c server_event = Accept "'c option" | Turn nat

definition server_step ::
  "('c \<Rightarrow> 'c result option) \<Rightarrow> 'c server_event \<Rightarrow> 'c http_pool \<Rightarrow> 'c http_pool" where
  "server_step serve ev p =
     (if died p \<noteq> None then p
      else case ev of
             Accept None \<Rightarrow> p\<lparr>died := Some (Undefined ''abort'')\<rparr>
           | Accept (Some s) \<Rightarrow> add_client s p
           | Turn i \<Rightarrow> server_turn serve i p)"

definition server_run ::
  "('c \<Rightarrow> 'c result option) \<Rightarrow> 'c server_event list \<Rightarrow> 'c http_pool \<Rightarrow> 'c http_pool" where
  "server_run serve evs p = foldl (\<lambda>p ev. server_step serve ev p) p evs"

text \<open>The connections a run accepts.\<close>

fun accepted :: "'c server_event list \<Rightarrow> 'c list" where
  "accepted [] = []"
| "accepted (Accept (Some s) # evs) = s # accepted evs"
| "accepted (_ # evs) = accepted evs"

section \<open>No connection is lost or served twice\<close>

definition busy_with :: "'c server_worker \<Rightarrow> 'c list" where
  "busy_with w = (case w of Serving s \<Rightarrow> [s] | _ \<Rightarrow> [])"

definition in_service :: "'c http_pool \<Rightarrow> 'c list" where
  "in_service p = concat (map busy_with (threads p))"

text \<open>A connection that is answered: serving it returns.\<close>

definition answers :: "('c \<Rightarrow> 'c result option) \<Rightarrow> 'c \<Rightarrow> bool" where
  "answers serve s \<longleftrightarrow> (\<exists>s'. serve s = Some (Inr s'))"

definition answer_of :: "('c \<Rightarrow> 'c result option) \<Rightarrow> 'c \<Rightarrow> 'c" where
  "answer_of serve s = (case serve s of Some (Inr s') \<Rightarrow> s' | _ \<Rightarrow> s)"

text \<open>
  What holds of a pool of \<open>n\<close> workers after \<open>conns\<close> have been accepted, as long as no
  connection makes the server die: every connection is waiting, in service or served.
\<close>

definition http_inv ::
  "('c \<Rightarrow> 'c result option) \<Rightarrow> 'c list \<Rightarrow> nat \<Rightarrow> 'c http_pool \<Rightarrow> bool" where
  "http_inv serve conns n p \<longleftrightarrow>
     died p = None \<and> \<not> pool_done p \<and> Left \<notin> set (threads p) \<and> length (threads p) = n \<and>
     (\<exists>past. mset conns = mset (client_socks p) + mset (in_service p) + mset past \<and>
        (\<forall>s \<in> set past. answers serve s) \<and> served p = map (answer_of serve) past)"

definition crash_free :: "('c \<Rightarrow> 'c result option) \<Rightarrow> 'c list \<Rightarrow> bool" where
  "crash_free serve conns \<longleftrightarrow> (\<forall>s \<in> set conns. \<forall>e. serve s \<noteq> Some (Inl e))"

lemma busy_with_simps [simp]:
  "busy_with Idle = []" "busy_with (Serving s) = [s]" "busy_with Left = []"
  by (simp_all add: busy_with_def)

lemma in_service_update:
  "i < length ws \<Longrightarrow>
     mset (concat (map busy_with (ws[i := w]))) + mset (busy_with (ws ! i)) =
     mset (concat (map busy_with ws)) + mset (busy_with w)"
proof (induction ws arbitrary: i)
  case (Cons a ws)
  then show ?case using Cons.IH [of "i - 1"] by (cases i) (auto simp: ac_simps)
qed simp

lemma serving_in_service:
  "i < length (threads p) \<Longrightarrow> threads p ! i = Serving s \<Longrightarrow> s \<in> set (in_service p)"
  unfolding in_service_def by (force simp: in_set_conv_nth)

lemma service_accepted:
  assumes "http_inv serve conns n p" "s \<in> set (in_service p)"
  shows "s \<in> set conns"
proof -
  from assms(1) obtain past where "mset conns = mset (client_socks p) + mset (in_service p) + mset past"
    by (auto simp: http_inv_def)
  from arg_cong [OF this, of set_mset] assms(2) show ?thesis by auto
qed

lemma server_turn_cases:
  assumes "http_inv serve conns n p" "crash_free serve conns"
  obtains (nothing) "server_turn serve i p = p"
      "i < n \<Longrightarrow> threads p ! i = Idle \<and> client_socks p = [] \<or> (\<exists>s. threads p ! i = Serving s \<and> serve s = None)"
  | (takes) s rest where "i < n" "threads p ! i = Idle" "client_socks p = s # rest"
      "server_turn serve i p = p\<lparr>threads := (threads p)[i := Serving s], client_socks := rest\<rparr>"
  | (finishes) s s' where "i < n" "threads p ! i = Serving s" "serve s = Some (Inr s')"
      "server_turn serve i p = p\<lparr>threads := (threads p)[i := Idle], served := served p @ [s']\<rparr>"
proof (cases "i < n")
  case False
  with assms(1) have "server_turn serve i p = p" by (simp add: server_turn_def http_inv_def)
  with False that(1) show thesis by simp
next
  case True
  with assms(1) have p: "died p = None" "i < length (threads p)" "\<not> pool_done p"
    "Left \<notin> set (threads p)" by (simp_all add: http_inv_def)
  show thesis
  proof (cases "threads p ! i")
    case Left
    with p show thesis by (metis nth_mem)
  next
    case Idle
    show thesis
    proof (cases "client_socks p")
      case Nil
      with Idle p that(1) show thesis by (simp add: server_turn_def)
    next
      case (Cons s rest)
      with Idle p that(2) True show thesis by (simp add: server_turn_def)
    qed
  next
    case (Serving s)
    from service_accepted [OF assms(1) serving_in_service [OF p(2) this] ] assms(2)
    have ne: "serve s \<noteq> Some (Inl e)" for e by (auto simp: crash_free_def)
    show thesis
    proof (cases "serve s")
      case None
      with Serving p that(1) show thesis by (simp add: server_turn_def)
    next
      case (Some r)
      with ne obtain s' where "serve s = Some (Inr s')" by (cases r) auto
      with Serving p that(3) True show thesis by (simp add: server_turn_def)
    qed
  qed
qed

lemma http_inv_turn:
  assumes inv: "http_inv serve conns n p" "crash_free serve conns"
  shows "http_inv serve conns n (server_turn serve i p)"
  using inv
proof (cases rule: server_turn_cases [of serve conns n p i])
  case nothing
  with inv show ?thesis by simp
next
  case (takes s rest)
  from inv obtain past where past: "mset conns = mset (client_socks p) + mset (in_service p) + mset past"
    "\<forall>s \<in> set past. answers serve s" "served p = map (answer_of serve) past"
    and t: "Left \<notin> set (threads p)" "length (threads p) = n" by (auto simp: http_inv_def)
  have "mset (in_service (server_turn serve i p)) = mset (in_service p) + {#s#}"
    using in_service_update [of i "threads p" "Serving s"] takes t by (simp add: in_service_def)
  then have "mset conns = mset (client_socks (server_turn serve i p)) +
      mset (in_service (server_turn serve i p)) + mset past"
    using past(1) takes by simp
  with inv past(2,3) takes show ?thesis
    unfolding http_inv_def by (auto dest!: set_update_subset_insert [THEN subsetD])
next
  case (finishes s s')
  from inv obtain past where past: "mset conns = mset (client_socks p) + mset (in_service p) + mset past"
    "\<forall>s \<in> set past. answers serve s" "served p = map (answer_of serve) past"
    and t: "Left \<notin> set (threads p)" "length (threads p) = n" by (auto simp: http_inv_def)
  have "mset (in_service (server_turn serve i p)) + {#s#} = mset (in_service p)"
    using in_service_update [of i "threads p" Idle] finishes t by (simp add: in_service_def)
  then have "mset conns = mset (client_socks (server_turn serve i p)) +
      mset (in_service (server_turn serve i p)) + mset (past @ [s])"
    using past(1) finishes(4) by (simp add: ac_simps)
  moreover have "\<forall>s \<in> set (past @ [s]). answers serve s" "s' = answer_of serve s"
    using past(2) finishes(3) by (auto simp: answers_def answer_of_def)
  moreover have "Left \<notin> set ((threads p)[i := Idle])"
    using t(1) set_update_subset_insert [of "threads p" i Idle] by auto
  ultimately show ?thesis
    using inv past(3) finishes(4) t(2) unfolding http_inv_def
    by (intro conjI exI [of _ "past @ [s]"]) simp_all
qed

text \<open>What the workers have left to do, stuck connections aside.\<close>

definition http_work :: "('c \<Rightarrow> 'c result option) \<Rightarrow> 'c http_pool \<Rightarrow> nat" where
  "http_work serve p =
     2 * length (client_socks p) + size (filter_mset (answers serve) (mset (in_service p)))"

definition stuck :: "('c \<Rightarrow> 'c result option) \<Rightarrow> 'c list \<Rightarrow> nat" where
  "stuck serve conns = size (filter_mset (\<lambda>s. \<not> answers serve s) (mset conns))"

definition http_crew_inv ::
  "('c \<Rightarrow> 'c result option) \<Rightarrow> 'c list \<Rightarrow> nat \<Rightarrow> 'c http_pool \<Rightarrow> bool" where
  "http_crew_inv serve conns n p \<longleftrightarrow>
     http_inv serve conns n p \<and> crash_free serve conns \<and> stuck serve conns < n"

lemma http_turn_works:
  assumes "http_inv serve conns n p" "crash_free serve conns"
  shows "server_turn serve i p = p \<or> http_work serve (server_turn serve i p) < http_work serve p"
  using assms
proof (cases rule: server_turn_cases [of serve conns n p i])
  case (takes s rest)
  then have "i < length (threads p)" using assms(1) by (simp add: http_inv_def)
  from in_service_update [OF this, of "Serving s"] takes show ?thesis
    by (simp add: http_work_def in_service_def)
next
  case (finishes s s')
  then have "i < length (threads p)" using assms(1) by (simp add: http_inv_def)
  from in_service_update [OF this, of Idle] finishes
  have "mset (in_service p) = mset (in_service (server_turn serve i p)) + {#s#}"
    by (simp add: in_service_def)
  moreover have "answers serve s" using finishes(3) by (simp add: answers_def)
  ultimately show ?thesis using finishes(4) by (simp add: http_work_def)
qed simp

lemma all_serving:
  "Left \<notin> set ws \<Longrightarrow> Idle \<notin> set ws \<Longrightarrow> length (concat (map busy_with ws)) = length ws"
proof (induction ws)
  case (Cons w ws)
  then show ?case by (cases w) auto
qed simp

lemma some_worker_free:
  assumes "http_crew_inv serve conns n p" "0 < http_work serve p"
  shows "\<exists>i < n. http_work serve (server_turn serve i p) < http_work serve p"
proof -
  from assms(1) obtain past where past: "mset conns = mset (client_socks p) + mset (in_service p) + mset past"
    and t: "Left \<notin> set (threads p)" "length (threads p) = n"
      "died p = None" "\<not> pool_done p"
    and inv: "http_inv serve conns n p" "crash_free serve conns" and few: "stuck serve conns < n"
    by (auto simp: http_crew_inv_def http_inv_def)
  have "\<exists>i < n. server_turn serve i p \<noteq> p"
  proof (cases "\<exists>s \<in> set (in_service p). answers serve s")
    case True
    then obtain i s where i: "i < n" "threads p ! i = Serving s" "answers serve s"
      using t(2) by (auto simp: in_service_def busy_with_def in_set_conv_nth split: server_worker.splits)
    then obtain s' where "serve s = Some (Inr s')" by (auto simp: answers_def)
    with i t have "threads (server_turn serve i p) ! i = Idle" by (simp add: server_turn_def)
    with i show ?thesis by (metis server_worker.distinct(1))
  next
    case False
    then have "filter (answers serve) (in_service p) = []" by (simp add: filter_empty_conv)
    with assms(2) have ne: "client_socks p \<noteq> []"
      by (auto simp: http_work_def simp flip: mset_filter)
    have "Idle \<in> set (threads p)"
    proof (rule ccontr)
      assume "Idle \<notin> set (threads p)"
      with all_serving [of "threads p"] t have "length (in_service p) = n" by (simp add: in_service_def)
      moreover have "filter_mset (\<lambda>s. \<not> answers serve s) (mset (in_service p)) = mset (in_service p)"
        using False by (simp add: filter_mset_eq_conv)
      ultimately have "n \<le> stuck serve conns" by (simp add: stuck_def past)
      with few show False by simp
    qed
    then obtain i where i: "i < n" "threads p ! i = Idle" using t(2) by (auto simp: in_set_conv_nth)
    with t ne have "client_socks (server_turn serve i p) = tl (client_socks p)"
      by (simp add: server_turn_def)
    with i ne show ?thesis by (metis length_tl list.size(3) diff_less length_greater_0_conv less_numeral_extra(1) less_irrefl)
  qed
  then show ?thesis using http_turn_works [OF inv] by blast
qed

lemma http_crew_inv_turn:
  "http_crew_inv serve conns n p \<Longrightarrow> http_crew_inv serve conns n (server_turn serve i p)"
  by (simp add: http_crew_inv_def http_inv_turn)

lemma http_crew_turn_works:
  "http_crew_inv serve conns n p \<Longrightarrow>
     server_turn serve i p = p \<or> http_work serve (server_turn serve i p) < http_work serve p"
  unfolding http_crew_inv_def using http_turn_works by blast

interpretation http_crew: work_crew "server_turn serve" "http_work serve" "http_crew_inv serve conns n" n
  for serve conns n
  by unfold_locales (fact http_crew_inv_turn http_crew_turn_works some_worker_free)+

section \<open>What the server does for its clients\<close>

lemma server_run_simps [simp]:
  "server_run serve [] p = p"
  "server_run serve (ev # evs) p = server_run serve evs (server_step serve ev p)"
  "server_run serve (evs @ evs') p = server_run serve evs' (server_run serve evs p)"
  by (simp_all add: server_run_def)

lemma accepted_append [simp]: "accepted (evs @ evs') = accepted evs @ accepted evs'"
  by (induction evs rule: accepted.induct) simp_all

lemma accepted_turns [simp]: "accepted (map Turn sched) = []"
  by (induction sched) simp_all

lemma run_turn_events: "server_run serve (map Turn sched) p = run_turns (server_turn serve) sched p"
  by (induction sched arbitrary: p) (auto simp: server_step_def server_turn_def)

lemma http_inv_new: "http_inv serve [] n (new_http_pool n)"
  by (auto simp: http_inv_def new_http_pool_def in_service_def busy_with_def intro!: exI [of _ "[]"])

lemma http_inv_add:
  assumes "http_inv serve conns n p"
  shows "http_inv serve (conns @ [s]) n (add_client s p)"
proof -
  from assms obtain past where "mset conns = mset (client_socks p) + mset (in_service p) + mset past"
    "\<forall>s \<in> set past. answers serve s" "served p = map (answer_of serve) past"
    by (auto simp: http_inv_def)
  with assms show ?thesis
    unfolding http_inv_def by (intro conjI exI [of _ past]) (simp_all add: add_client_def in_service_def)
qed

lemma http_inv_run:
  assumes "http_inv serve conns n p" "Accept None \<notin> set evs" "crash_free serve (conns @ accepted evs)"
  shows "http_inv serve (conns @ accepted evs) n (server_run serve evs p)"
  using assms
proof (induction evs arbitrary: conns p)
  case (Cons ev evs)
  have died: "died p = None" using Cons.prems(1) by (simp add: http_inv_def)
  show ?case
  proof (cases ev)
    case (Accept x)
    with Cons.prems(2) obtain s where "ev = Accept (Some s)" by (cases x) auto
    with Cons.IH [OF http_inv_add [OF Cons.prems(1)], of s] Cons.prems(2,3) died
    show ?thesis by (simp add: server_step_def)
  next
    case (Turn i)
    have "crash_free serve conns" using Cons.prems(3) by (simp add: crash_free_def)
    with Cons.IH [OF http_inv_turn [OF Cons.prems(1)], of i] Cons.prems(2,3) died Turn
    show ?thesis by (simp add: server_step_def)
  qed
qed simp

lemma http_work_bound: "http_inv serve conns n p \<Longrightarrow> http_work serve p \<le> 2 * length conns"
proof -
  assume "http_inv serve conns n p"
  then obtain past where "mset conns = mset (client_socks p) + mset (in_service p) + mset past"
    by (auto simp: http_inv_def)
  from arg_cong [OF this, of size]
  have "length conns = length (client_socks p) + length (in_service p) + length past" by simp
  moreover have "size (filter_mset (answers serve) (mset (in_service p))) \<le> length (in_service p)"
    using size_filter_mset_lesseq [of "answers serve" "mset (in_service p)"] by simp
  ultimately show ?thesis by (simp add: http_work_def)
qed

lemma idle_pool_served_all:
  assumes "http_inv serve conns n p" "http_work serve p = 0"
  shows "mset (served p) = image_mset (answer_of serve) (filter_mset (answers serve) (mset conns))"
proof -
  from assms obtain past where past: "mset conns = mset (client_socks p) + mset (in_service p) + mset past"
    "\<forall>s \<in> set past. answers serve s" "served p = map (answer_of serve) past"
    by (auto simp: http_inv_def)
  have "filter_mset (answers serve) (mset (in_service p)) = {#}" "client_socks p = []"
    using assms(2) by (simp_all add: http_work_def)
  moreover have "filter_mset (answers serve) (mset past) = mset past"
    using past(2) by (simp add: filter_mset_eq_conv)
  ultimately show ?thesis by (simp add: past(1,3))
qed

text \<open>What clients that cannot end the process leave of the server.\<close>

lemma harmless_crash_free:
  "base \<noteq> [] \<Longrightarrow> \<forall>s \<in> set conns. harmless alloc s \<Longrightarrow> crash_free (serve_client order alloc files base) conns"
  by (simp add: crash_free_def harmless_returns)


text \<open>A pool all of whose workers serve connections that never end.\<close>

definition all_stuck :: "('c \<Rightarrow> 'c result option) \<Rightarrow> 'c http_pool \<Rightarrow> bool" where
  "all_stuck serve p \<longleftrightarrow> (\<forall>w \<in> set (threads p). \<exists>s. w = Serving s \<and> serve s = None)"

lemma all_stuck_step:
  assumes "all_stuck serve p"
  shows "all_stuck serve (server_step serve ev p) \<and> served (server_step serve ev p) = served p"
proof (cases ev)
  case (Accept x)
  with assms show ?thesis
    by (cases x) (simp_all add: server_step_def all_stuck_def add_client_def)
next
  case (Turn i)
  have "server_turn serve i p = p"
  proof (cases "i < length (threads p)")
    case True
    with assms obtain s where "threads p ! i = Serving s" "serve s = None"
      by (metis all_stuck_def nth_mem)
    with True show ?thesis by (simp add: server_turn_def)
  qed (simp add: server_turn_def)
  with assms Turn show ?thesis by (simp add: server_step_def)
qed

lemma all_stuck_run: "all_stuck serve p \<Longrightarrow> served (server_run serve evs p) = served p"
  by (induction evs arbitrary: p) (simp_all add: all_stuck_step)

lemma run_accepts:
  "died p = None \<Longrightarrow> server_run serve (map (Accept \<circ> Some) conns) p = p\<lparr>client_socks := client_socks p @ conns\<rparr>"
  by (induction conns arbitrary: p) (simp_all add: server_step_def add_client_def)

lemma workers_take_connections:
  fixes conns :: "'c list"
  assumes "length conns = n" "k \<le> n"
  shows "run_turns (server_turn serve) [0..<k] ((new_http_pool n)\<lparr>client_socks := conns\<rparr>) =
    (new_http_pool n)\<lparr>client_socks := drop k conns,
       threads := map Serving (take k conns) @ replicate (n - k) Idle\<rparr>"
  using assms(2)
proof (induction k)
  case 0
  then show ?case by (simp add: new_http_pool_def)
next
  case (Suc k)
  then have k: "k < length conns" using assms(1) by simp
  have "(map Serving (take k conns) @ replicate (n - k) Idle)[k := Serving (hd (drop k conns))] =
      map Serving (take (Suc k) conns) @ replicate (n - Suc k) Idle"
  proof -
    have "replicate (n - k) (Idle :: 'c server_worker) = Idle # replicate (n - Suc k) Idle"
      using Suc.prems by (metis Suc_diff_Suc Suc_le_lessD replicate_Suc)
    then show ?thesis
      using k by (simp add: list_update_append take_Suc_conv_app_nth hd_drop_conv_nth)
  qed
  moreover have "(map Serving (take k conns) @ replicate (n - k) Idle) ! k = Idle"
    using k assms(1) by (simp add: nth_append)
  moreover have "drop k conns \<noteq> []" using k by simp
  ultimately show ?case
    using Suc k assms(1) by (simp add: server_turn_def new_http_pool_def tl_drop drop_Suc)
qed

text \<open>
  As many clients as there are workers put the server out of service: once every worker has
  taken a connection whose header does not end, no connection is ever answered, whoever
  connects afterwards and whatever the workers do.
\<close>

theorem slow_clients_stop_server:
  fixes order alloc files base
  defines "serve \<equiv> serve_client order alloc files base"
  assumes "length slow = n"
    "\<forall>s \<in> set slow. \<exists>meth uri strm. request_head meth uri strm s \<and> \<not> empty_line_in strm"
  shows "served (server_run serve (map (Accept \<circ> Some) slow @ map Turn [0..<n] @ evs) (new_http_pool n)) = []"
proof -
  have "\<forall>s \<in> set slow. serve s = None"
    unfolding serve_def using assms(3) serve_client_ends_iff by blast
  moreover have "server_run serve (map (Accept \<circ> Some) slow @ map Turn [0..<n]) (new_http_pool n) =
      (new_http_pool n)\<lparr>client_socks := [], threads := map Serving slow\<rparr>"
    using workers_take_connections [of slow n n serve] assms(2)
    by (simp add: run_accepts run_turn_events new_http_pool_def del: upt_Suc)
  ultimately have "all_stuck serve (server_run serve (map (Accept \<circ> Some) slow @ map Turn [0..<n]) (new_http_pool n))"
    and "served (server_run serve (map (Accept \<circ> Some) slow @ map Turn [0..<n]) (new_http_pool n)) = []"
    by (simp_all add: all_stuck_def new_http_pool_def)
  then show ?thesis
    using all_stuck_run [of serve _ evs] by (metis append.assoc server_run_simps(3))
qed

definition sample_good :: tcp_socket where
  "sample_good = sample_socket (''DELETE / HTTP/1.1'' @ LINE_END @ LINE_END)"

definition sample_slow :: tcp_socket where
  "sample_slow = sample_socket (''GET / HTTP/1.1'' @ LINE_END @ ''Host: a'' @ LINE_END)"

lemma sample_slow_head:
  "request_head ''GET'' ''/'' (''Host: a'' @ LINE_END) sample_slow \<and> \<not> empty_line_in (''Host: a'' @ LINE_END)"
proof -
  have "\<not> empty_line_in []" using empty_line_needs_nl by fastforce
  then have "\<not> empty_line_in (''Host: a'' @ LINE_END)"
    using empty_line_step [of "''Host: a'' @ LINE_END" "''Host: a'' @ [CHR 0x0D]" "[]"]
    by (simp add: LINE_END_def)
  then show ?thesis by (simp add: request_head_def sample_slow_def tidy_def is_blank_def)
qed

lemma sample_slow_stuck: "serve_client order alloc files base sample_slow = None"
  using sample_slow_head serve_client_ends_iff by blast

lemma sample_harmless: "harmless alloc sample_good" "harmless alloc sample_slow"
proof -
  show "harmless alloc sample_good"
    by (rule harmless_request [of _ "''DELETE''" "''/''" "[]" "[]"])
      (simp_all add: sample_good_def tidy_def is_blank_def length_ok_def content_lens_def)
  have "Gone \<notin> set (send_outcomes sample_slow)" by (simp add: sample_slow_def)
  with sample_slow_head show "harmless alloc sample_slow" using harmless_endless by blast
qed

lemma sample_good_answered: "answers (serve_client order alloc files ''/srv'') sample_good"
proof -
  have "request_head ''DELETE'' ''/'' LINE_END sample_good"
    by (simp add: request_head_def sample_good_def tidy_def is_blank_def)
  moreover have "empty_line_in LINE_END"
    unfolding empty_line_in_def by (intro exI [of _ "[]"]) simp
  ultimately have "serve_client order alloc files ''/srv'' sample_good \<noteq> None"
    using serve_client_ends_iff by blast
  moreover have "serve_client order alloc files ''/srv'' sample_good \<noteq> Some (Inl e)" for e
    by (rule harmless_returns [OF sample_harmless(1)]) simp
  ultimately show ?thesis
    by (cases "the (serve_client order alloc files ''/srv'' sample_good)") (auto simp: answers_def)
qed


theorem slow_clients_stop_server_witness:
  "served (server_run (serve_client key_list (\<lambda>_. None) Map.empty ''/srv'')
      (map (Accept \<circ> Some) [sample_slow, sample_slow] @ map Turn [0..<2] @
       Accept (Some sample_good) # map Turn [0, 1, 0])
      (new_http_pool 2)) = []"
  by (rule slow_clients_stop_server) (use sample_slow_head in auto)

end
