(* ===== verification/Http_Main.thy ===== *)
theory Http_Main
  imports Http_Pool
begin

unbundle bit_operations_syntax

text \<open>
  The process of the Lab2 server and what it takes from the system: the log files
  (\<^verbatim>\<open>reporter.h\<close>, \<^verbatim>\<open>reporter.cc\<close>), the descriptors behind the sockets (\<^verbatim>\<open>tcp_socket.cc\<close>), the
  accept loop as their user (\<^verbatim>\<open>server.cc\<close>) and the options of the program (\<^verbatim>\<open>main.cc\<close>). What
  the system answers to a call is an argument; how it numbers descriptors is modelled: the
  lowest free number, below the limit of the process.
\<close>

section \<open>The system\<close>

text \<open>\<open>None\<close> for a stream is an \<^verbatim>\<open>ofstream\<close> that could not be opened and drops what is written to it.
  \<open>w_ctime\<close> and \<open>w_strerror\<close> are the current time and the last error as text.\<close>

record log_stream =
  ls_path :: string
  ls_pos :: nat

record world =
  w_open :: "nat list"
  w_limit :: nat
  w_files :: "string \<rightharpoonup> string"
  w_err :: "log_stream option"
  w_warn :: "log_stream option"
  w_info :: "log_stream option"
  w_ctime :: string
  w_strerror :: string

definition lowest_free :: "nat list \<Rightarrow> nat" where
  "lowest_free fds = hd (filter (\<lambda>fd. fd \<notin> set fds) [0..<Suc (length fds)])"

definition sys_open :: "world \<Rightarrow> int \<times> world" where
  "sys_open w =
     (let fd = lowest_free (w_open w)
      in if fd < w_limit w then (int fd, w\<lparr>w_open := fd # w_open w\<rparr>) else (-1, w))"

definition sys_close :: "int \<Rightarrow> world \<Rightarrow> world" where
  "sys_close fd w = w\<lparr>w_open := removeAll (nat fd) (w_open w)\<rparr>"

section \<open>The reporter\<close>

datatype severity = ReportSeverityERROR | ReportSeverityINFO | ReportSeverityWARN

text \<open>Opening a log file empties it.\<close>

definition open_report_log :: "string \<Rightarrow> world \<Rightarrow> log_stream option \<times> world" where
  "open_report_log path w =
     (case sys_open w of
        (fd, w1) \<Rightarrow>
          if fd < 0 then (None, w1)
          else (Some \<lparr>ls_path = path, ls_pos = 0\<rparr>, w1\<lparr>w_files := (w_files w1)(path \<mapsto> [])\<rparr>))"

definition initialize_reporter :: "string \<Rightarrow> string \<Rightarrow> string \<Rightarrow> world \<Rightarrow> world" where
  "initialize_reporter err warn info w =
     (case open_report_log err w of (e, w1) \<Rightarrow>
      case open_report_log info (w1\<lparr>w_err := e\<rparr>) of (wn, w2) \<Rightarrow>
      case open_report_log info (w2\<lparr>w_warn := wn\<rparr>) of (i, w3) \<Rightarrow> w3\<lparr>w_info := i\<rparr>)"

text \<open>A write goes to the position of its stream, whatever another stream has written there.\<close>

definition overwrite :: "nat \<Rightarrow> string \<Rightarrow> string \<Rightarrow> string" where
  "overwrite pos s content =
     take pos (content @ replicate (pos - length content) (CHR 0x00)) @ s @ drop (pos + length s) content"

definition put_line :: "string \<Rightarrow> log_stream option \<Rightarrow> world \<Rightarrow> log_stream option \<times> world" where
  "put_line s st w =
     (case st of
        None \<Rightarrow> (None, w)
      | Some f \<Rightarrow>
          (Some (f\<lparr>ls_pos := ls_pos f + length s\<rparr>),
           w\<lparr>w_files := (w_files w)(ls_path f \<mapsto>
               overwrite (ls_pos f) s (case w_files w (ls_path f) of None \<Rightarrow> [] | Some c \<Rightarrow> c))\<rparr>))"

fun severity_text :: "severity \<Rightarrow> string" where
  "severity_text ReportSeverityERROR = ''Error ''"
| "severity_text ReportSeverityINFO = ''Info ''"
| "severity_text ReportSeverityWARN = ''Warn ''"

definition report_line :: "severity \<Rightarrow> nat \<Rightarrow> string \<Rightarrow> string \<Rightarrow> string \<Rightarrow> string" where
  "report_line sev line filename ctime msg =
     ctime @ severity_text sev @ filename @ '' '' @ to_string line @ '': '' @ msg @ [CHR 0x0A]"

text \<open>\<^verbatim>\<open>report(SEV) << msg << std::endl\<close> in line \<open>line\<close> of \<open>filename\<close>.\<close>

definition report :: "severity \<Rightarrow> nat \<Rightarrow> string \<Rightarrow> string \<Rightarrow> world \<Rightarrow> world" where
  "report sev line filename msg w =
     (let s = report_line sev line filename (w_ctime w) msg
      in case sev of
           ReportSeverityERROR \<Rightarrow> (case put_line s (w_err w) w of (st, w1) \<Rightarrow> w1\<lparr>w_err := st\<rparr>)
         | ReportSeverityINFO \<Rightarrow> (case put_line s (w_info w) w of (st, w1) \<Rightarrow> w1\<lparr>w_info := st\<rparr>)
         | ReportSeverityWARN \<Rightarrow> (case put_line s (w_warn w) w of (st, w1) \<Rightarrow> w1\<lparr>w_warn := st\<rparr>))"

section \<open>Sockets and their descriptors\<close>

text \<open>A \<^verbatim>\<open>TCPSocket\<close> is its descriptor, -1 when it has none.\<close>

definition tcp_new :: "world \<Rightarrow> int \<times> world" where
  "tcp_new w =
     (case sys_open w of
        (fd, w1) \<Rightarrow>
          (fd, if fd < 0 then report ReportSeverityERROR 21 ''tcp_socket.cc'' (w_strerror w1) w1 else w1))"

definition tcp_close :: "int \<Rightarrow> world \<Rightarrow> int \<times> world" where
  "tcp_close fd w = (if fd \<ge> 0 then (-1, sys_close fd w) else (fd, w))"

definition tcp_destroy :: "int \<Rightarrow> world \<Rightarrow> world" where
  "tcp_destroy fd w = snd (tcp_close fd w)"

text \<open>The byte orders of the network and of a little-endian machine.\<close>

definition htons :: "u16 \<Rightarrow> u16" where
  "htons p = push_bit 8 p OR drop_bit 8 p"

definition ntohs :: "u16 \<Rightarrow> u16" where
  "ntohs p = push_bit 8 p OR drop_bit 8 p"

definition port_text :: "u16 \<Rightarrow> string" where
  "port_text p = to_string (unat p)"

text \<open>\<open>valid\<close>: whether \<^verbatim>\<open>inet_pton\<close> accepts the address; \<open>rc\<close>: what the call returns for the
  address, whose port is in network byte order.\<close>

definition tcp_connect :: "bool \<Rightarrow> (u16 \<Rightarrow> int) \<Rightarrow> string \<Rightarrow> u16 \<Rightarrow> world \<Rightarrow> bool \<times> world" where
  "tcp_connect valid rc ip port w =
     (if \<not> valid \<or> rc (htons port) < 0
      then (False, report ReportSeverityERROR 43 ''tcp_socket.cc''
                     (''failed connecting '' @ ip @ '':'' @ port_text port @ '' '') w)
      else (True, report ReportSeverityINFO 47 ''tcp_socket.cc''
                    (''connecting to '' @ ip @ '':'' @ port_text port) w))"

definition tcp_bind :: "bool \<Rightarrow> (u16 \<Rightarrow> int) \<Rightarrow> string \<Rightarrow> u16 \<Rightarrow> world \<Rightarrow> bool \<times> world" where
  "tcp_bind valid rc ip port w =
     (if \<not> valid \<or> rc (htons port) < 0
      then (False, report ReportSeverityERROR 60 ''tcp_socket.cc''
                     (''fail binding to '' @ ip @ '':'' @ port_text port) w)
      else (True, report ReportSeverityINFO 64 ''tcp_socket.cc''
                    (''bound to '' @ ip @ '':'' @ port_text port) w))"

definition tcp_listen :: "int \<Rightarrow> int \<Rightarrow> world \<Rightarrow> bool \<times> world" where
  "tcp_listen rc fd w =
     (if rc = 0 then (True, report ReportSeverityINFO 72 ''tcp_socket.cc'' ''listening'' w)
      else (False, report ReportSeverityERROR 76 ''tcp_socket.cc''
              (''failed listening on socket '' @ (if fd < 0 then ''-'' else []) @ to_string (nat \<bar>fd\<bar>)) w))"

text \<open>
  The peer of a connection: its address as \<^verbatim>\<open>inet_ntop\<close> writes it (or fails to) and its port as
  it stands in the address. \<open>None\<close> is an \<^verbatim>\<open>accept\<close> that fails of itself. The descriptor of the
  target \<open>sock\<close> is overwritten, not closed.
\<close>

type_synonym peer = "(string option \<times> u16) option"

definition tcp_accept :: "peer \<Rightarrow> int \<Rightarrow> world \<Rightarrow> (bool \<times> int \<times> string \<times> u16) \<times> world" where
  "tcp_accept peer sock w =
     (case peer of
        None \<Rightarrow> ((False, sock, [], 0), report ReportSeverityERROR 88 ''tcp_socket.cc'' ''fail accepting connection'' w)
      | Some (addr, sin_port) \<Rightarrow>
          (case sys_open w of
             (fd, w1) \<Rightarrow>
               if fd < 0
               then ((False, sock, [], 0),
                     report ReportSeverityERROR 88 ''tcp_socket.cc'' ''fail accepting connection'' w1)
               else case addr of
                      None \<Rightarrow> ((False, sock, [], 0),
                               report ReportSeverityERROR 96 ''tcp_socket.cc'' ''fail converting network address'' w1)
                    | Some ip \<Rightarrow>
                        (let port = ntohs sin_port
                         in ((True, fd, ip, port),
                             report ReportSeverityINFO 104 ''tcp_socket.cc''
                               (''accepting '' @ ip @ '':'' @ port_text port) w1))))"

text \<open>The result, and the flags the last \<^verbatim>\<open>fcntl\<close> sets; \<open>getfl\<close> is what the first one returns.\<close>

definition O_NONBLOCK :: "32 word" where
  "O_NONBLOCK = 2048"

definition tcp_set_blocking :: "int \<Rightarrow> (32 word \<Rightarrow> int) \<Rightarrow> bool \<Rightarrow> world \<Rightarrow> (bool \<times> 32 word option) \<times> world" where
  "tcp_set_blocking getfl setfl flag w =
     (if getfl < 0
      then ((False, None), report ReportSeverityERROR 113 ''tcp_socket.cc'' ''fail getting socket status'' w)
      else let opts = word_of_int getfl;
               opts' = (if flag then opts OR O_NONBLOCK else opts AND NOT O_NONBLOCK)
           in if setfl opts' < 0
              then ((False, Some opts'),
                    report ReportSeverityERROR 124 ''tcp_socket.cc'' ''fail setting socket status'' w)
              else ((True, Some opts'), w))"

definition tcp_shutdown :: "int \<Rightarrow> bool" where
  "tcp_shutdown rc \<longleftrightarrow> rc = 0"

definition send_line :: "string \<Rightarrow> tcp_socket \<Rightarrow> (nat option \<times> tcp_socket) result" where
  "send_line data s = send (data @ [CHR 0x0A]) s"

section \<open>The server process\<close>

text \<open>
  \<open>sp_sock\<close> is the listening socket, \<open>sp_fresh\<close> the socket \<open>sock_client\<close> of the current iteration
  of the accept loop, and \<open>sp_conns\<close> the descriptors of the connections that have been handed to
  the pool and not been destroyed by a worker yet. \<open>sp_dead\<close> is set by \<^verbatim>\<open>abort()\<close>.
\<close>

record server_process =
  sp_world :: world
  sp_sock :: int
  sp_fresh :: int
  sp_conns :: "int list"
  sp_dead :: bool

text \<open>The two results of the system for the listening socket are those of \<^verbatim>\<open>bind\<close> and of \<^verbatim>\<open>listen\<close>;
  neither the constructor nor \<open>start\<close> looks at what comes of them.\<close>

definition begin_iteration :: "server_process \<Rightarrow> server_process" where
  "begin_iteration p = (case tcp_new (sp_world p) of (fd, w) \<Rightarrow> p\<lparr>sp_world := w, sp_fresh := fd\<rparr>)"

definition start_process ::
  "bool \<Rightarrow> (u16 \<Rightarrow> int) \<Rightarrow> int \<Rightarrow> string \<Rightarrow> u16 \<Rightarrow> world \<Rightarrow> server_process" where
  "start_process valid bind_rc listen_rc ip port w =
     (case tcp_new w of (fd, w1) \<Rightarrow>
      case tcp_bind valid bind_rc ip port w1 of (_, w2) \<Rightarrow>
      case tcp_listen listen_rc fd w2 of (_, w3) \<Rightarrow>
        begin_iteration
          \<lparr>sp_world = w3, sp_sock = fd, sp_fresh = -1, sp_conns = [], sp_dead = False\<rparr>)"

text \<open>
  A client arrives at the \<^verbatim>\<open>accept\<close> of the loop, which goes on to its next iteration; or a worker
  is done with the connection number \<open>i\<close> of those in hand and destroys its socket.
\<close>

datatype process_event = Client_Arrives peer | Client_Done nat

definition process_step :: "process_event \<Rightarrow> server_process \<Rightarrow> server_process" where
  "process_step ev p =
     (if sp_dead p then p
      else case ev of
        Client_Arrives peer \<Rightarrow>
          (case tcp_accept peer (sp_fresh p) (sp_world p) of
             ((ok, sock, ip, port), w) \<Rightarrow>
               if ok then begin_iteration (p\<lparr>sp_world := w, sp_conns := sp_conns p @ [sock]\<rparr>)
               else p\<lparr>sp_world := w, sp_dead := True\<rparr>)
      | Client_Done i \<Rightarrow>
          if i < length (sp_conns p)
          then p\<lparr>sp_world := tcp_destroy (sp_conns p ! i) (sp_world p),
                 sp_conns := take i (sp_conns p) @ drop (Suc i) (sp_conns p)\<rparr>
          else p)"

definition process_run :: "process_event list \<Rightarrow> server_process \<Rightarrow> server_process" where
  "process_run evs p = foldl (\<lambda>p ev. process_step ev p) p evs"

section \<open>The program\<close>

text \<open>Any other letter, such as the one \<^verbatim>\<open>getopt_long\<close> returns for an argument it does not know, prints
  the usage, and the loop goes on.\<close>

record settings =
  st_ip :: string
  st_port :: u16
  st_threads :: u64

definition default_settings :: settings where
  "default_settings = \<lparr>st_ip = ''127.0.0.1'', st_port = 8888, st_threads = 8\<rparr>"

fun main_option :: "char \<times> string \<Rightarrow> settings \<Rightarrow> settings result" where
  "main_option (oc, optarg) st =
     (if oc = CHR ''i'' then Inr (st\<lparr>st_ip := optarg\<rparr>)
      else if oc = CHR ''p'' then res_bind (stoi optarg) (\<lambda>n. Inr (st\<lparr>st_port := word_of_int n\<rparr>))
      else if oc = CHR ''x'' then Inl (Undefined ''abort'')
      else if oc = CHR ''n'' then res_bind (stoul optarg) (\<lambda>n. Inr (st\<lparr>st_threads := n\<rparr>))
      else Inr st)"

fun main_options :: "(char \<times> string) list \<Rightarrow> settings \<Rightarrow> settings result" where
  "main_options [] st = Inr st"
| "main_options (opt # opts) st = res_bind (main_option opt st) (main_options opts)"

text \<open>
  The options as \<^verbatim>\<open>getopt_long\<close> finds them one after the other, and the working directory, from
  which files are served. The result is that directory, the process in its accept loop and its
  pool of workers.
\<close>

definition server_main ::
  "(char \<times> string) list \<Rightarrow> string \<Rightarrow> (string \<Rightarrow> bool) \<Rightarrow> bool \<Rightarrow> (u16 \<Rightarrow> int) \<Rightarrow> int \<Rightarrow> world \<Rightarrow>
     (string \<times> server_process \<times> 'c http_pool) result" where
  "server_main opts cwd existing valid bind_rc listen_rc w =
     res_bind (main_options opts default_settings) (\<lambda>st.
       let w1 = initialize_reporter ''err_server.log'' ''warn_server.log'' ''info_server.log'' w
       in res_bind (new_server cwd existing []) (\<lambda>base.
            Inr (base, start_process valid bind_rc listen_rc (st_ip st) (st_port st) w1,
                 new_http_pool (unat (st_threads st)))))"

section \<open>Descriptors\<close>

lemma lowest_free:
  shows lowest_free_new: "lowest_free fds \<notin> set fds"
    and lowest_free_least: "lowest_free fds \<le> length fds"
proof -
  let ?free = "filter (\<lambda>fd. fd \<notin> set fds) [0..<Suc (length fds)]"
  have "?free \<noteq> []"
  proof
    assume "?free = []"
    then have "{0..<Suc (length fds)} \<subseteq> set fds" by (auto simp: filter_empty_conv simp del: upt_Suc)
    then have "card {0..<Suc (length fds)} \<le> card (set fds)" by (rule card_mono [rotated]) simp
    with card_length [of fds] show False by simp
  qed
  then have "lowest_free fds \<in> set ?free" unfolding lowest_free_def by (rule hd_in_set)
  then show "lowest_free fds \<notin> set fds" "lowest_free fds \<le> length fds"
    by (auto simp del: upt_Suc)
qed

text \<open>The open descriptors are distinct and below the limit.\<close>

definition world_ok :: "world \<Rightarrow> bool" where
  "world_ok w \<longleftrightarrow> distinct (w_open w) \<and> (\<forall>fd \<in> set (w_open w). fd < w_limit w)"

lemma world_ok_length: "world_ok w \<Longrightarrow> length (w_open w) \<le> w_limit w"
proof -
  assume w: "world_ok w"
  then have "set (w_open w) \<subseteq> {..<w_limit w}" by (auto simp: world_ok_def)
  from card_mono [OF _ this] w show ?thesis by (simp add: world_ok_def distinct_card)
qed

lemma sys_open_cases:
  assumes "world_ok w"
  obtains (full) "sys_open w = (-1, w)" "length (w_open w) = w_limit w"
  | (opens) fd where "sys_open w = (int fd, w\<lparr>w_open := fd # w_open w\<rparr>)" "fd \<notin> set (w_open w)"
      "world_ok (w\<lparr>w_open := fd # w_open w\<rparr>)" "length (w_open w) < w_limit w"
proof (cases "lowest_free (w_open w) < w_limit w")
  case True
  have "world_ok (w\<lparr>w_open := lowest_free (w_open w) # w_open w\<rparr>)"
    using assms True lowest_free_new by (auto simp: world_ok_def)
  with True lowest_free_new world_ok_length [OF this] opens show thesis by (auto simp: sys_open_def Let_def)
next
  case False
  with lowest_free_least [of "w_open w"] world_ok_length [OF assms] full
  show thesis by (simp add: sys_open_def)
qed

lemma report_open [simp]:
  "w_open (report sev line filename msg w) = w_open w"
  "w_limit (report sev line filename msg w) = w_limit w"
  by (auto simp: report_def put_line_def Let_def split: severity.split option.split)

lemma world_ok_report [simp]: "world_ok (report sev line filename msg w) = world_ok w"
  by (simp add: world_ok_def)

section \<open>What connections cost\<close>

text \<open>
  The sockets the process still knows of, besides the listening one, and the number of the open
  descriptors that are not among them: nothing will ever close those.
\<close>

definition known_fds :: "server_process \<Rightarrow> int list" where
  "known_fds p = sp_conns p @ (if sp_fresh p < 0 then [] else [sp_fresh p])"

definition held :: "server_process \<Rightarrow> nat" where
  "held p = length (w_open (sp_world p)) - length (known_fds p)"

definition process_ok :: "server_process \<Rightarrow> bool" where
  "process_ok p \<longleftrightarrow> world_ok (sp_world p) \<and> distinct (known_fds p) \<and>
     set (known_fds p) \<subseteq> int ` set (w_open (sp_world p))"

lemma process_ok_length:
  assumes "process_ok p"
  shows "length (w_open (sp_world p)) = held p + length (known_fds p)"
proof -
  have "length (known_fds p) = card (set (known_fds p))"
    using assms by (simp add: process_ok_def distinct_card)
  also have "\<dots> \<le> card (int ` set (w_open (sp_world p)))"
    using assms by (intro card_mono) (simp_all add: process_ok_def)
  also have "\<dots> \<le> length (w_open (sp_world p))"
    by (metis card_image_le card_length finite_set le_trans)
  finally show ?thesis by (simp add: held_def)
qed

text \<open>The first line of an iteration, entered without a fresh socket.\<close>

lemma begin_iteration:
  assumes "process_ok p" "sp_fresh p < 0"
  shows "process_ok (begin_iteration p)" and "held (begin_iteration p) = held p"
    and "sp_conns (begin_iteration p) = sp_conns p" and "sp_dead (begin_iteration p) = sp_dead p"
    and "w_limit (sp_world (begin_iteration p)) = w_limit (sp_world p)"
    and "sp_fresh (begin_iteration p) < 0 \<Longrightarrow> length (w_open (sp_world p)) = w_limit (sp_world p)"
proof -
  have w: "world_ok (sp_world p)" using assms(1) by (simp add: process_ok_def)
  show "process_ok (begin_iteration p)" "held (begin_iteration p) = held p"
    "sp_conns (begin_iteration p) = sp_conns p" "sp_dead (begin_iteration p) = sp_dead p"
    "w_limit (sp_world (begin_iteration p)) = w_limit (sp_world p)"
    "sp_fresh (begin_iteration p) < 0 \<Longrightarrow> length (w_open (sp_world p)) = w_limit (sp_world p)"
    using w assms
    by (cases rule: sys_open_cases;
        auto simp: begin_iteration_def tcp_new_def process_ok_def held_def known_fds_def)+
qed

text \<open>The socket of the current iteration is forgotten with its descriptor when a client is accepted.\<close>

lemma accepted_step:
  fixes peer
  assumes "process_ok p" "\<not> sp_dead p" "\<not> sp_dead (process_step (Client_Arrives peer) p)"
  defines "q \<equiv> process_step (Client_Arrives peer) p"
  shows "process_ok q" and "length (sp_conns q) = Suc (length (sp_conns p))"
    and "held q = held p + (if sp_fresh p < 0 then 0 else 1)"
    and "w_limit (sp_world q) = w_limit (sp_world p)"
    and "sp_fresh q < 0 \<Longrightarrow> held q + length (sp_conns q) = w_limit (sp_world q)"
proof -
  obtain sock ip port w where acc: "tcp_accept peer (sp_fresh p) (sp_world p) = ((True, sock, ip, port), w)"
    using assms(2,3) by (fastforce simp: process_step_def split: prod.splits if_splits)
  define p1 where "p1 = p\<lparr>sp_world := w, sp_conns := sp_conns p @ [sock], sp_fresh := -1\<rparr>"
  have q: "q = begin_iteration p1"
    using acc assms(2) by (simp add: q_def p1_def process_step_def begin_iteration_def split: prod.splits)
  have w: "world_ok (sp_world p)" using assms(1) by (simp add: process_ok_def)
  then have p1: "process_ok p1 \<and> length (sp_conns p1) = Suc (length (sp_conns p)) \<and>
    held p1 = held p + (if sp_fresh p < 0 then 0 else 1) \<and> w_limit (sp_world p1) = w_limit (sp_world p)"
  proof (cases rule: sys_open_cases)
    case full
    with acc show ?thesis by (auto simp: tcp_accept_def split: option.splits)
  next
    case (opens fd)
    with acc have "sock = int fd" and wo: "w_open w = fd # w_open (sp_world p)"
      and wl: "w_limit w = w_limit (sp_world p)" and ww: "world_ok w"
      by (auto simp: tcp_accept_def Let_def split: option.splits if_splits)
    moreover have "int fd \<notin> set (known_fds p)" using assms(1) opens(2) by (auto simp: process_ok_def)
    ultimately show ?thesis
      using assms(1) process_ok_length [OF assms(1)]
      by (auto simp: p1_def process_ok_def held_def known_fds_def)
  qed
  have fresh: "sp_fresh p1 < 0" by (simp add: p1_def)
  note b = begin_iteration [OF _ this]
  from p1 b show "process_ok q" "length (sp_conns q) = Suc (length (sp_conns p))"
    "held q = held p + (if sp_fresh p < 0 then 0 else 1)"
    "w_limit (sp_world q) = w_limit (sp_world p)" unfolding q by simp_all
  show "held q + length (sp_conns q) = w_limit (sp_world q)" if "sp_fresh q < 0"
    using p1 b that process_ok_length [of p1] fresh unfolding q by (simp add: known_fds_def)
qed

lemma done_step:
  fixes i
  assumes "process_ok p" "\<not> sp_dead p"
  defines "q \<equiv> process_step (Client_Done i) p"
  shows "process_ok q" and "held q = held p" and "sp_fresh q = sp_fresh p"
    and "w_limit (sp_world q) = w_limit (sp_world p)"
proof -
  have "process_ok q \<and> held q = held p \<and> sp_fresh q = sp_fresh p \<and> w_limit (sp_world q) = w_limit (sp_world p)"
  proof (cases "i < length (sp_conns p)")
    case True
    define fd where "fd = sp_conns p ! i"
    have split: "sp_conns p = take i (sp_conns p) @ fd # drop (Suc i) (sp_conns p)"
      using True by (simp add: fd_def id_take_nth_drop [symmetric])
    then have "fd \<in> set (sp_conns p)" by (metis in_set_conv_decomp)
    then obtain k where k: "fd = int k" "k \<in> set (w_open (sp_world p))"
      using assms(1) by (auto simp: process_ok_def known_fds_def)
    define us vs where "us = take i (sp_conns p)" and "vs = drop (Suc i) (sp_conns p)"
    with split have conns: "sp_conns p = us @ fd # vs" by simp
    have len: "Suc (length (removeAll k (w_open (sp_world p)))) = length (w_open (sp_world p))"
      using k(2) assms(1) length_pos_if_in_set [OF k(2)]
      by (simp add: process_ok_def world_ok_def distinct_remove1_removeAll [symmetric] length_remove1)
    have q: "q = p\<lparr>sp_world := (sp_world p)\<lparr>w_open := removeAll k (w_open (sp_world p))\<rparr>, sp_conns := us @ vs\<rparr>"
      using assms(2) True k(1) by (simp add: us_def vs_def q_def process_step_def tcp_destroy_def tcp_close_def sys_close_def
          fd_def [symmetric])
    have "process_ok q"
      using assms(1) k(1) conns unfolding q process_ok_def known_fds_def world_ok_def
      by (auto simp: distinct_removeAll)
    moreover have "held q = held p" using conns by (simp add: q held_def known_fds_def flip: len)
    ultimately show ?thesis by (simp add: q)
  qed (use assms in \<open>simp add: process_step_def\<close>)
  then show "process_ok q" "held q = held p" "sp_fresh q = sp_fresh p"
    "w_limit (sp_world q) = w_limit (sp_world p)" by simp_all
qed

section \<open>The end of a server that runs for long\<close>

fun arrivals :: "process_event list \<Rightarrow> nat" where
  "arrivals [] = 0"
| "arrivals (Client_Arrives peer # evs) = Suc (arrivals evs)"
| "arrivals (Client_Done i # evs) = arrivals evs"

text \<open>The largest number of connections in hand at the same time.\<close>

fun peak :: "process_event list \<Rightarrow> server_process \<Rightarrow> nat" where
  "peak [] p = length (sp_conns p)"
| "peak (ev # evs) p = max (length (sp_conns p)) (peak evs (process_step ev p))"

lemma process_run_simps [simp]:
  "process_run [] p = p" "process_run (ev # evs) p = process_run evs (process_step ev p)"
  "process_run (evs @ evs') p = process_run evs' (process_run evs p)"
  by (simp_all add: process_run_def)

lemma dead_process [simp]: "sp_dead p \<Longrightarrow> process_run evs p = p"
  by (induction evs) (simp_all add: process_step_def)

lemma peak_start: "length (sp_conns p) \<le> peak evs p"
  by (cases evs) simp_all

text \<open>
  With at most \<open>m\<close> connections at a time, every connection costs a descriptor, down to the last
  \<open>m\<close> the process may have: \<open>used\<close> counts those spent before.
\<close>

definition wasted :: "nat \<Rightarrow> nat \<Rightarrow> server_process \<Rightarrow> bool" where
  "wasted m used p \<longleftrightarrow> process_ok p \<and> min used (w_limit (sp_world p) - m) \<le> held p \<and>
     (sp_fresh p < 0 \<longrightarrow> w_limit (sp_world p) - m \<le> held p)"

lemma wasted_run:
  assumes "wasted m used p" "peak evs p \<le> m" "\<not> sp_dead (process_run evs p)"
  shows "wasted m (used + arrivals evs) (process_run evs p) \<and>
    w_limit (sp_world (process_run evs p)) = w_limit (sp_world p)"
  using assms
proof (induction evs arbitrary: p used)
  case (Cons ev evs)
  have alive: "\<not> sp_dead p" "\<not> sp_dead (process_step ev p)"
    using Cons.prems(3) by (auto simp: process_step_def intro: ccontr)
  have ok: "process_ok p" using Cons.prems(1) by (simp add: wasted_def)
  have few: "length (sp_conns (process_step ev p)) \<le> m" "peak evs (process_step ev p) \<le> m"
    using Cons.prems(2) peak_start [of "process_step ev p" evs] by simp_all
  show ?case
  proof (cases ev)
    case (Client_Arrives peer)
    note step = accepted_step [OF ok alive(1), of peer, folded Client_Arrives, OF alive(2)]
    have "wasted m (Suc used) (process_step ev p)"
      using Cons.prems(1) step few(1) by (auto simp: wasted_def split: if_splits)
    from Cons.IH [OF this few(2)] Cons.prems(3) step(4) Client_Arrives show ?thesis by simp
  next
    case (Client_Done i)
    note step = done_step [OF ok alive(1), of i, folded Client_Done]
    have "wasted m used (process_step ev p)" using Cons.prems(1) step by (auto simp: wasted_def)
    from Cons.IH [OF this few(2)] Cons.prems(3) step(4) Client_Done show ?thesis by simp
  qed
qed simp

lemma tcp_new_world:
  assumes "world_ok w"
  shows "world_ok (snd (tcp_new w))" and "w_limit (snd (tcp_new w)) = w_limit w"
    and "length (w_open (snd (tcp_new w))) = min (w_limit w) (Suc (length (w_open w)))"
  using assms by (cases rule: sys_open_cases; auto simp: tcp_new_def)+

lemma bind_listen_world [simp]:
  "w_open (snd (tcp_bind valid rc ip port w)) = w_open w"
  "w_limit (snd (tcp_bind valid rc ip port w)) = w_limit w"
  "w_open (snd (tcp_listen r fd w)) = w_open w"
  "w_limit (snd (tcp_listen r fd w)) = w_limit w"
  by (simp_all add: tcp_bind_def tcp_listen_def)

lemma start_process_wasted:
  fixes w valid bind_rc listen_rc ip port
  assumes "world_ok w"
  defines "p \<equiv> start_process valid bind_rc listen_rc ip port w"
  shows "wasted m (Suc (length (w_open w))) p" and "w_limit (sp_world p) = w_limit w"
    and "sp_conns p = []"
proof -
  define fd where "fd = fst (tcp_new w)"
  define w3 where "w3 = snd (tcp_listen listen_rc fd (snd (tcp_bind valid bind_rc ip port (snd (tcp_new w)))))"
  have w3: "p = begin_iteration
      \<lparr>sp_world = w3, sp_sock = fd, sp_fresh = -1, sp_conns = [], sp_dead = False\<rparr>"
    by (simp add: p_def start_process_def w3_def fd_def split_def)
  have ok: "world_ok w3" "w_limit w3 = w_limit w"
    "length (w_open w3) = min (w_limit w) (Suc (length (w_open w)))"
    using tcp_new_world [OF assms(1)] by (simp_all add: w3_def world_ok_def)
  let ?p = "\<lparr>sp_world = w3, sp_sock = fd, sp_fresh = -1, sp_conns = [], sp_dead = False\<rparr>"
  have "process_ok ?p" using ok by (simp add: process_ok_def known_fds_def)
  from begin_iteration [OF this] w3 ok
  show "wasted m (Suc (length (w_open w))) p" "w_limit (sp_world p) = w_limit w" "sp_conns p = []"
    by (auto simp: wasted_def held_def known_fds_def)
qed

lemma connections_use_up_descriptors:
  fixes w valid bind_rc listen_rc ip port
  defines "p \<equiv> start_process valid bind_rc listen_rc ip port w"
  assumes "world_ok w" "peak evs p \<le> m" "w_limit w \<le> Suc (length (w_open w)) + arrivals evs + m"
    "length (sp_conns (process_run evs p)) = m"
  shows "sp_dead (process_run (evs @ [Client_Arrives peer]) p)"
proof (rule ccontr)
  let ?q = "process_run evs p" and ?q' = "process_run (evs @ [Client_Arrives peer]) p"
  assume alive': "\<not> sp_dead ?q'"
  then have alive: "\<not> sp_dead ?q" by (auto simp: process_step_def)
  have start: "wasted m (Suc (length (w_open w))) p" "w_limit (sp_world p) = w_limit w"
    unfolding p_def by (rule start_process_wasted [OF assms(2)])+
  from wasted_run [OF start(1) assms(3) alive] start(2)
  have waste: "wasted m (Suc (length (w_open w)) + arrivals evs) ?q" "w_limit (sp_world ?q) = w_limit w"
    by simp_all
  then have ok: "process_ok ?q" and held: "w_limit w - m \<le> held ?q"
    using assms(4) by (auto simp: wasted_def)
  have alive2: "\<not> sp_dead (process_step (Client_Arrives peer) ?q)" using alive' by simp
  note step = accepted_step [OF ok alive alive2]
  let ?q2 = "process_step (Client_Arrives peer) ?q"
  have "Suc m + held ?q2 \<le> length (w_open (sp_world ?q2))"
    using process_ok_length [OF step(1)] step(2) assms(5) by (simp add: known_fds_def)
  moreover have "length (w_open (sp_world ?q2)) \<le> w_limit w"
    using step(1,4) waste(2) world_ok_length by (fastforce simp: process_ok_def)
  ultimately show False using step(3) held by (simp split: if_splits)
qed

lemma open_report_log_world:
  assumes "world_ok w"
  shows "world_ok (snd (open_report_log path w))" and "w_limit (snd (open_report_log path w)) = w_limit w"
    and "length (w_open (snd (open_report_log path w))) = min (w_limit w) (Suc (length (w_open w)))"
proof -
  show "world_ok (snd (open_report_log path w))" "w_limit (snd (open_report_log path w)) = w_limit w"
    "length (w_open (snd (open_report_log path w))) = min (w_limit w) (Suc (length (w_open w)))"
    using assms by (cases rule: sys_open_cases; auto simp: open_report_log_def world_ok_def)+
qed

lemma world_ok_logs [simp]:
  "world_ok (w\<lparr>w_err := e\<rparr>) = world_ok w" "world_ok (w\<lparr>w_warn := e\<rparr>) = world_ok w"
  "world_ok (w\<lparr>w_info := e\<rparr>) = world_ok w"
  by (simp_all add: world_ok_def)

lemma initialize_reporter_world:
  assumes "world_ok w"
  shows "world_ok (initialize_reporter err warn info w)"
    and "w_limit (initialize_reporter err warn info w) = w_limit w"
    and "length (w_open (initialize_reporter err warn info w)) = min (w_limit w) (length (w_open w) + 3)"
  using assms
  by (simp_all add: initialize_reporter_def open_report_log_world split_def)

text \<open>
  C40: Every connection costs the server a descriptor for good, because \<open>accept\<close> overwrites the one
  its target was created with: after enough connections, never more than \<open>m\<close> at a time, the
  server cannot hold more than those \<open>m\<close> any more, and one more client makes it abort. Four
  descriptors are taken by the three log files and the listening socket.
\<close>

theorem long_running_server_aborts:
  assumes "server_main opts cwd existing valid bind_rc listen_rc w = Inr (base, p, pool)" "world_ok w"
    "peak evs p \<le> m" "length (sp_conns (process_run evs p)) = m"
    "w_limit w \<le> length (w_open w) + 4 + arrivals evs + m"
  shows "sp_dead (process_run (evs @ [Client_Arrives peer]) p)"
proof -
  define w1 where "w1 = initialize_reporter ''err_server.log'' ''warn_server.log'' ''info_server.log'' w"
  note w1 = initialize_reporter_world [OF assms(2), of "''err_server.log''" "''warn_server.log''"
      "''info_server.log''", folded w1_def]
  have "\<exists>ip port. p = start_process valid bind_rc listen_rc ip port w1"
    using assms(1) unfolding w1_def by (auto simp: server_main_def Let_def)
  then obtain ip port where p: "p = start_process valid bind_rc listen_rc ip port w1" by blast
  have "w_limit w1 \<le> Suc (length (w_open w1)) + arrivals evs + m" using w1 assms(5) by auto
  with connections_use_up_descriptors [OF w1(1)] assms(3,4) show ?thesis unfolding p by blast
qed

definition sample_world :: "nat \<Rightarrow> world" where
  "sample_world limit =
     \<lparr>w_open = [2, 1, 0], w_limit = limit, w_files = Map.empty, w_err = None, w_warn = None, w_info = None,
      w_ctime = ''now '', w_strerror = ''Too many open files''\<rparr>"

definition sample_process :: server_process where
  "sample_process = start_process True (\<lambda>_. 0) 0 ''127.0.0.1'' 8888
     (initialize_reporter ''err_server.log'' ''warn_server.log'' ''info_server.log'' (sample_world 10))"

text \<open>What the process does to its descriptors, without addresses and logs.\<close>

type_synonym fd_view = "nat list \<times> nat \<times> int \<times> int list \<times> bool"

definition fd_view :: "server_process \<Rightarrow> fd_view" where
  "fd_view p = (w_open (sp_world p), w_limit (sp_world p), sp_fresh p, sp_conns p, sp_dead p)"

definition take_fd :: "nat list \<Rightarrow> nat \<Rightarrow> int \<times> nat list" where
  "take_fd fds limit =
     (let fd = lowest_free fds in if fd < limit then (int fd, fd # fds) else (-1, fds))"

fun view_step :: "process_event \<Rightarrow> fd_view \<Rightarrow> fd_view" where
  "view_step (Client_Arrives peer) (fds, limit, fresh, conns, dead) =
     (if dead then (fds, limit, fresh, conns, dead)
      else if peer = None then (fds, limit, fresh, conns, True)
      else case take_fd fds limit of
             (fd, fds1) \<Rightarrow>
               if fd < 0 \<or> fst (the peer) = None then (fds1, limit, fresh, conns, True)
               else (case take_fd fds1 limit of (fresh2, fds2) \<Rightarrow> (fds2, limit, fresh2, conns @ [fd], False)))"
| "view_step (Client_Done i) (fds, limit, fresh, conns, dead) =
     (if dead \<or> length conns \<le> i then (fds, limit, fresh, conns, dead)
      else (if conns ! i < 0 then fds else removeAll (nat (conns ! i)) fds, limit, fresh,
            take i conns @ drop (Suc i) conns, False))"

lemma view_of_step: "fd_view (process_step ev p) = view_step ev (fd_view p)"
proof (cases ev)
  case (Client_Arrives peer)
  then show ?thesis
    by (cases peer)
      (auto simp: fd_view_def process_step_def tcp_accept_def begin_iteration_def tcp_new_def sys_open_def
        take_fd_def Let_def split: option.split)
next
  case (Client_Done i)
  then show ?thesis
    by (auto simp: fd_view_def process_step_def tcp_destroy_def tcp_close_def sys_close_def)
qed

lemma view_of_start:
  "fd_view (start_process valid bind_rc listen_rc ip port w) =
     (case take_fd (w_open w) (w_limit w) of (fd, fds1) \<Rightarrow>
      case take_fd fds1 (w_limit w) of (fresh, fds2) \<Rightarrow> (fds2, w_limit w, fresh, [], False))"
  by (auto simp: fd_view_def start_process_def tcp_bind_def tcp_listen_def begin_iteration_def tcp_new_def
      sys_open_def take_fd_def Let_def)

lemma view_conns: "sp_conns p = fst (snd (snd (snd (fd_view p))))"
  by (simp add: fd_view_def)

lemma peak_view:
  "peak (ev # evs) p = max (length (fst (snd (snd (snd (fd_view p)))))) (peak evs (process_step ev p))"
  "peak [] p = length (fst (snd (snd (snd (fd_view p)))))"
  by (simp_all add: view_conns)

lemma view_of_sample: "fd_view sample_process = ([7, 6, 5, 4, 3, 2, 1, 0], 10, 7, [], False)"
proof -
  have "w_open (initialize_reporter err warn info (sample_world 10)) = [5, 4, 3, 2, 1, 0] \<and>
      w_limit (initialize_reporter err warn info (sample_world 10)) = 10" for err warn info
    by (simp add: initialize_reporter_def open_report_log_def sys_open_def sample_world_def lowest_free_def Let_def)
  moreover have "take_fd [5, 4, 3, 2, 1, 0] 10 = (6, [6, 5, 4, 3, 2, 1, 0])"
    "take_fd [6, 5, 4, 3, 2, 1, 0] 10 = (7, [7, 6, 5, 4, 3, 2, 1, 0])" by code_simp+
  ultimately show ?thesis by (simp add: sample_process_def view_of_start)
qed

text \<open>Two clients one after the other are enough where ten descriptors are allowed.\<close>

theorem long_running_server_aborts_witness:
  "sp_dead (process_run ([Client_Arrives (Some (Some ''10.0.0.1'', 80)), Client_Done 0,
      Client_Arrives (Some (Some ''10.0.0.1'', 80))] @ [Client_Arrives (Some (Some ''10.0.0.2'', 80))]) sample_process)"
proof -
  let ?evs = "[Client_Arrives (Some (Some ''10.0.0.1'', 80)), Client_Done 0, Client_Arrives (Some (Some ''10.0.0.1'', 80))]"
  have "server_main [] ''/srv'' (\<lambda>_. False) True (\<lambda>_. 0) 0 (sample_world 10) =
      Inr (''/srv'', sample_process, new_http_pool 8 :: tcp_socket http_pool)"
    by (simp add: server_main_def new_server_def sample_process_def default_settings_def Let_def)
  moreover have "world_ok (sample_world 10)" by (simp add: world_ok_def sample_world_def)
  moreover have v: "view_step (Client_Arrives (Some (Some ''10.0.0.1'', 80))) ([7, 6, 5, 4, 3, 2, 1, 0], 10, 7, [], False) =
      ([9, 8, 7, 6, 5, 4, 3, 2, 1, 0], 10, 9, [8], False)"
    "view_step (Client_Done 0) ([9, 8, 7, 6, 5, 4, 3, 2, 1, 0], 10, 9, [8], False) =
      ([9, 7, 6, 5, 4, 3, 2, 1, 0], 10, 9, [], False)"
    "view_step (Client_Arrives (Some (Some ''10.0.0.1'', 80))) ([9, 7, 6, 5, 4, 3, 2, 1, 0], 10, 9, [], False) =
      ([8, 9, 7, 6, 5, 4, 3, 2, 1, 0], 10, -1, [8], False)"
    by code_simp+
  then have "peak ?evs sample_process \<le> 1" and "length (sp_conns (process_run ?evs sample_process)) = 1"
    by (simp_all add: peak_view view_conns view_of_step view_of_sample del: peak.simps view_step.simps)
  moreover have "w_limit (sample_world 10) \<le> length (w_open (sample_world 10)) + 4 + arrivals ?evs + 1"
    by (simp add: sample_world_def)
  ultimately show ?thesis by (intro long_running_server_aborts)
qed

section \<open>The logs\<close>

text \<open>A log whose stream stands at the end of what has been written to it.\<close>

definition log_holds :: "string \<Rightarrow> string \<Rightarrow> log_stream option \<Rightarrow> world \<Rightarrow> bool" where
  "log_holds path content st w \<longleftrightarrow>
     st = Some \<lparr>ls_path = path, ls_pos = length content\<rparr> \<and> w_files w path = Some content"

lemma overwrite_end [simp]: "overwrite (length c) s c = c @ s"
  by (simp add: overwrite_def)

type_synonym log_entry = "severity \<times> nat \<times> string \<times> string"

definition report_all :: "log_entry list \<Rightarrow> world \<Rightarrow> world" where
  "report_all es w = foldl (\<lambda>w (sev, line, filename, msg). report sev line filename msg w) w es"

definition lines_of :: "severity \<Rightarrow> string \<Rightarrow> log_entry list \<Rightarrow> string" where
  "lines_of sev ctime es =
     concat (map (\<lambda>(s, line, filename, msg). if s = sev then report_line sev line filename ctime msg else []) es)"

lemma report_all_holds:
  assumes "log_holds err e (w_err w) w" "log_holds info i (w_info w) w" "err \<noteq> info"
    "ReportSeverityWARN \<notin> fst ` set es"
  shows "log_holds err (e @ lines_of ReportSeverityERROR (w_ctime w) es) (w_err (report_all es w)) (report_all es w)
    \<and> log_holds info (i @ lines_of ReportSeverityINFO (w_ctime w) es) (w_info (report_all es w)) (report_all es w)"
  using assms
proof (induction es arbitrary: w e i)
  case (Cons entry es)
  obtain sev line filename msg where entry: "entry = (sev, line, filename, msg)" by (metis surj_pair)
  let ?w = "report sev line filename msg w"
  let ?e = "if sev = ReportSeverityERROR then report_line sev line filename (w_ctime w) msg else []"
    and ?i = "if sev = ReportSeverityINFO then report_line sev line filename (w_ctime w) msg else []"
  have "log_holds err (e @ ?e) (w_err ?w) ?w \<and> log_holds info (i @ ?i) (w_info ?w) ?w \<and> w_ctime ?w = w_ctime w"
    using Cons.prems entry by (cases sev) (auto simp: report_def put_line_def log_holds_def Let_def)
  with Cons.IH [of "e @ ?e" ?w "i @ ?i"] Cons.prems(3,4) entry show ?case
    by (auto simp: report_all_def lines_of_def)
qed (simp add: report_all_def lines_of_def)

lemma open_report_log_room:
  assumes "world_ok w" "length (w_open w) < w_limit w"
  shows "\<exists>fd. open_report_log path w = (Some \<lparr>ls_path = path, ls_pos = 0\<rparr>,
      w\<lparr>w_open := fd # w_open w, w_files := (w_files w)(path \<mapsto> [])\<rparr>) \<and>
    world_ok (w\<lparr>w_open := fd # w_open w\<rparr>)"
  using assms(1) by (cases rule: sys_open_cases) (use assms(2) in \<open>auto simp: open_report_log_def\<close>)

text \<open>
  Once the logs are open, the error log holds exactly the errors reported and the information
  log exactly the other reports, in order, as long as nothing is reported as a warning (no
  part of the program does).
\<close>

theorem logs_keep_reports:
  fixes w err warn info es
  defines "w' \<equiv> report_all es (initialize_reporter err warn info w)"
  assumes "world_ok w" "length (w_open w) + 3 \<le> w_limit w" "err \<noteq> info"
    "ReportSeverityWARN \<notin> fst ` set es"
  shows "w_files w' err = Some (lines_of ReportSeverityERROR (w_ctime w) es) \<and>
    w_files w' info = Some (lines_of ReportSeverityINFO (w_ctime w) es)"
proof -
  let ?w = "initialize_reporter err warn info w"
  have "log_holds err [] (w_err ?w) ?w \<and> log_holds info [] (w_info ?w) ?w \<and> w_ctime ?w = w_ctime w"
  proof -
    obtain fd1 where 1: "open_report_log err w = (Some \<lparr>ls_path = err, ls_pos = 0\<rparr>,
        w\<lparr>w_open := fd1 # w_open w, w_files := (w_files w)(err \<mapsto> [])\<rparr>)"
      "world_ok (w\<lparr>w_open := fd1 # w_open w\<rparr>)"
      using open_report_log_room [of w err] assms(2,3) by auto
    define w1 where "w1 = w\<lparr>w_open := fd1 # w_open w, w_files := (w_files w)(err \<mapsto> []),
      w_err := Some \<lparr>ls_path = err, ls_pos = 0\<rparr>\<rparr>"
    have "world_ok w1" "length (w_open w1) < w_limit w1" using 1 assms(3) by (simp_all add: w1_def world_ok_def)
    then obtain fd2 where 2: "open_report_log info w1 = (Some \<lparr>ls_path = info, ls_pos = 0\<rparr>,
        w1\<lparr>w_open := fd2 # w_open w1, w_files := (w_files w1)(info \<mapsto> [])\<rparr>)"
      "world_ok (w1\<lparr>w_open := fd2 # w_open w1\<rparr>)"
      using open_report_log_room [of w1 info] by auto
    define w2 where "w2 = w1\<lparr>w_open := fd2 # w_open w1, w_files := (w_files w1)(info \<mapsto> []),
      w_warn := Some \<lparr>ls_path = info, ls_pos = 0\<rparr>\<rparr>"
    have "world_ok w2" "length (w_open w2) < w_limit w2"
      using 2 assms(3) by (simp_all add: w2_def w1_def world_ok_def)
    then obtain fd3 where 3: "open_report_log info w2 = (Some \<lparr>ls_path = info, ls_pos = 0\<rparr>,
        w2\<lparr>w_open := fd3 # w_open w2, w_files := (w_files w2)(info \<mapsto> [])\<rparr>)"
      using open_report_log_room [of w2 info] by auto
    have "?w = w2\<lparr>w_open := fd3 # w_open w2, w_files := (w_files w2)(info \<mapsto> []),
        w_info := Some \<lparr>ls_path = info, ls_pos = 0\<rparr>\<rparr>"
      using 1(1) 2(1) 3 by (simp add: initialize_reporter_def w1_def w2_def)
    with assms(4) show ?thesis by (simp add: log_holds_def w2_def w1_def)
  qed
  with report_all_holds [of err "[]" ?w info "[]" es] assms(4,5) show ?thesis
    by (auto simp: w'_def log_holds_def)
qed

text \<open>
  A warning goes to the information log, through a stream of its own: it replaces the text at
  the beginning of the log.
\<close>

theorem warning_overwrites_information:
  assumes "w_files w info = Some content" "w_warn w = Some \<lparr>ls_path = info, ls_pos = 0\<rparr>"
    "length content \<le> length (report_line ReportSeverityWARN line filename (w_ctime w) msg)"
  shows "w_files (report ReportSeverityWARN line filename msg w) info =
    Some (report_line ReportSeverityWARN line filename (w_ctime w) msg)"
  using assms by (simp add: report_def put_line_def overwrite_def Let_def)

section \<open>Ports and flags\<close>

lemma ntohs_htons [simp]: "ntohs (htons p) = p"
  by (rule bit_word_eqI) (auto simp: ntohs_def htons_def bit_simps)

text \<open>\<open>set_blocking(true)\<close> makes a socket non-blocking, and \<open>false\<close> blocking.\<close>

lemma set_blocking_flag:
  assumes "0 \<le> getfl" "tcp_set_blocking getfl setfl flag w = ((ok, Some opts), w')"
  shows "opts AND O_NONBLOCK = (if flag then O_NONBLOCK else 0)"
  using assms
  by (auto simp: tcp_set_blocking_def Let_def split: if_splits intro!: bit_word_eqI simp: bit_simps)

text \<open>A port is taken modulo 65536.\<close>

lemma port_option_wraps:
  assumes "n < 2 ^ 31"
  shows "main_option (CHR ''p'', to_string n) st = Inr (st\<lparr>st_port := of_nat n\<rparr>)"
  using assms by (simp add: stoi_def in_range_to_string)

end
