(* ===== verification/Http_Service.thy ===== *)
theory Http_Service
  imports Http_Main
begin

text \<open>
  The Lab2 server as a whole: the process with its descriptors and the pool of workers, joined by
  the accept loop (\<^verbatim>\<open>Server::start\<close> in \<^verbatim>\<open>server.cc\<close>) and by the workers that destroy the socket of a
  connection they have served (\<^verbatim>\<open>thread_pool.cc\<close>). A connection is its descriptor and its bytes.
\<close>

section \<open>The service\<close>

type_synonym conn = "int \<times> tcp_socket"

definition serve_conn :: "(tcp_socket \<Rightarrow> tcp_socket result option) \<Rightarrow> conn \<Rightarrow> conn result option" where
  "serve_conn serve c = map_option (map_sum id (Pair (fst c))) (serve (snd c))"

text \<open>\<open>sv_files\<close>: the workers that have the file of their answer open, with its descriptor (-1: it could
  not be opened).\<close>

record http_service =
  sv_process :: server_process
  sv_pool :: "conn http_pool"
  sv_files :: "(nat \<times> int) list"

text \<open>
  The bytes of a client come with its arrival; a worker's turn may end a connection. Between, a worker
  that has read its request may have opened the file (\<^verbatim>\<open>handle_get\<close>), which takes a descriptor from the
  others until the answer has been sent: \<open>Opens_File\<close>. A run without this step for a connection is one
  in which no other thread has come between the opening of the file and its closing, or in which the
  request names none.
\<close>

datatype service_event = Arrival peer tcp_socket | Worker nat | Opens_File nat

definition index_of :: "'a \<Rightarrow> 'a list \<Rightarrow> nat" where
  "index_of x xs = length (takeWhile (\<lambda>y. y \<noteq> x) xs)"

text \<open>Whether the file of worker \<open>i\<close> can be opened, as far as descriptors go.\<close>

definition can_open :: "nat \<Rightarrow> http_service \<Rightarrow> bool" where
  "can_open i sv =
     (case map_of (sv_files sv) i of
        None \<Rightarrow> fst (sys_open (sp_world (sv_process sv))) \<ge> 0
      | Some fd \<Rightarrow> fd \<ge> 0)"

definition close_file :: "int option \<Rightarrow> server_process \<Rightarrow> server_process" where
  "close_file file p =
     (case file of
        None \<Rightarrow> p
      | Some fd \<Rightarrow> if fd \<ge> 0 then p\<lparr>sp_world := sys_close fd (sp_world p)\<rparr> else p)"

definition request_read :: "(tcp_socket \<Rightarrow> tcp_socket result option) \<Rightarrow> nat \<Rightarrow> conn http_pool \<Rightarrow> bool" where
  "request_read serve i pool =
     (i < length (threads pool) \<and>
      (case threads pool ! i of Serving c \<Rightarrow> serve (snd c) \<noteq> None | _ \<Rightarrow> False))"

text \<open>\<open>serve\<close> is told whether a file can be opened.\<close>

definition service_step ::
    "(bool \<Rightarrow> tcp_socket \<Rightarrow> tcp_socket result option) \<Rightarrow> service_event \<Rightarrow> http_service \<Rightarrow> http_service" where
  "service_step serve ev sv =
     (if sp_dead (sv_process sv) \<or> died (sv_pool sv) \<noteq> None then sv
      else case ev of
        Arrival peer s \<Rightarrow>
          (let p = process_step (Client_Arrives peer) (sv_process sv);
               c = (if sp_dead p then None else Some (last (sp_conns p), s))
           in sv\<lparr>sv_process := p, sv_pool := server_step (serve_conn (serve True)) (Accept c) (sv_pool sv)\<rparr>)
      | Opens_File i \<Rightarrow>
          (if request_read (serve True) i (sv_pool sv) \<and> map_of (sv_files sv) i = None
           then case sys_open (sp_world (sv_process sv)) of
                  (fd, w) \<Rightarrow> sv\<lparr>sv_process := (sv_process sv)\<lparr>sp_world := w\<rparr>,
                               sv_files := (i, fd) # sv_files sv\<rparr>
           else sv)
      | Worker i \<Rightarrow>
          (let pool = server_step (serve_conn (serve (can_open i sv))) (Turn i) (sv_pool sv);
               p = close_file (map_of (sv_files sv) i) (sv_process sv)
           in if length (served pool) = length (served (sv_pool sv)) then sv\<lparr>sv_pool := pool\<rparr>
              else sv\<lparr>sv_process :=
                        process_step (Client_Done (index_of (fst (last (served pool))) (sp_conns p))) p,
                      sv_pool := pool, sv_files := filter (\<lambda>f. fst f \<noteq> i) (sv_files sv)\<rparr>))"

definition service_run ::
    "(bool \<Rightarrow> tcp_socket \<Rightarrow> tcp_socket result option) \<Rightarrow> service_event list \<Rightarrow> http_service \<Rightarrow> http_service" where
  "service_run serve evs sv = foldl (\<lambda>sv ev. service_step serve ev sv) sv evs"

fun arrived :: "service_event list \<Rightarrow> tcp_socket list" where
  "arrived [] = []"
| "arrived (Arrival peer s # evs) = s # arrived evs"
| "arrived (Worker i # evs) = arrived evs"
| "arrived (Opens_File i # evs) = arrived evs"

text \<open>No \<^verbatim>\<open>accept\<close> fails for a reason of its own, and every address can be printed.\<close>

definition sound_peers :: "service_event list \<Rightarrow> bool" where
  "sound_peers evs \<longleftrightarrow> (\<forall>peer s. Arrival peer s \<in> set evs \<longrightarrow> (\<exists>ip port. peer = Some (Some ip, port)))"

section \<open>Serving a connection with its descriptor\<close>

lemma serve_conn_simps [simp]:
  "answers (serve_conn serve) c = answers serve (snd c)"
  "answer_of (serve_conn serve) c = (fst c, answer_of serve (snd c))"
  "crash_free (serve_conn serve) conns = crash_free serve (map snd conns)"
proof -
  show "answers (serve_conn serve) c = answers serve (snd c)"
    by (cases "serve (snd c)") (auto simp: answers_def serve_conn_def map_sum_def split: sum.splits)
  show "answer_of (serve_conn serve) c = (fst c, answer_of serve (snd c))"
    by (cases c) (auto simp: answer_of_def serve_conn_def split: option.split sum.split)
  have "serve_conn serve c = Some (Inl e) \<longleftrightarrow> serve (snd c) = Some (Inl e)" for c e
    by (cases "serve (snd c)") (auto simp: serve_conn_def map_sum_def split: sum.splits)
  then show "crash_free (serve_conn serve) conns = crash_free serve (map snd conns)"
    by (simp add: crash_free_def)
qed

lemma serve_conn_keeps_fd: "serve_conn serve c = Some (Inr c') \<Longrightarrow> fst c' = fst c"
  by (cases "serve (snd c)"; cases "the (serve (snd c))") (auto simp: serve_conn_def)

lemma stuck_conn: "stuck (serve_conn serve) conns = stuck serve (map snd conns)"
  by (simp add: stuck_def filter_mset_image_mset)

section \<open>The invariant\<close>

text \<open>
  The files that are open: at most one of a worker, which is about to answer, behind a descriptor of its
  own.
\<close>

definition files_ok ::
    "(tcp_socket \<Rightarrow> tcp_socket result option) \<Rightarrow> nat \<Rightarrow> server_process \<Rightarrow> conn http_pool \<Rightarrow> (nat \<times> int) list \<Rightarrow> bool" where
  "files_ok serve n p pool files \<longleftrightarrow>
     distinct (map fst files) \<and> distinct (map snd files)
     \<and> (\<forall>f \<in> set files. fst f < n \<and> (\<exists>c. threads pool ! fst f = Serving c \<and> answers serve (snd c))
          \<and> snd f \<in> int ` set (w_open (sp_world p)) \<and> snd f \<notin> set (known_fds p))"

text \<open>
  The connections \<open>conns\<close> have been accepted; the process is alive, the descriptors of its
  connections are those of the ones waiting for a worker or in service, and besides them and the open
  files it has \<open>k\<close> descriptors open.
\<close>

definition service_inv ::
    "(tcp_socket \<Rightarrow> tcp_socket result option) \<Rightarrow> conn list \<Rightarrow> nat \<Rightarrow> nat \<Rightarrow> http_service \<Rightarrow> bool" where
  "service_inv serve conns n k sv \<longleftrightarrow>
     http_inv (serve_conn serve) conns n (sv_pool sv)
     \<and> process_ok (sv_process sv) \<and> \<not> sp_dead (sv_process sv)
     \<and> mset (sp_conns (sv_process sv)) =
         mset (map fst (client_socks (sv_pool sv))) + mset (map fst (in_service (sv_pool sv)))
     \<and> length (w_open (sp_world (sv_process sv))) = k + length (sp_conns (sv_process sv)) + length (sv_files sv)
     \<and> files_ok serve n (sv_process sv) (sv_pool sv) (sv_files sv)"

lemma connections_in_hand:
  assumes "service_inv serve conns n k sv"
  shows "length (sp_conns (sv_process sv)) \<le> length conns"
proof -
  let ?pool = "sv_pool sv"
  from assms obtain past where "mset conns = mset (client_socks ?pool) + mset (in_service ?pool) + mset past"
    by (auto simp: service_inv_def http_inv_def)
  then have "length conns = length (client_socks ?pool) + length (in_service ?pool) + length past"
    by (metis size_mset size_union)
  moreover have "length (sp_conns (sv_process sv)) = length (client_socks ?pool) + length (in_service ?pool)"
    using assms unfolding service_inv_def by (metis length_map size_mset size_union)
  ultimately show ?thesis by simp
qed

lemma files_few:
  assumes "files_ok serve n p pool files"
  shows "length files \<le> n" and "i < n \<Longrightarrow> map_of files i = None \<Longrightarrow> length files < n"
proof -
  have sub: "set (map fst files) \<subseteq> {..<n}" and d: "distinct (map fst files)"
    using assms by (auto simp: files_ok_def)
  have len: "length files = card (set (map fst files))" using distinct_card [OF d] by simp
  from card_mono [OF _ sub] len show "length files \<le> n" by simp
  assume "i < n" "map_of files i = None"
  then have "set (map fst files) \<subset> {..<n}" using sub by (auto simp: map_of_eq_None_iff)
  from psubset_card_mono [OF _ this] len show "length files < n" by simp
qed

lemma files_ok_process:
  assumes "files_ok serve n p pool files"
    "set (w_open (sp_world p)) \<subseteq> set (w_open (sp_world q))"
    "\<forall>fd \<in> set (known_fds q). fd \<in> set (known_fds p) \<or> fd \<notin> int ` set (w_open (sp_world p))"
  shows "files_ok serve n q pool files"
  using assms unfolding files_ok_def by (meson image_mono subsetD)

lemma files_ok_pool:
  assumes "files_ok serve n p pool files" "\<forall>f \<in> set files. threads pool' ! fst f = threads pool ! fst f"
  shows "files_ok serve n p pool' files"
  using assms by (simp add: files_ok_def)

text \<open>A file is closed.\<close>

lemma close_file_ok:
  assumes "process_ok p" "fd \<in> int ` set (w_open (sp_world p))" "fd \<notin> set (known_fds p)"
  defines "q \<equiv> close_file (Some fd) p"
  shows "process_ok q" "sp_conns q = sp_conns p" "sp_dead q = sp_dead p" "known_fds q = known_fds p"
    "w_limit (sp_world q) = w_limit (sp_world p)"
    "set (w_open (sp_world q)) = set (w_open (sp_world p)) - {nat fd}"
    "Suc (length (w_open (sp_world q))) = length (w_open (sp_world p))"
proof -
  obtain m where m: "fd = int m" "m \<in> set (w_open (sp_world p))" using assms(2) by blast
  have q: "q = p\<lparr>sp_world := (sp_world p)\<lparr>w_open := removeAll m (w_open (sp_world p))\<rparr>\<rparr>"
    by (simp add: q_def close_file_def sys_close_def m(1))
  then show known: "known_fds q = known_fds p" "sp_conns q = sp_conns p" "sp_dead q = sp_dead p"
    "w_limit (sp_world q) = w_limit (sp_world p)" "set (w_open (sp_world q)) = set (w_open (sp_world p)) - {nat fd}"
    using m(1) by (auto simp: known_fds_def)
  show "process_ok q"
    using assms(1,3) known(1) m(1) unfolding process_ok_def world_ok_def q by (auto simp: distinct_removeAll)
  show "Suc (length (w_open (sp_world q))) = length (w_open (sp_world p))"
    using m(2) assms(1) length_pos_if_in_set [OF m(2)]
    by (simp add: q process_ok_def world_ok_def distinct_remove1_removeAll [symmetric] length_remove1)
qed

text \<open>A client arrives and takes two descriptors, one of them for good.\<close>

lemma tcp_accept_room:
  assumes "world_ok w" "length (w_open w) < w_limit w"
  obtains fd w' where "tcp_accept (Some (Some ip, port)) sock w = ((True, int fd, ip, ntohs port), w')"
    "w_open w' = fd # w_open w" "w_limit w' = w_limit w" "fd \<notin> set (w_open w)" "world_ok w'"
  using assms(1)
proof (cases rule: sys_open_cases)
  case full
  with assms(2) show ?thesis by simp
next
  case (opens fd)
  with that show ?thesis by (simp add: tcp_accept_def Let_def world_ok_def)
qed

lemma begin_iteration_opens:
  assumes "world_ok (sp_world p)" "length (w_open (sp_world p)) < w_limit (sp_world p)"
  shows "length (w_open (sp_world (begin_iteration p))) = Suc (length (w_open (sp_world p)))"
    and "set (w_open (sp_world p)) \<subseteq> set (w_open (sp_world (begin_iteration p)))"
    and "sp_fresh (begin_iteration p) \<notin> int ` set (w_open (sp_world p))"
  using assms(1)
  by (cases rule: sys_open_cases; use assms(2) in \<open>auto simp: begin_iteration_def tcp_new_def\<close>)+

lemma arrival_process:
  fixes ip port
  assumes ok: "process_ok p" "\<not> sp_dead p" and room: "length (w_open (sp_world p)) + 2 \<le> w_limit (sp_world p)"
  defines "q \<equiv> process_step (Client_Arrives (Some (Some ip, port))) p"
  shows "process_ok q" "\<not> sp_dead q" "w_limit (sp_world q) = w_limit (sp_world p)"
    "\<exists>fd. sp_conns q = sp_conns p @ [fd]" "length (w_open (sp_world q)) = length (w_open (sp_world p)) + 2"
    "set (w_open (sp_world p)) \<subseteq> set (w_open (sp_world q))"
    "\<forall>fd \<in> set (known_fds q). fd \<in> set (known_fds p) \<or> fd \<notin> int ` set (w_open (sp_world p))"
proof -
  have w: "world_ok (sp_world p)" using ok(1) by (simp add: process_ok_def)
  obtain fd w' where acc: "tcp_accept (Some (Some ip, port)) (sp_fresh p) (sp_world p) = ((True, int fd, ip, ntohs port), w')"
      "w_open w' = fd # w_open (sp_world p)" "w_limit w' = w_limit (sp_world p)" "fd \<notin> set (w_open (sp_world p))"
      "world_ok w'"
    by (rule tcp_accept_room [OF w, of ip port "sp_fresh p"]) (use room in auto)
  let ?p1 = "p\<lparr>sp_world := w', sp_conns := sp_conns p @ [int fd]\<rparr>"
  have q: "q = begin_iteration ?p1"
    using acc(1) ok(2) by (simp add: q_def process_step_def)
  have iter: "sp_conns (begin_iteration ?p1) = sp_conns p @ [int fd]" "sp_dead (begin_iteration ?p1) = sp_dead p"
    by (simp_all add: begin_iteration_def split: prod.split)
  then show alive: "\<not> sp_dead q" using q ok(2) by simp
  from accepted_step [OF ok, of "Some (Some ip, port)"] alive
  show "process_ok q" "w_limit (sp_world q) = w_limit (sp_world p)" by (simp_all add: q_def)
  show "\<exists>fd. sp_conns q = sp_conns p @ [fd]" using iter(1) q by simp
  have fits: "world_ok (sp_world ?p1)" "length (w_open (sp_world ?p1)) < w_limit (sp_world ?p1)"
    using acc(2,3,5) room by simp_all
  note opens = begin_iteration_opens [OF fits]
  show "length (w_open (sp_world q)) = length (w_open (sp_world p)) + 2"
    "set (w_open (sp_world p)) \<subseteq> set (w_open (sp_world q))"
    using opens(1,2) acc(2) q by auto
  show "\<forall>x \<in> set (known_fds q). x \<in> set (known_fds p) \<or> x \<notin> int ` set (w_open (sp_world p))"
  proof
    fix x assume "x \<in> set (known_fds q)"
    then have "x \<in> set (sp_conns p) \<or> x = int fd \<or> x = sp_fresh q"
      using iter(1) q by (auto simp: known_fds_def split: if_splits)
    moreover have "sp_fresh q \<notin> int ` set (w_open (sp_world p))" using opens(3) acc(2) unfolding q by auto
    moreover have "int fd \<notin> int ` set (w_open (sp_world p))" using acc(4) by auto
    ultimately show "x \<in> set (known_fds p) \<or> x \<notin> int ` set (w_open (sp_world p))"
      by (auto simp: known_fds_def)
  qed
qed

lemma service_arrival:
  assumes inv: "service_inv (serve True) conns n k sv"
    and room: "k + length conns + n + 2 \<le> w_limit (sp_world (sv_process sv))"
    and sv': "sv' = service_step serve (Arrival (Some (Some ip, port)) s) sv"
  shows "\<exists>fd. service_inv (serve True) (conns @ [(fd, s)]) n (Suc k) sv'"
    "w_limit (sp_world (sv_process sv')) = w_limit (sp_world (sv_process sv))"
proof -
  let ?p = "sv_process sv" and ?serve = "serve True"
  have fo: "files_ok ?serve n ?p (sv_pool sv) (sv_files sv)" using inv by (simp add: service_inv_def)
  have p: "process_ok ?p" "\<not> sp_dead ?p" "length (w_open (sp_world ?p)) + 2 \<le> w_limit (sp_world ?p)"
    and died: "died (sv_pool sv) = None" and pool: "http_inv (serve_conn ?serve) conns n (sv_pool sv)"
    using inv room connections_in_hand [OF inv] files_few(1) [OF fo] by (auto simp: service_inv_def http_inv_def)
  note q = arrival_process [OF p, of ip port]
  let ?q = "process_step (Client_Arrives (Some (Some ip, port))) ?p"
  from q(4) obtain fd where fd: "sp_conns ?q = sp_conns ?p @ [fd]" by blast
  have sv': "sv' = sv\<lparr>sv_process := ?q, sv_pool := add_client (fd, s) (sv_pool sv)\<rparr>"
    using p(2) died q(2) fd by (simp add: sv' service_step_def server_step_def Let_def)
  have "files_ok ?serve n ?q (add_client (fd, s) (sv_pool sv)) (sv_files sv)"
    by (rule files_ok_pool [OF files_ok_process [OF fo q(6,7)]]) (simp add: add_client_def)
  then have "service_inv ?serve (conns @ [(fd, s)]) n (Suc k) sv'"
    using inv q(1-3,5) fd http_inv_add [OF pool, of "(fd, s)"]
    by (simp add: service_inv_def sv' add_client_def in_service_def)
  then show "\<exists>fd. service_inv ?serve (conns @ [(fd, s)]) n (Suc k) sv'" by blast
  show "w_limit (sp_world (sv_process sv')) = w_limit (sp_world ?p)" using q(3) by (simp add: sv')
qed

text \<open>A worker opens the file of its answer.\<close>

lemma service_opens:
  assumes inv: "service_inv (serve True) conns n k sv" and free: "crash_free (serve True) (map snd conns)"
    and room: "k + length conns + n \<le> w_limit (sp_world (sv_process sv))"
    and sv': "sv' = service_step serve (Opens_File i) sv"
  shows "service_inv (serve True) conns n k sv'"
    "w_limit (sp_world (sv_process sv')) = w_limit (sp_world (sv_process sv))"
proof -
  let ?p = "sv_process sv" and ?pool = "sv_pool sv" and ?serve = "serve True"
  have pool: "http_inv (serve_conn ?serve) conns n ?pool" and ok: "process_ok ?p" "\<not> sp_dead ?p" and died: "died ?pool = None"
    and fo: "files_ok ?serve n ?p ?pool (sv_files sv)"
    and opens: "length (w_open (sp_world ?p)) = k + length (sp_conns ?p) + length (sv_files sv)"
    using inv by (auto simp: service_inv_def http_inv_def)
  have w: "world_ok (sp_world ?p)" using ok(1) by (simp add: process_ok_def)
  have "service_inv ?serve conns n k sv' \<and> w_limit (sp_world (sv_process sv')) = w_limit (sp_world ?p)"
  proof (cases "request_read ?serve i ?pool \<and> map_of (sv_files sv) i = None")
    case False
    then have "sv' = sv" using ok(2) died by (auto simp: sv' service_step_def)
    with inv show ?thesis by simp
  next
    case True
    then obtain c where i: "i < n" "threads ?pool ! i = Serving c" "?serve (snd c) \<noteq> None"
      using pool by (auto simp: request_read_def http_inv_def split: server_worker.splits)
    have "c \<in> set conns"
      by (rule service_accepted [OF pool serving_in_service [of i]]) (use i pool in \<open>simp_all add: http_inv_def\<close>)
    with free have "?serve (snd c) \<noteq> Some (Inl e)" for e by (auto simp: crash_free_def)
    with i(3) have ans: "answers ?serve (snd c)"
      by (cases "the (?serve (snd c))") (auto simp: answers_def)
    have fits: "length (w_open (sp_world ?p)) < w_limit (sp_world ?p)"
      using opens room connections_in_hand [OF inv] files_few(2) [OF fo i(1)] True by simp
    from w obtain fd where fd: "sys_open (sp_world ?p) = (int fd, (sp_world ?p)\<lparr>w_open := fd # w_open (sp_world ?p)\<rparr>)"
      "fd \<notin> set (w_open (sp_world ?p))" "world_ok ((sp_world ?p)\<lparr>w_open := fd # w_open (sp_world ?p)\<rparr>)"
      by (cases rule: sys_open_cases) (use fits in auto)
    let ?q = "?p\<lparr>sp_world := (sp_world ?p)\<lparr>w_open := fd # w_open (sp_world ?p)\<rparr>\<rparr>"
    have sv': "sv' = sv\<lparr>sv_process := ?q, sv_files := (i, int fd) # sv_files sv\<rparr>"
      using ok(2) died True fd(1) by (simp add: sv' service_step_def)
    have known: "known_fds ?q = known_fds ?p" by (simp add: known_fds_def)
    then have pq: "process_ok ?q" using ok(1) fd(3) by (auto simp: process_ok_def)
    have n1: "int fd \<notin> set (known_fds ?p)" using ok(1) fd(2) by (auto simp: process_ok_def)
    have n2: "i \<notin> fst ` set (sv_files sv)" using True by (simp add: map_of_eq_None_iff)
    have n3: "int fd \<notin> snd ` set (sv_files sv)" using fo fd(2) by (auto simp: files_ok_def)
    have "files_ok ?serve n ?q ?pool (sv_files sv)"
      by (rule files_ok_process [OF fo]) (auto simp: known)
    moreover have "int fd \<in> int ` set (w_open (sp_world ?q))" "int fd \<notin> set (known_fds ?q)"
      using n1 known by simp_all
    ultimately have "files_ok ?serve n ?q ?pool ((i, int fd) # sv_files sv)"
      using n2 n3 i(1,2) ans unfolding files_ok_def by (cases c) (simp del: image_insert)
    with inv pq opens show ?thesis by (simp add: sv' service_inv_def)
  qed
  then show "service_inv ?serve conns n k sv'" "w_limit (sp_world (sv_process sv')) = w_limit (sp_world ?p)" by simp_all
qed

text \<open>A worker has a turn: it takes a connection, or closes the descriptor of the one it has served.\<close>

lemma index_of_split:
  assumes "x \<in> set xs"
  shows "index_of x xs < length xs" "xs ! index_of x xs = x"
    "mset (take (index_of x xs) xs @ drop (Suc (index_of x xs)) xs) = mset xs - {#x#}"
proof -
  let ?i = "index_of x xs"
  have "?i < length xs \<and> xs ! ?i = x" using assms by (induction xs) (auto simp: index_of_def)
  then show i: "?i < length xs" and nth: "xs ! ?i = x" by simp_all
  have "mset xs = mset (take ?i xs @ xs ! ?i # drop (Suc ?i) xs)" using i by (simp add: id_take_nth_drop [symmetric])
  then show "mset (take ?i xs @ drop (Suc ?i) xs) = mset xs - {#x#}" using nth by simp
qed

lemma mset_map_one: "mset xs = mset ys + {#c#} \<Longrightarrow> mset (map f xs) = mset (map f ys) + {#f c#}"
  by (drule arg_cong [of _ _ "image_mset f"]) simp

text \<open>Whoever has a turn finds its file open, or a free descriptor for it.\<close>

lemma turn_can_open:
  assumes inv: "service_inv (serve True) conns n k sv"
    and room: "k + length conns + n \<le> w_limit (sp_world (sv_process sv))"
  shows "server_step (serve_conn (serve (can_open i sv))) (Turn i) (sv_pool sv) =
    server_turn (serve_conn (serve True)) i (sv_pool sv)"
proof -
  let ?p = "sv_process sv" and ?pool = "sv_pool sv"
  have died: "died ?pool = None" and len: "length (threads ?pool) = n" and w: "world_ok (sp_world ?p)"
    and fo: "files_ok (serve True) n ?p ?pool (sv_files sv)"
    and opens: "length (w_open (sp_world ?p)) = k + length (sp_conns ?p) + length (sv_files sv)"
    using inv by (auto simp: service_inv_def http_inv_def process_ok_def)
  show ?thesis
  proof (cases "i < n")
    case True
    have "can_open i sv"
    proof (cases "map_of (sv_files sv) i")
      case None
      have "length (w_open (sp_world ?p)) < w_limit (sp_world ?p)"
        using opens room connections_in_hand [OF inv] files_few(2) [OF fo True None] by simp
      then have "fst (sys_open (sp_world ?p)) \<ge> 0"
        by (cases rule: sys_open_cases [OF w]) simp_all
      with None show ?thesis by (simp add: can_open_def)
    next
      case (Some fd)
      from map_of_SomeD [OF this] fo have "fd \<in> int ` set (w_open (sp_world ?p))" by (auto simp: files_ok_def)
      with Some show ?thesis by (auto simp: can_open_def)
    qed
    with died show ?thesis by (simp add: server_step_def)
  qed (use died len in \<open>simp add: server_step_def server_turn_def\<close>)
qed

lemma filter_one_key:
  "distinct (map fst xs) \<Longrightarrow> map_of xs i = Some y \<Longrightarrow> Suc (length (filter (\<lambda>f. fst f \<noteq> i) xs)) = length xs"
proof (induction xs)
  case (Cons x xs)
  show ?case
  proof (cases "fst x = i")
    case True
    with Cons.prems(1) have "i \<notin> fst ` set xs" by simp
    then have "filter (\<lambda>f. fst f \<noteq> i) xs = xs" unfolding filter_id_conv by (metis imageI)
    with True show ?thesis by simp
  next
    case False
    with Cons show ?thesis by auto
  qed
qed simp

text \<open>The worker that has answered closes its file.\<close>

lemma answered_file:
  fixes i :: nat
  assumes ok: "process_ok p" and fo: "files_ok serve n p pool files"
  defines "q \<equiv> close_file (map_of files i) p" and "files' \<equiv> filter (\<lambda>f. fst f \<noteq> i) files"
  shows "process_ok q" "sp_conns q = sp_conns p" "sp_dead q = sp_dead p" "w_limit (sp_world q) = w_limit (sp_world p)"
    "length (w_open (sp_world q)) + length files = length (w_open (sp_world p)) + length files'"
    "files_ok serve n q pool files'"
proof -
  have "process_ok q \<and> sp_conns q = sp_conns p \<and> sp_dead q = sp_dead p \<and> w_limit (sp_world q) = w_limit (sp_world p)
    \<and> length (w_open (sp_world q)) + length files = length (w_open (sp_world p)) + length files'
    \<and> files_ok serve n q pool files'"
  proof (cases "map_of files i")
    case None
    then have "files' = files" by (auto simp: files'_def filter_id_conv map_of_eq_None_iff)
    with None ok fo show ?thesis by (simp add: q_def close_file_def)
  next
    case (Some fd)
    note mem = map_of_SomeD [OF Some]
    then have fd: "fd \<in> int ` set (w_open (sp_world p))" "fd \<notin> set (known_fds p)"
      using fo by (auto simp: files_ok_def)
    note q = close_file_ok [OF ok fd, folded Some, folded q_def]
    have d: "distinct (map fst files)" "distinct (map snd files)" using fo by (simp_all add: files_ok_def)
    have "snd f \<in> int ` set (w_open (sp_world q))" if f: "f \<in> set files'" for f
    proof -
      have f': "f \<in> set files" "fst f \<noteq> i" using f by (auto simp: files'_def)
      then have "snd f \<noteq> fd" using d(2) mem by (metis eq_key_imp_eq_value distinct_map inj_onD fst_conv snd_conv)
      moreover have "snd f \<in> int ` set (w_open (sp_world p))" using fo f'(1) by (auto simp: files_ok_def)
      ultimately show ?thesis unfolding q(6) using fd(1) by auto
    qed
    moreover have "distinct (map fst files')" "distinct (map snd files')"
      using d by (simp_all add: files'_def distinct_map_filter)
    moreover have "fst f < n \<and> (\<exists>c. threads pool ! fst f = Serving c \<and> answers serve (snd c))
        \<and> snd f \<notin> set (known_fds q)" if "f \<in> set files'" for f
      using fo that q(4) by (auto simp: files_ok_def files'_def)
    ultimately have "files_ok serve n q pool files'" unfolding files_ok_def by blast
    moreover have "Suc (length files') = length files"
      unfolding files'_def by (rule filter_one_key [OF d(1) Some])
    ultimately show ?thesis using q by simp
  qed
  then show "process_ok q" "sp_conns q = sp_conns p" "sp_dead q = sp_dead p" "w_limit (sp_world q) = w_limit (sp_world p)"
    "length (w_open (sp_world q)) + length files = length (w_open (sp_world p)) + length files'"
    "files_ok serve n q pool files'" by simp_all
qed

text \<open>And then the connection.\<close>

lemma closed_connection:
  fixes i
  assumes ok: "process_ok p" "\<not> sp_dead p" and fo: "files_ok serve n p pool files" and fd: "fd \<in> set (sp_conns p)"
  defines "q \<equiv> process_step (Client_Done (index_of fd (sp_conns p))) p"
  shows "process_ok q" "\<not> sp_dead q" "w_limit (sp_world q) = w_limit (sp_world p)"
    "mset (sp_conns q) = mset (sp_conns p) - {#fd#}" "length (sp_conns p) = Suc (length (sp_conns q))"
    "length (w_open (sp_world p)) = Suc (length (w_open (sp_world q)))" "files_ok serve n q pool files"
proof -
  let ?j = "index_of fd (sp_conns p)"
  note ix = index_of_split [OF fd]
  note d = done_step [OF ok, of ?j, folded q_def]
  show "process_ok q" "w_limit (sp_world q) = w_limit (sp_world p)" by (fact d)+
  have q: "q = p\<lparr>sp_world := tcp_destroy fd (sp_world p), sp_conns := take ?j (sp_conns p) @ drop (Suc ?j) (sp_conns p)\<rparr>"
    using ok(2) ix(1,2) by (simp add: q_def process_step_def)
  then show "\<not> sp_dead q" "mset (sp_conns q) = mset (sp_conns p) - {#fd#}" using ok(2) ix(3) by simp_all
  show one: "length (sp_conns p) = Suc (length (sp_conns q))" using ix(1) by (simp add: q)
  then show "length (w_open (sp_world p)) = Suc (length (w_open (sp_world q)))"
    using process_ok_length [OF ok(1)] process_ok_length [OF d(1)] d(2,3)
    by (simp add: known_fds_def split: if_splits)
  obtain m where m: "fd = int m" using ok(1) fd by (auto simp: process_ok_def known_fds_def)
  have w: "w_open (sp_world q) = removeAll m (w_open (sp_world p))"
    by (simp add: q m tcp_destroy_def tcp_close_def sys_close_def)
  have known: "set (known_fds q) \<subseteq> set (known_fds p)" "fd \<in> set (known_fds p)"
    using fd by (auto simp: q known_fds_def dest: in_set_takeD in_set_dropD)
  show "files_ok serve n q pool files"
    unfolding files_ok_def
  proof (intro conjI ballI)
    fix f assume f: "f \<in> set files"
    then have "snd f \<in> int ` set (w_open (sp_world p))" "snd f \<notin> set (known_fds p)"
      using fo by (auto simp: files_ok_def)
    with known(2) m show "snd f \<in> int ` set (w_open (sp_world q))" by (auto simp: w)
    show "snd f \<notin> set (known_fds q)" using known(1) \<open>snd f \<notin> set (known_fds p)\<close> by blast
    show "fst f < n" "\<exists>c. threads pool ! fst f = Serving c \<and> answers serve (snd c)"
      using fo f by (auto simp: files_ok_def)
  qed (use fo in \<open>simp_all add: files_ok_def\<close>)
qed

lemma service_turn:
  assumes inv: "service_inv (serve True) conns n k sv" and free: "crash_free (serve True) (map snd conns)"
    and room: "k + length conns + n \<le> w_limit (sp_world (sv_process sv))"
    and sv': "sv' = service_step serve (Worker i) sv"
  shows "service_inv (serve True) conns n k sv'"
    "w_limit (sp_world (sv_process sv')) = w_limit (sp_world (sv_process sv))"
    "sv_pool sv' = server_turn (serve_conn (serve True)) i (sv_pool sv)"
proof -
  let ?p = "sv_process sv" and ?pool = "sv_pool sv" and ?serve = "serve_conn (serve True)" and ?files = "sv_files sv"
  have pool: "http_inv ?serve conns n ?pool" and cf: "crash_free ?serve conns" and ok: "process_ok ?p" "\<not> sp_dead ?p"
    and died: "died ?pool = None" and bal: "mset (sp_conns ?p) = mset (map fst (client_socks ?pool)) + mset (map fst (in_service ?pool))"
    and fo: "files_ok (serve True) n ?p ?pool ?files"
    and opens: "length (w_open (sp_world ?p)) = k + length (sp_conns ?p) + length ?files"
    using inv free by (auto simp: service_inv_def http_inv_def)
  note inv' = http_inv_turn [OF pool cf, of i]
  have len: "length (threads ?pool) = n" using pool by (simp add: http_inv_def)
  note turn = turn_can_open [where serve = serve, OF inv room, of i]
  show pool': "sv_pool sv' = server_turn ?serve i ?pool"
    using ok(2) died turn by (simp add: sv' service_step_def Let_def)
  show "service_inv (serve True) conns n k sv'" "w_limit (sp_world (sv_process sv')) = w_limit (sp_world ?p)"
    using pool cf
  proof (atomize (full), cases rule: server_turn_cases [of ?serve conns n ?pool i])
    case nothing
    then have "sv' = sv" using ok(2) died turn by (simp add: sv' service_step_def Let_def)
    with inv show "service_inv (serve True) conns n k sv' \<and> w_limit (sp_world (sv_process sv')) = w_limit (sp_world ?p)" by simp
  next
    case (takes c rest)
    then have p': "sv_process sv' = ?p" "sv_files sv' = ?files"
      using ok(2) died turn by (simp_all add: sv' service_step_def Let_def)
    have "mset (in_service (sv_pool sv')) = mset (in_service ?pool) + {#c#}"
      using in_service_update [of i "threads ?pool" "Serving c"] takes len pool' by (simp add: in_service_def)
    then have "mset (map fst (in_service (sv_pool sv'))) = mset (map fst (in_service ?pool)) + {#fst c#}"
      by (rule mset_map_one)
    moreover have "files_ok (serve True) n ?p (sv_pool sv') ?files"
    proof (rule files_ok_pool [OF fo], intro ballI)
      fix f assume "f \<in> set ?files"
      then have "fst f \<noteq> i" using fo takes(2) by (auto simp: files_ok_def)
      then show "threads (sv_pool sv') ! fst f = threads ?pool ! fst f" using takes(4) pool' by simp
    qed
    ultimately show "service_inv (serve True) conns n k sv' \<and> w_limit (sp_world (sv_process sv')) = w_limit (sp_world ?p)"
      using inv bal inv' takes pool' p' by (simp add: service_inv_def)
  next
    case (finishes c c')
    have fst: "fst c' = fst c" using finishes(3) serve_conn_keeps_fd by blast
    let ?p1 = "close_file (map_of ?files i) ?p" and ?files' = "filter (\<lambda>f. fst f \<noteq> i) ?files"
    let ?q = "process_step (Client_Done (index_of (fst c) (sp_conns ?p))) ?p1"
    note a = answered_file [OF ok(1) fo, of i]
    have p': "sv_process sv' = ?q" "sv_files sv' = ?files'"
      using ok(2) died turn finishes(4) fst by (simp_all add: sv' service_step_def Let_def a(2))
    have svc: "mset (in_service ?pool) = mset (in_service (sv_pool sv')) + {#c#}"
      using in_service_update [of i "threads ?pool" Idle] finishes len pool' by (simp add: in_service_def)
    then have svcf: "mset (map fst (in_service ?pool)) = mset (map fst (in_service (sv_pool sv'))) + {#fst c#}"
      by (rule mset_map_one)
    then have "fst c \<in># mset (sp_conns ?p)" using bal by simp
    then have mem: "fst c \<in> set (sp_conns ?p1)" using a(2) by simp
    have alive: "\<not> sp_dead ?p1" using a(3) ok(2) by simp
    note q = closed_connection [OF a(1) alive a(6) mem, unfolded a(2)]
    have "files_ok (serve True) n ?q (sv_pool sv') ?files'"
      by (rule files_ok_pool [OF q(7)]) (use finishes pool' in \<open>auto simp: nth_list_update\<close>)
    with inv bal svcf inv' finishes(4) pool' p' q(1-6) a(4,5) opens
    show "service_inv (serve True) conns n k sv' \<and> w_limit (sp_world (sv_process sv')) = w_limit (sp_world ?p)"
      by (simp add: service_inv_def)
  qed
qed

section \<open>Runs\<close>

lemma service_run_simps [simp]:
  "service_run serve [] sv = sv"
  "service_run serve (ev # evs) sv = service_run serve evs (service_step serve ev sv)"
  "service_run serve (evs @ evs') sv = service_run serve evs' (service_run serve evs sv)"
  by (simp_all add: service_run_def)

lemma arrived_append [simp]: "arrived (evs @ evs') = arrived evs @ arrived evs'"
  by (induction evs rule: arrived.induct) simp_all

lemma arrived_workers [simp]: "arrived (map Worker sched) = []"
  by (induction sched) simp_all

lemma service_arrivals:
  "service_inv (serve True) conns n k sv \<Longrightarrow> sound_peers evs \<Longrightarrow>
   crash_free (serve True) (map snd conns @ arrived evs) \<Longrightarrow>
   k + length conns + n + 2 * length (arrived evs) \<le> w_limit (sp_world (sv_process sv)) \<Longrightarrow>
   \<exists>conns'. map snd conns' = map snd conns @ arrived evs
     \<and> service_inv (serve True) conns' n (k + length (arrived evs)) (service_run serve evs sv)
     \<and> w_limit (sp_world (sv_process (service_run serve evs sv))) = w_limit (sp_world (sv_process sv))"
proof (induction evs arbitrary: conns k sv)
  case (Cons ev evs)
  let ?sv1 = "service_step serve ev sv"
  have peers: "sound_peers evs" using Cons.prems(2) by (auto simp: sound_peers_def)
  have free: "crash_free (serve True) (map snd conns)" using Cons.prems(3) by (simp add: crash_free_def)
  show ?case
  proof (cases ev)
    case (Arrival peer s)
    then have "\<exists>ip port. peer = Some (Some ip, port)"
      using Cons.prems(2) unfolding sound_peers_def by (meson list.set_intros(1))
    with Arrival obtain ip port where ev: "ev = Arrival (Some (Some ip, port)) s" by blast
    have "k + length conns + n + 2 \<le> w_limit (sp_world (sv_process sv))" using Cons.prems(4) ev by simp
    note a = service_arrival [where serve = serve, OF Cons.prems(1) this refl, where ip = ip and port = port and s = s]
    obtain fd where fd: "service_inv (serve True) (conns @ [(fd, s)]) n (Suc k) ?sv1" using a(1) ev by auto
    from Cons.IH [OF fd peers] Cons.prems(3,4) ev a(2) show ?thesis by simp
  next
    case (Worker i)
    have "k + length conns + n \<le> w_limit (sp_world (sv_process sv))" using Cons.prems(4) by simp
    note t = service_turn [where serve = serve, OF Cons.prems(1) free this refl, of i]
    from Cons.IH [of conns k ?sv1] peers Cons.prems(3,4) t(1,2) Worker show ?thesis by simp
  next
    case (Opens_File i)
    have "k + length conns + n \<le> w_limit (sp_world (sv_process sv))" using Cons.prems(4) by simp
    note t = service_opens [where serve = serve, OF Cons.prems(1) free this refl, of i]
    from Cons.IH [of conns k ?sv1] peers Cons.prems(3,4) t Opens_File show ?thesis by simp
  qed
qed auto

lemma service_turns:
  "service_inv (serve True) conns n k sv \<Longrightarrow> crash_free (serve True) (map snd conns) \<Longrightarrow>
   k + length conns + n \<le> w_limit (sp_world (sv_process sv)) \<Longrightarrow>
   service_inv (serve True) conns n k (service_run serve (map Worker sched) sv)
   \<and> sv_pool (service_run serve (map Worker sched) sv) =
       run_turns (server_turn (serve_conn (serve True))) sched (sv_pool sv)"
proof (induction sched arbitrary: sv)
  case (Cons i sched)
  note t = service_turn [where serve = serve, OF Cons.prems refl, of i]
  from Cons.IH [OF t(1) Cons.prems(2)] Cons.prems(3) t(2,3) show ?case by simp
qed simp

text \<open>When the workers have nothing left to do, only stuck connections keep their descriptors.\<close>

lemma idle_service:
  assumes "service_inv serve conns n k sv" "http_work (serve_conn serve) (sv_pool sv) = 0"
  shows "mset (map snd (served (sv_pool sv))) =
      image_mset (answer_of serve) (filter_mset (answers serve) (mset (map snd conns)))"
    and "length (sp_conns (sv_process sv)) = stuck serve (map snd conns)" and "sv_files sv = []"
proof -
  let ?serve = "serve_conn serve" and ?pool = "sv_pool sv"
  have pool: "http_inv ?serve conns n ?pool" using assms(1) by (simp add: service_inv_def)
  have lift: "answers ?serve = answers serve \<circ> snd" "snd \<circ> answer_of ?serve = answer_of serve \<circ> snd"
    by (simp_all add: fun_eq_iff)
  have "mset (map snd (served ?pool)) = image_mset snd (mset (served ?pool))" by simp
  also have "\<dots> = image_mset (answer_of serve \<circ> snd) (filter_mset (answers serve \<circ> snd) (mset conns))"
    unfolding idle_pool_served_all [OF pool assms(2)] multiset.map_comp lift ..
  also have "\<dots> = image_mset (answer_of serve) (filter_mset (answers serve) (mset (map snd conns)))"
    by (simp add: filter_mset_image_mset multiset.map_comp comp_def)
  finally show "mset (map snd (served ?pool)) =
      image_mset (answer_of serve) (filter_mset (answers serve) (mset (map snd conns)))" .
  from pool obtain past where past: "mset conns = mset (client_socks ?pool) + mset (in_service ?pool) + mset past"
    "\<forall>c \<in> set past. answers ?serve c" by (auto simp: http_inv_def)
  have none: "client_socks ?pool = []" "\<forall>c \<in> set (in_service ?pool). \<not> answers ?serve c"
    using assms(2) by (auto simp: http_work_def filter_mset_eq_mempty_iff)
  have "filter_mset (\<lambda>c. \<not> answers ?serve c) (mset past) = {#}"
    "filter_mset (\<lambda>c. \<not> answers ?serve c) (mset (in_service ?pool)) = mset (in_service ?pool)"
    using past(2) none(2) by (simp_all add: filter_mset_eq_mempty_iff filter_mset_eq_conv)
  then have "stuck ?serve conns = length (in_service ?pool)" by (simp add: stuck_def past(1) none(1))
  moreover have "size (mset (sp_conns (sv_process sv))) = length (in_service ?pool)"
    using assms(1) none(1) by (simp add: service_inv_def)
  ultimately show "length (sp_conns (sv_process sv)) = stuck serve (map snd conns)"
    by (simp add: stuck_conn)
  show "sv_files sv = []"
  proof (rule ccontr)
    assume "sv_files sv \<noteq> []"
    then obtain f where f: "f \<in> set (sv_files sv)" by (cases "sv_files sv") auto
    with assms(1) obtain c where c: "fst f < n" "threads ?pool ! fst f = Serving c" "answers serve (snd c)"
      by (auto simp: service_inv_def files_ok_def)
    have "c \<in> set (in_service ?pool)"
      by (rule serving_in_service [of "fst f"]) (use c pool in \<open>simp_all add: http_inv_def\<close>)
    with none(2) c(3) show False by simp
  qed
qed

lemma start_process_opens:
  assumes "world_ok w" "length (w_open w) + 2 \<le> w_limit w"
  shows "length (w_open (sp_world (start_process valid bind_rc listen_rc ip port w))) = length (w_open w) + 2
    \<and> \<not> sp_dead (start_process valid bind_rc listen_rc ip port w)"
proof -
  obtain fd w1 where t: "tcp_new w = (fd, w1)" by fastforce
  obtain b w2 where bd: "tcp_bind valid bind_rc ip port w1 = (b, w2)" by fastforce
  obtain l w3 where li: "tcp_listen listen_rc fd w2 = (l, w3)" by fastforce
  let ?p = "\<lparr>sp_world = w3, sp_sock = fd, sp_fresh = -1, sp_conns = [], sp_dead = False\<rparr>"
  have p: "start_process valid bind_rc listen_rc ip port w = begin_iteration ?p"
    by (simp add: start_process_def t bd li)
  have open3: "w_open w3 = w_open w1" "w_limit w3 = w_limit w1"
    using bind_listen_world(1,2) [of valid bind_rc ip port w1] bind_listen_world(3,4) [of listen_rc fd w2] bd li
    by simp_all
  have "world_ok w1" "length (w_open w1) = Suc (length (w_open w))" "w_limit w1 = w_limit w"
    using tcp_new_world [OF assms(1)] t assms(2) by simp_all
  then have "length (w_open (sp_world (begin_iteration ?p))) = length (w_open w) + 2"
    using begin_iteration_opens [of ?p] open3 assms(2) by (simp add: world_ok_def)
  moreover have "\<not> sp_dead (begin_iteration ?p)" by (simp add: begin_iteration_def split: prod.split)
  ultimately show ?thesis unfolding p by simp
qed

text \<open>The server as \<^verbatim>\<open>main\<close> starts it, with five descriptors.\<close>

lemma started_service:
  assumes "server_main opts cwd existing valid bind_rc listen_rc w = Inr (base, p, pool)" "world_ok w"
    "length (w_open w) + 5 \<le> w_limit w"
  shows "service_inv serve [] (length (threads pool)) (length (w_open w) + 5)
      \<lparr>sv_process = p, sv_pool = pool, sv_files = []\<rparr>"
    and "w_limit (sp_world p) = w_limit w"
proof -
  define w1 where "w1 = initialize_reporter ''err_server.log'' ''warn_server.log'' ''info_server.log'' w"
  note w1 = initialize_reporter_world [OF assms(2), of "''err_server.log''" "''warn_server.log''"
      "''info_server.log''", folded w1_def]
  have "\<exists>ip port n. p = start_process valid bind_rc listen_rc ip port w1 \<and> pool = new_http_pool n"
    using assms(1) unfolding w1_def by (auto simp: server_main_def Let_def)
  then obtain ip port n where p: "p = start_process valid bind_rc listen_rc ip port w1" "pool = new_http_pool n" by blast
  have ok: "process_ok p" "w_limit (sp_world p) = w_limit w1" "sp_conns p = []"
    using start_process_wasted [OF w1(1)] p(1) by (auto simp: wasted_def)
  have "length (w_open (sp_world p)) = length (w_open w1) + 2 \<and> \<not> sp_dead p"
    using start_process_opens [OF w1(1)] w1(2,3) assms(3) p(1) by simp
  with ok p(2) w1(2,3) assms(3) show "w_limit (sp_world p) = w_limit w"
    "service_inv serve [] (length (threads pool)) (length (w_open w) + 5)
      \<lparr>sv_process = p, sv_pool = pool, sv_files = []\<rparr>"
    using http_inv_new by (auto simp: service_inv_def files_ok_def new_http_pool_def in_service_def)
qed

section \<open>Properties\<close>


definition sample_service :: http_service where
  "sample_service =
     \<lparr>sv_process = start_process True (\<lambda>_. 0) 0 ''127.0.0.1'' 8888
        (initialize_reporter ''err_server.log'' ''warn_server.log'' ''info_server.log'' (sample_world 20)),
      sv_pool = new_http_pool 8, sv_files = []\<rparr>"


end
