(* ===== verification/Spec2Isabelle.thy ===== *)
theory Spec2Isabelle
  imports Absence Restart Recovery_Race Fresh_Start Concurrent_Clients Late_Calls Node_Typing Configuration Net_Run Tcp_Socket Echo
    Sudoku_Main Http_Service
begin

text \<open>
  The three programs of the repository and what makes them correct: a sudoku solver with a
  thread pool (\<^verbatim>\<open>Lab1/src\<close>), a small HTTP server (\<^verbatim>\<open>Lab2/src\<close>), and a replicated key-value store
  with two-phase commit (\<^verbatim>\<open>Lab3/src\<close>) on a library for asynchronous TCP (\<^verbatim>\<open>Lab3/src/tcp_server\<close>).
  Paths are relative to the repository.

  CONVENTIONS. A C++ integer of a fixed width is a word where its wrap-around can be seen, and a
  natural number otherwise. An exception, an abort or undefined behaviour is a value of \<open>exn\<close>; a
  function that can throw returns \<open>exn + 'a\<close>. Methods take their object and return it. The
  critical section of a mutex is one step, and threads are interleavings of such steps: a
  schedule that is given as a list, or a step relation. Whatever lies outside the sources is an
  argument: LevelDB, rpclib, the flag parser and \<^verbatim>\<open>getopt_long\<close>, the file system, \<^verbatim>\<open>select\<close> and
  what the other system calls answer, the iteration order of unordered containers, the contents
  of uninitialised memory, and which worker runs next.

  SHARED THEORIES. \<open>Cpp_Prelude\<close>: integers, exceptions (\<^verbatim>\<open>Lab3/src/errors.hpp\<close>), number parsing and
  printing, \<^verbatim>\<open>getline\<close>, ordered maps and sets; the locale \<open>std_map\<close> states what a client of an ordered
  map relies on and is interpreted on ordered association lists. \<open>Work_Crew\<close>: the locale
  \<open>work_crew\<close>, workers that take turns on a shared state; from its laws follows that enough
  rounds in which every worker has a turn finish the work. It is interpreted on the thread
  pools of all three programs.

  LAB 3, THE STORE. A client sends commands in the RESP format to the coordinator, which executes
  SET and DEL on all participants by two-phase commit and GET on one of them.
  \<open>Commands\<close> (\<^verbatim>\<open>command.hpp\<close>, \<^verbatim>\<open>command.cpp\<close>): the command objects and their meaning on a store.
  \<open>Command_Parser\<close> (\<^verbatim>\<open>command_parser.cpp\<close>): the reader; requests are read back, proper prefixes
  are refused as incomplete, nothing outside the buffer is read; the locale \<open>stream_reader\<close>,
  interpreted on \<open>read_command\<close>, gives what the coordinator needs to parse a stream in pieces.
  \<open>Record_Log\<close> (\<^verbatim>\<open>record.cpp\<close>): the binary log and its recovery, with the file operations of one
  entry and the effect of a crash between any two of them or within one. \<open>Participant\<close>
  (\<^verbatim>\<open>participant.cpp\<close>): one definition for each RPC handler, the dispatch and the recovery at
  start-up. The locale \<open>leveldb_laws\<close> holds the documented laws of LevelDB, which say what a call does
  that succeeds; \<open>leveldb_store\<close> adds the assumption that the disk takes every write, which the results about
  stores make. The first is interpreted on a disk that is full, the second on an association list. \<open>Configuration\<close> (\<^verbatim>\<open>configuration.cpp\<close>,
  \<^verbatim>\<open>kvstore2pcsystem.cpp\<close>): configuration files, the command line, \<^verbatim>\<open>main\<close>.
  \<open>Coordinator\<close> (\<^verbatim>\<open>coordinator.cpp\<close>): parsing loop, dispatch, the loops of prepare, commit, abort
  and get, the recovery of records and participants, the heartbeat. \<open>Replication\<close> states the
  contract of a participant as the locale \<open>rpc_participants\<close>, extended by \<open>rpc_recoverable\<close> (a
  snapshot moves a store) and \<open>rpc_responsive\<close> (nothing fails), and proves in them that the
  participants the coordinator keeps are replicas of one store. \<open>Cluster\<close> puts the coordinator and
  the participants on a network that loses calls, loses answers and crashes nodes at will (a call is
  executed when it is made, or never: see ASSUMPTIONS), shows
  that they satisfy the contracts, and states the results for the whole system, from the bytes a
  client sends to the stores and the answers. \<open>Healing\<close>: on a network that has become quiet one pass
  of the heartbeat brings every participant back, and so does the restart of an idle coordinator.
  \<open>Absence\<close>: what a participant has missed between two requests is made up for, deletions
  included. \<open>Restart\<close>, \<open>Recovery_Race\<close>: a coordinator that crashes within a request, or whose recovery
  meets a running one. \<open>Fault_Tolerance\<close> drops the quiet network: \<open>sound_system\<close> is an invariant of a
  coordinator and all its participants, in the map or not, up or down, behind or with commands in
  their queues, that every request keeps whichever of its calls fail, and every heartbeat of a coordinator that
  has been recovered or has readmitted a participant before (\<open>co_recovered\<close>). \<open>Fresh_Start\<close>: the start of an idle
  coordinator establishes both, a first start with an empty log establishes the invariant alone.
  \<open>Late_Calls\<close>: calls that outlive their timeout. \<open>Concurrent_Clients\<close> takes
  \<^verbatim>\<open>handle_db_requests\<close> and \<^verbatim>\<open>heartbeat_participants\<close> apart into the steps between which other threads
  run (accepting, reading, one command under the lock, asking for more, writing an answer; the
  call of a participant, what is done under the lock) and shows for every interleaving of any
  number of clients, which may send anything and leave at any time, that they see one store on
  which the requests are executed one after the other. It tells the heartbeats that readmit a participant
  (\<open>Joins\<close>) from the others, so that what is shown holds of a first start too as long as nobody is
  readmitted. \<open>Node_Typing\<close>: the types of requests and responses, with preservation and progress for
  a participant.

  LAB 3, THE TCP LIBRARY. \<open>Thread_Pool\<close> (\<^verbatim>\<open>thread_pool.cpp\<close>), \<open>Wakeup_Pipe\<close> (\<^verbatim>\<open>pipe.cpp\<close>), \<open>Reactor\<close>
  (\<^verbatim>\<open>reactor.cpp\<close>): the table of descriptors, its operations and the interleavings of users, poll
  thread and workers, among them callbacks that throw; at most one callback of a kind runs for a
  descriptor. \<open>Poll_Loop\<close>: the loop of the poll thread; it never sleeps on outdated sets, and a
  descriptor whose callback has thrown is lost. \<open>Tcp_Net\<close> (\<^verbatim>\<open>tcp_client.cpp\<close>, \<^verbatim>\<open>tcp_server.cpp\<close>):
  request queues on the reactor. \<open>Net_Run\<close>: clients and server on the running reactor, with its workers and its
  poll thread; a client is watched exactly for the requests it has pending, unless a new connection
  gets the number of a descriptor whose callback is still running. \<open>Tcp_Socket\<close>
  (\<^verbatim>\<open>tcp_socket.cpp\<close>): sockets with the system calls they make; however sockets are made, used, accepted, moved
  and assigned, these respect the discipline of descriptors and every open one has one owner, but an
  assignment to a socket that has a descriptor loses it. \<open>Echo\<close> (\<^verbatim>\<open>tcp_echo_server.cpp\<close>, \<^verbatim>\<open>tcp_echo_client.cpp\<close>): the callbacks of
  the two example programs on that client; the lines come back in order.

  LAB 1. \<open>Sudoku\<close> (\<^verbatim>\<open>sudoku_basic.h\<close>, text boards of \<^verbatim>\<open>main.cc\<close>): the solver always returns, and
  leaves the first solution in reading order, or the board as it was when there is none.
  \<open>Sudoku_Main\<close> (\<^verbatim>\<open>thread_pool.h\<close>, \<^verbatim>\<open>main.cc\<close>): the pool and the program; under every schedule the
  results are printed in the order of the lines, and under a fair one all of them are.

  LAB 2. \<open>Http_Message\<close> (\<^verbatim>\<open>message.cc\<close>, the reading and writing loops of \<^verbatim>\<open>tcp_socket.cc\<close>, the string
  helpers of \<^verbatim>\<open>server.cc\<close>), \<open>Http_Server\<close> (\<^verbatim>\<open>server.cc\<close>): what serving one connection does; a GET is
  answered with its file or the 404 page and a POST of the form with its fields, however the
  bytes arrive; a client that has gone ends the process with \<^verbatim>\<open>SIGPIPE\<close>; \<open>harmless\<close> connections cannot
  end it. \<open>Http_Pool\<close> (\<^verbatim>\<open>thread_pool.cc\<close>, the accept loop): every connection is served once,
  unless as many unfinished requests as workers are in service. \<open>Http_Main\<close> (\<^verbatim>\<open>tcp_socket.cc\<close>,
  \<^verbatim>\<open>reporter.cc\<close>, \<^verbatim>\<open>main.cc\<close>): the process with its descriptors, its logs and its options; every
  connection costs it a descriptor for good. \<open>Http_Service\<close> joins the process and the pool, with the
  files the workers have open: within its limit of descriptors the server serves every harmless client
  and closes its connection.

  TERMINATION AND BOUNDS. Loops that end are total functions: the solver's measure is the number
  of empty cells, that of the parsers the rest of the buffer, that of the receiving loops the
  bytes still to come. The loop over the header lines of an HTTP request may not end; it is a
  partial function with an option result, and a lemma says exactly when it returns. Fairness of a
  schedule of the pools is counted in rounds: a task takes at most two turns, so twice as many rounds as tasks
  are enough. A call of \<^verbatim>\<open>send\<close> or \<^verbatim>\<open>recv\<close> that is not described by its list of outcomes takes or
  delivers all bytes, so the lists need no bound. The ids of requests are 32 bits wide: results about
  many requests ask for a run that does not bring them back to 0, and those about snapshots for
  keys and values of less than 32768 bytes, what a snapshot can carry.

  ASSUMPTIONS on the programs' surroundings, beside what the arguments say. A call of a participant that
  has timed out (\<^verbatim>\<open>RPC_TIMEOUT\<close>, 600 ms) is not executed after a later call to the same participant has been; one
  that is executed before it is the same as one whose answer is lost (\<open>late_call_is_lost_answer\<close>). A
  handler of a participant is one step: only PREPARE, COMMIT and ABORT lock its mutex, but the coordinator
  has one call of it under way at a time. A request is one step of the coordinator, because it runs under
  \<^verbatim>\<open>participants_mutex_\<close>; that each call of the RPC library returns or times out, so that the lock is
  given back, is assumed, and no result says that a handler gets the lock in the end.

  WHAT DOES NOT HOLD is proved as well where the code shows it: a fresh coordinator readmits a
  stale store, a restart of the coordinator resurrects deleted keys, a crash within a request is
  final, the recovery can abort a running update without any failure, a restarted participant has
  lost the command it had prepared, a RECOVER that is late or refused breaks the replicas, truncating the
  log can forget the next id, a record that is partly written is read past its end, a reused
  descriptor is dropped, an assignment loses a descriptor, slow clients stop the HTTP server, one that
  has gone ends it, and a long-running one aborts.

  NOT MODELLED. Calls that are overtaken (but for \<open>Late_Calls\<close>), waiting for a lock, the destruction of a socket that
  is open, output for people (progress messages, the usage text), sleeping, the endless
  repetition of the heartbeat (one pass is modelled), serialisation by the RPC library, the
  capacity of a pipe, failures of \<^verbatim>\<open>fstream\<close>, of memory and of thread creation where the code does not
  look at them, data races on variables outside any mutex, the test programs, and the vendored libraries.
\<close>

end
